(* ===== verification/Ekv_Error.thy ===== *)
theory Ekv_Error
  imports Main
begin

text \<open>
  The error type of the crate, \<^verbatim>\<open>rust/src/error.rs\<close>: one constructor per variant of
  \<^verbatim>\<open>enum Error\<close>, the text its \<^verbatim>\<open>Display\<close> implementation prints and the
  \<^verbatim>\<open>From<io::Error>\<close> conversion that the \<^verbatim>\<open>?\<close> operator applies.
  An \<^verbatim>\<open>io::Error\<close> is represented by the kinds the standard library returns for the calls the
  crate makes: end of file in \<^verbatim>\<open>read_exact\<close>, and any failure code of the operating system.
\<close>

datatype io_error = UnexpectedEof | Os nat

datatype error =
    InvalidHeader
  | InvalidBlock
  | CrcMismatch
  | KeyNotFound
  | StorageFull
  | CorruptRecord
  | InvalidBlockSize
  | SizeMismatch
  | KeyTooLong
  | NoReplicas
  | ReplicaMismatch
  | Io io_error

text \<open>
  \<^verbatim>\<open>impl Display for Error\<close>. The text of an \<^verbatim>\<open>io::Error\<close> belongs to the standard library and
  the operating system, so it is an argument.
\<close>

fun error_display :: "(io_error \<Rightarrow> string) \<Rightarrow> error \<Rightarrow> string" where
  "error_display io_text InvalidHeader = ''embedkv: invalid storage header''"
| "error_display io_text InvalidBlock = ''embedkv: invalid block''"
| "error_display io_text CrcMismatch = ''embedkv: CRC32 mismatch''"
| "error_display io_text KeyNotFound = ''embedkv: key not found''"
| "error_display io_text StorageFull = ''embedkv: storage full''"
| "error_display io_text CorruptRecord = ''embedkv: corrupt record''"
| "error_display io_text InvalidBlockSize = ''embedkv: invalid block size''"
| "error_display io_text SizeMismatch = ''embedkv: storage size mismatch''"
| "error_display io_text KeyTooLong = ''embedkv: key too long for block size''"
| "error_display io_text NoReplicas = ''embedkv: at least one replica device is required''"
| "error_display io_text ReplicaMismatch = ''embedkv: replica devices have mismatched geometry''"
| "error_display io_text (Io e) = ''embedkv: io error: '' @ io_text e"

text \<open>\<^verbatim>\<open>impl std::error::Error for Error\<close>: only an I/O error has a source.\<close>

fun error_source :: "error \<Rightarrow> io_error option" where
  "error_source (Io e) = Some e"
| "error_source _ = None"

text \<open>\<^verbatim>\<open>impl From<io::Error> for Error\<close>.\<close>

definition error_from_io :: "io_error \<Rightarrow> error" where
  "error_from_io e = Io e"

end
