(* ===== verification/Ekv_Prelude.thy ===== *)
theory Ekv_Prelude
  imports Ekv_Error "HOL-Library.Word"
begin

text \<open>
  What every component shares: the machine integers, the result of a Rust computation
  (\<open>Ok\<close>, \<open>Err\<close> or a panic), computations on a mutable state, checked arithmetic, slice access
  and the little-endian encodings of the standard library.

  \<^verbatim>\<open>u8\<close>, \<^verbatim>\<open>u16\<close> and \<^verbatim>\<open>u32\<close> are words of their width. \<^verbatim>\<open>usize\<close> and \<^verbatim>\<open>u64\<close> are natural
  numbers: on a 64-bit target every value the crate computes with them is a length of a buffer in
  memory, a product of two \<^verbatim>\<open>u32\<close> values, or the sum of such a value with a \<^verbatim>\<open>u32\<close>, and cannot
  reach \<open>2 ^ 64\<close>. A cast \<^verbatim>\<open>n as u32\<close> from \<^verbatim>\<open>usize\<close> is \<open>word_of_nat n\<close>, which truncates as the
  cast does.
\<close>

unbundle bit_operations_syntax

type_synonym u8 = "8 word"
type_synonym u16 = "16 word"
type_synonym u32 = "32 word"
type_synonym bytes = "8 word list"

named_theorems outcome_simps \<open>evaluation of computations whose steps succeed\<close>
named_theorems layout_simps \<open>constants and offsets of the on-disk layout\<close>

section \<open>Outcomes\<close>

text \<open>
  A Rust call returns a value, returns an error, or panics. Functions that do not return a
  \<^verbatim>\<open>Result\<close> never take the \<open>Err\<close> branch.
\<close>

datatype 'a outcome = Ok 'a | Err error | Panic

fun bind_o :: "'a outcome \<Rightarrow> ('a \<Rightarrow> 'b outcome) \<Rightarrow> 'b outcome" where
  "bind_o (Ok x) f = f x"
| "bind_o (Err e) f = Err e"
| "bind_o Panic f = Panic"

section \<open>Computations on a mutable state\<close>

text \<open>
  A method with \<^verbatim>\<open>&mut self\<close> maps the state to an outcome and the state it leaves. An error
  or a panic leaves the state as it was when it happened: \<^verbatim>\<open>?\<close> undoes nothing.
\<close>

type_synonym ('s, 'a) io = "'s \<Rightarrow> 'a outcome \<times> 's"

definition return_io :: "'a \<Rightarrow> ('s, 'a) io" where
  "return_io x = (\<lambda>s. (Ok x, s))"

definition fail_io :: "error \<Rightarrow> ('s, 'a) io" where
  "fail_io e = (\<lambda>s. (Err e, s))"

text \<open>Reading a field of the state.\<close>

definition asks_io :: "('s \<Rightarrow> 'a) \<Rightarrow> ('s, 'a) io" where
  "asks_io f = (\<lambda>s. (Ok (f s), s))"

definition modify_io :: "('s \<Rightarrow> 's) \<Rightarrow> ('s, unit) io" where
  "modify_io f = (\<lambda>s. (Ok (), f s))"

definition lift_io :: "'a outcome \<Rightarrow> ('s, 'a) io" where
  "lift_io m = (\<lambda>s. (m, s))"

definition bind_io :: "('s, 'a) io \<Rightarrow> ('a \<Rightarrow> ('s, 'b) io) \<Rightarrow> ('s, 'b) io" where
  "bind_io m f = (\<lambda>s. case m s of
      (Ok x, s') \<Rightarrow> f x s'
    | (Err e, s') \<Rightarrow> (Err e, s')
    | (Panic, s') \<Rightarrow> (Panic, s'))"

lemma return_io_apply [simp]: "return_io x s = (Ok x, s)"
  by (simp add: return_io_def)

lemma fail_io_apply [simp]: "fail_io e s = (Err e, s)"
  by (simp add: fail_io_def)

lemma asks_io_apply [simp]: "asks_io f s = (Ok (f s), s)"
  by (simp add: asks_io_def)

lemma modify_io_apply [simp]: "modify_io f s = (Ok (), f s)"
  by (simp add: modify_io_def)

lemma lift_io_apply [simp]: "lift_io m s = (m, s)"
  by (simp add: lift_io_def)

lemma bind_io_Ok [outcome_simps]: "m s = (Ok x, s') \<Longrightarrow> bind_io m f s = f x s'"
  by (simp add: bind_io_def)

lemma bind_io_Err [outcome_simps]: "m s = (Err e, s') \<Longrightarrow> bind_io m f s = (Err e, s')"
  by (simp add: bind_io_def)

lemma bind_io_Panic [outcome_simps]: "m s = (Panic, s') \<Longrightarrow> bind_io m f s = (Panic, s')"
  by (simp add: bind_io_def)

lemma bind_io_lift_Ok [simp]: "bind_io (lift_io (Ok x)) f = f x"
  by (simp add: bind_io_def fun_eq_iff)

lemma bind_io_return [simp]: "bind_io (return_io x) f = f x"
  by (simp add: bind_io_def fun_eq_iff)

lemma bind_io_lift_Panic [simp]: "bind_io (lift_io Panic) f = lift_io Panic"
  by (simp add: bind_io_def fun_eq_iff)

text \<open>
  A total-correctness triple: from a state that satisfies \<open>P\<close> the computation does not panic, a
  value it returns satisfies \<open>Q\<close> with the final state, and an error it returns satisfies \<open>E\<close> with
  the state it leaves behind.
\<close>

definition triple ::
    "('s \<Rightarrow> bool) \<Rightarrow> ('s, 'a) io \<Rightarrow> ('a \<Rightarrow> 's \<Rightarrow> bool) \<Rightarrow> (error \<Rightarrow> 's \<Rightarrow> bool) \<Rightarrow> bool" where
  "triple P m Q E \<longleftrightarrow> (\<forall>s. P s \<longrightarrow>
     (case m s of (Ok x, s') \<Rightarrow> Q x s' | (Err e, s') \<Rightarrow> E e s' | (Panic, s') \<Rightarrow> False))"

lemma triple_Ok: "triple P m Q E \<Longrightarrow> P s \<Longrightarrow> m s = (Ok x, s') \<Longrightarrow> Q x s'"
  by (force simp: triple_def)

lemma triple_Err: "triple P m Q E \<Longrightarrow> P s \<Longrightarrow> m s = (Err e, s') \<Longrightarrow> E e s'"
  by (force simp: triple_def)

lemma triple_no_Panic: "triple P m Q E \<Longrightarrow> P s \<Longrightarrow> fst (m s) \<noteq> Panic"
  by (cases "m s") (force simp: triple_def)

lemma triple_cases:
  assumes "triple P m Q E" and "P s"
  obtains (Ok) x s' where "m s = (Ok x, s')" and "Q x s'"
  | (Err) e s' where "m s = (Err e, s')" and "E e s'"
proof (cases "m s")
  case (Pair r s')
  show ?thesis
  proof (cases r)
    case (Ok x)
    with Pair that(1) triple_Ok [OF assms] show ?thesis by blast
  next
    case (Err e)
    with Pair that(2) triple_Err [OF assms] show ?thesis by blast
  next
    case Panic
    with Pair triple_no_Panic [OF assms] show ?thesis by simp
  qed
qed

lemma triple_conseq:
  assumes "triple P' m Q' E'"
    and "\<And>s. P s \<Longrightarrow> P' s" and "\<And>x s. Q' x s \<Longrightarrow> Q x s" and "\<And>e s. E' e s \<Longrightarrow> E e s"
  shows "triple P m Q E"
  unfolding triple_def
proof (intro allI impI)
  fix s
  assume "P s"
  then have "P' s" by (rule assms(2))
  with assms(1) show "case m s of (Ok x, s') \<Rightarrow> Q x s' | (Err e, s') \<Rightarrow> E e s' | (Panic, s') \<Rightarrow> False"
    by (cases rule: triple_cases) (auto dest: assms(3,4))
qed

lemma triple_pre: "triple P' m Q E \<Longrightarrow> (\<And>s. P s \<Longrightarrow> P' s) \<Longrightarrow> triple P m Q E"
  by (rule triple_conseq)

lemma triple_return [intro]: "(\<And>s. P s \<Longrightarrow> Q x s) \<Longrightarrow> triple P (return_io x) Q E"
  by (simp add: triple_def)

lemma triple_fail [intro]: "(\<And>s. P s \<Longrightarrow> E e s) \<Longrightarrow> triple P (fail_io e) Q E"
  by (simp add: triple_def)

lemma triple_lift [intro]: "m = Ok x \<Longrightarrow> (\<And>s. P s \<Longrightarrow> Q x s) \<Longrightarrow> triple P (lift_io m) Q E"
  by (simp add: triple_def)

lemma triple_bind:
  assumes "triple P m R E" and "\<And>x. triple (R x) (f x) Q E"
  shows "triple P (bind_io m f) Q E"
  unfolding triple_def
proof (intro allI impI)
  fix s
  assume "P s"
  with assms(1) show "case bind_io m f s of (Ok x, s') \<Rightarrow> Q x s' | (Err e, s') \<Rightarrow> E e s' | (Panic, s') \<Rightarrow> False"
  proof (cases rule: triple_cases)
    case (Ok x s')
    with assms(2) [of x] show ?thesis
      by (simp add: bind_io_Ok triple_def)
  next
    case (Err e s')
    then show ?thesis by (simp add: bind_io_Err)
  qed
qed

text \<open>A step whose value the postcondition fixes.\<close>

lemma triple_bind_eq:
  assumes "triple P m (\<lambda>x s. x = v \<and> R s) E" and "triple R (f v) Q E"
  shows "triple P (bind_io m f) Q E"
proof (rule triple_bind [OF assms(1)])
  fix x
  show "triple (\<lambda>s. x = v \<and> R s) (f x) Q E"
    using assms(2) by (auto simp: triple_def)
qed

text \<open>A field whose value the precondition fixes.\<close>

lemma triple_asks_bind:
  "(\<And>s. P s \<Longrightarrow> f s = x) \<Longrightarrow> triple P (g x) Q E \<Longrightarrow> triple P (bind_io (asks_io f) g) Q E"
  by (simp add: triple_def bind_io_def)

lemma triple_prog: "triple P m' Q E \<Longrightarrow> (\<And>s. P s \<Longrightarrow> m s = m' s) \<Longrightarrow> triple P m Q E"
  by (simp add: triple_def)

lemma triple_assume: "(\<And>s. P s \<Longrightarrow> A) \<Longrightarrow> (A \<Longrightarrow> triple P m Q E) \<Longrightarrow> triple P m Q E"
  by (fastforce simp: triple_def)

lemma triple_ex: "(\<And>x. triple (P x) m Q E) \<Longrightarrow> triple (\<lambda>s. \<exists>x. P x s) m Q E"
  by (force simp: triple_def)

subsection \<open>Loops over a list of states\<close>

text \<open>
  \<open>iter_mut f i a\<close> is a loop \<^verbatim>\<open>for (i, x) in xs.iter_mut().enumerate()\<close> with loop variables \<open>a\<close>: the
  body runs on each element in turn, and the first error or panic ends the loop.
\<close>

fun iter_mut :: "(nat \<Rightarrow> 'a \<Rightarrow> ('s, 'a) io) \<Rightarrow> nat \<Rightarrow> 'a \<Rightarrow> ('s list, 'a) io" where
  "iter_mut f i a [] = (Ok a, [])"
| "iter_mut f i a (s # ss) =
     (case f i a s of
        (Ok b, s') \<Rightarrow> (case iter_mut f (Suc i) b ss of (res, ss') \<Rightarrow> (res, s' # ss'))
      | (Err e, s') \<Rightarrow> (Err e, s' # ss)
      | (Panic, s') \<Rightarrow> (Panic, s' # ss))"

lemma length_iter_mut: "length (snd (iter_mut f i a ss)) = length ss"
proof (induction ss arbitrary: i a)
  case (Cons s ss)
  then show ?case
    by (auto split: prod.split outcome.split) (metis snd_conv)
qed simp

section \<open>Checked arithmetic\<close>

text \<open>
  Whether an overflow panics or wraps is fixed by the build profile (\<^verbatim>\<open>overflow-checks\<close>, on in
  the dev and test profiles and off in release). The profile is an argument \<open>oc\<close>; every theorem
  holds for both unless it names one.
\<close>

definition u32_sub :: "bool \<Rightarrow> u32 \<Rightarrow> u32 \<Rightarrow> u32 outcome" where
  "u32_sub oc a b = (if oc \<and> a < b then Panic else Ok (a - b))"

definition u32_add :: "bool \<Rightarrow> u32 \<Rightarrow> u32 \<Rightarrow> u32 outcome" where
  "u32_add oc a b = (if oc \<and> 2 ^ 32 \<le> unat a + unat b then Panic else Ok (a + b))"

text \<open>\<^verbatim>\<open>u32::div_ceil\<close> panics on a zero divisor in every profile.\<close>

definition u32_div_ceil :: "u32 \<Rightarrow> u32 \<Rightarrow> u32 outcome" where
  "u32_div_ceil a b =
     (if b = 0 then Panic
      else if a mod b = 0 then Ok (a div b) else Ok (a div b + 1))"

lemma u32_sub_Ok [outcome_simps]: "b \<le> a \<Longrightarrow> u32_sub oc a b = Ok (a - b)"
  by (simp add: u32_sub_def not_less)

lemma u32_add_Ok [outcome_simps]: "unat a + unat b < 2 ^ 32 \<Longrightarrow> u32_add oc a b = Ok (a + b)"
  by (simp add: u32_add_def)

lemma unat_u32_less: "unat (a :: u32) < 4294967296"
  using unsigned_less [where ?'a = nat, of a] by simp

lemma unat_of_nat_u32: "n < 2 ^ 32 \<Longrightarrow> unat (word_of_nat n :: u32) = n"
  by (simp add: unat_of_nat take_bit_nat_eq_self_iff)

lemma unat_u32_add: "unat a + unat b < 2 ^ 32 \<Longrightarrow> unat (a + b :: u32) = unat a + unat b"
  by (simp add: unat_word_ariths)

lemma u32_div_ceil_Ok:
  assumes "b \<noteq> 0"
  obtains q where "u32_div_ceil a b = Ok q" and "unat q = (unat a + unat b - 1) div unat b"
proof -
  have b: "0 < unat b" using assms by (simp add: unat_gt_0)
  have m: "a mod b = 0 \<longleftrightarrow> unat a mod unat b = 0"
    by (metis unat_0 unat_mod_distrib word_unat_eq_iff)
  have s: "(unat a + unat b - 1) div unat b =
      (if unat a mod unat b = 0 then unat a div unat b else unat a div unat b + 1)"
  proof -
    have "unat a + unat b - 1 = unat a div unat b * unat b + (unat a mod unat b + unat b - 1)"
      using b div_mult_mod_eq [of "unat a" "unat b"] by linarith
    then have "(unat a + unat b - 1) div unat b =
        unat a div unat b + (unat a mod unat b + unat b - 1) div unat b"
      using b by (metis add.commute div_mult_self1 less_numeral_extra(3))
    moreover have "(unat a mod unat b + unat b - 1) div unat b =
        (if unat a mod unat b = 0 then 0 else 1)"
      using b mod_less_divisor [OF b, of "unat a"]
      by (auto simp: div_nat_eqI)
    ultimately show ?thesis by simp
  qed
  show ?thesis
  proof (cases "a mod b = 0")
    case True
    then have "u32_div_ceil a b = Ok (a div b)"
      using assms by (simp add: u32_div_ceil_def)
    moreover have "unat (a div b) = (unat a + unat b - 1) div unat b"
      using True s m by (simp add: unat_div_distrib)
    ultimately show ?thesis by (rule that)
  next
    case False
    then have "u32_div_ceil a b = Ok (a div b + 1)"
      using assms by (simp add: u32_div_ceil_def)
    moreover have "unat a div unat b + 1 < 2 ^ 32"
    proof -
      have "unat b \<noteq> 1" using False m by auto
      then have "unat a div unat b \<le> unat a div 2"
        using b by (intro div_le_mono2) auto
      also have "\<dots> < 4294967295" using unat_u32_less [of a] by linarith
      finally show ?thesis by simp
    qed
    then have "unat (a div b + 1) = (unat a + unat b - 1) div unat b"
      using False s m unat_u32_add [of "a div b" 1] by (simp add: unat_div_distrib)
    ultimately show ?thesis by (rule that)
  qed
qed

section \<open>Slices\<close>

text \<open>
  Indexing and slicing panic out of range. \<open>copy_into off src buf\<close> is
  \<^verbatim>\<open>buf[off..off + src.len()].copy_from_slice(src)\<close>, and \<open>slice_range a b buf\<close> is
  \<^verbatim>\<open>&buf[a..b]\<close>.
\<close>

definition get_byte :: "nat \<Rightarrow> bytes \<Rightarrow> u8 outcome" where
  "get_byte i buf = (if i < length buf then Ok (buf ! i) else Panic)"

definition set_byte :: "nat \<Rightarrow> u8 \<Rightarrow> bytes \<Rightarrow> bytes outcome" where
  "set_byte i b buf = (if i < length buf then Ok (buf[i := b]) else Panic)"

definition slice_range :: "nat \<Rightarrow> nat \<Rightarrow> bytes \<Rightarrow> bytes outcome" where
  "slice_range a b buf =
     (if a \<le> b \<and> b \<le> length buf then Ok (take (b - a) (drop a buf)) else Panic)"

definition copy_into :: "nat \<Rightarrow> bytes \<Rightarrow> bytes \<Rightarrow> bytes outcome" where
  "copy_into off src buf =
     (if off + length src \<le> length buf
      then Ok (take off buf @ src @ drop (off + length src) buf) else Panic)"

lemma get_byte_Ok [outcome_simps]: "i < length buf \<Longrightarrow> get_byte i buf = Ok (buf ! i)"
  by (simp add: get_byte_def)

lemma slice_range_Ok [outcome_simps]:
  "a \<le> b \<Longrightarrow> b \<le> length buf \<Longrightarrow> slice_range a b buf = Ok (take (b - a) (drop a buf))"
  by (simp add: slice_range_def)

text \<open>Sequential writes at increasing offsets append to what has been written so far.\<close>

lemma copy_into_append:
  "length pre = off \<Longrightarrow> length src \<le> length rest \<Longrightarrow>
   copy_into off src (pre @ rest) = Ok ((pre @ src) @ drop (length src) rest)"
  by (simp add: copy_into_def)

lemma set_byte_append:
  "length pre = off \<Longrightarrow> rest \<noteq> [] \<Longrightarrow>
   set_byte off b (pre @ rest) = Ok ((pre @ [b]) @ drop 1 rest)"
  by (cases rest) (simp_all add: set_byte_def list_update_append)

section \<open>Little-endian integers\<close>

text \<open>\<^verbatim>\<open>to_le_bytes\<close> and \<^verbatim>\<open>from_le_bytes\<close> of the standard library.\<close>

definition u16_to_le :: "u16 \<Rightarrow> bytes" where
  "u16_to_le w = [ucast w, ucast (drop_bit 8 w)]"

definition u32_to_le :: "u32 \<Rightarrow> bytes" where
  "u32_to_le w = [ucast w, ucast (drop_bit 8 w), ucast (drop_bit 16 w), ucast (drop_bit 24 w)]"

definition u16_from_le :: "u8 \<Rightarrow> u8 \<Rightarrow> u16" where
  "u16_from_le a b = ucast a OR push_bit 8 (ucast b)"

definition u32_from_le :: "u8 \<Rightarrow> u8 \<Rightarrow> u8 \<Rightarrow> u8 \<Rightarrow> u32" where
  "u32_from_le a b c d =
     ucast a OR push_bit 8 (ucast b) OR push_bit 16 (ucast c) OR push_bit 24 (ucast d)"

lemma length_u16_to_le [simp]: "length (u16_to_le w) = 2"
  by (simp add: u16_to_le_def)

lemma length_u32_to_le [simp]: "length (u32_to_le w) = 4"
  by (simp add: u32_to_le_def)

lemma u16_le_inverse [simp]: "u16_from_le (ucast w) (ucast (drop_bit 8 w)) = w"
  unfolding u16_from_le_def by (rule bit_word_eqI) (auto simp: bit_simps)

lemma u32_le_inverse [simp]:
  "u32_from_le (ucast w) (ucast (drop_bit 8 w)) (ucast (drop_bit 16 w)) (ucast (drop_bit 24 w)) = w"
  (is "?l = w")
proof (rule bit_word_eqI)
  fix n :: nat
  assume n: "n < LENGTH(32)"
  consider "n < 8" | "8 \<le> n \<and> n < 16" | "16 \<le> n \<and> n < 24" | "24 \<le> n" by linarith
  then show "bit ?l n = bit w n"
    using n by cases (auto simp: u32_from_le_def bit_simps)
qed

lemma u8_bit_beyond: "8 \<le> n \<Longrightarrow> \<not> bit (a :: u8) n"
  by (auto dest: bit_imp_le_length)

lemma u32_from_le_inverse [simp]: "u32_to_le (u32_from_le a b c d) = [a, b, c, d]"
  unfolding u32_to_le_def u32_from_le_def
  by (auto intro!: bit_word_eqI simp: bit_simps u8_bit_beyond)

text \<open>Reading an integer field at an offset: four (or two) indexed reads.\<close>

definition u16_at :: "nat \<Rightarrow> bytes \<Rightarrow> u16 outcome" where
  "u16_at off buf =
     bind_o (get_byte off buf) (\<lambda>a. bind_o (get_byte (off + 1) buf) (\<lambda>b. Ok (u16_from_le a b)))"

definition u32_at :: "nat \<Rightarrow> bytes \<Rightarrow> u32 outcome" where
  "u32_at off buf =
     bind_o (get_byte off buf) (\<lambda>a. bind_o (get_byte (off + 1) buf) (\<lambda>b.
     bind_o (get_byte (off + 2) buf) (\<lambda>c. bind_o (get_byte (off + 3) buf) (\<lambda>d.
     Ok (u32_from_le a b c d)))))"

definition le16 :: "nat \<Rightarrow> bytes \<Rightarrow> u16" where
  "le16 off buf = u16_from_le (buf ! off) (buf ! (off + 1))"

definition le32 :: "nat \<Rightarrow> bytes \<Rightarrow> u32" where
  "le32 off buf =
     u32_from_le (buf ! off) (buf ! (off + 1)) (buf ! (off + 2)) (buf ! (off + 3))"

lemma u16_at_Ok [outcome_simps]: "off + 1 < length buf \<Longrightarrow> u16_at off buf = Ok (le16 off buf)"
  by (simp add: u16_at_def le16_def get_byte_def)

lemma u32_at_Ok [outcome_simps]: "off + 3 < length buf \<Longrightarrow> u32_at off buf = Ok (le32 off buf)"
  by (simp add: u32_at_def le32_def get_byte_def)

lemma le32_field: "length pre = off \<Longrightarrow> le32 off (pre @ u32_to_le w @ rest) = w"
  by (simp add: le32_def u32_to_le_def nth_append)

end
