(* ===== verification/Ekv_Format.thy ===== *)
theory Ekv_Format
  imports Ekv_Prelude
begin

text \<open>
  The constants of the on-disk format, \<^verbatim>\<open>rust/src/format.rs\<close>. They unfold under
  \<open>layout_simps\<close>.
\<close>

definition BLOCK_TYPE_STORAGE_HEADER :: u8 where
  [layout_simps]: "BLOCK_TYPE_STORAGE_HEADER = 0x01"

definition BLOCK_TYPE_RECORD_DESCRIPTOR :: u8 where
  [layout_simps]: "BLOCK_TYPE_RECORD_DESCRIPTOR = 0x02"

definition BLOCK_TYPE_VALUE_CHUNK :: u8 where
  [layout_simps]: "BLOCK_TYPE_VALUE_CHUNK = 0x03"

definition STORAGE_HEADER_SIZE :: u32 where
  [layout_simps]: "STORAGE_HEADER_SIZE = 28"

definition RECORD_DESCRIPTOR_HEADER_SIZE :: u32 where
  [layout_simps]: "RECORD_DESCRIPTOR_HEADER_SIZE = 32"

definition VALUE_CHUNK_HEADER_SIZE :: u32 where
  [layout_simps]: "VALUE_CHUNK_HEADER_SIZE = 20"

definition BLOCK_CRC_SIZE :: u32 where
  [layout_simps]: "BLOCK_CRC_SIZE = 4"

definition NULL_BLOCK_INDEX :: u32 where
  [layout_simps]: "NULL_BLOCK_INDEX = 0xFFFFFFFF"

definition VERSION_MAJOR :: u16 where
  [layout_simps]: "VERSION_MAJOR = 1"

definition VERSION_MINOR :: u16 where
  [layout_simps]: "VERSION_MINOR = 0"

text \<open>The bytes \<^verbatim>\<open>EKV\<close>.\<close>

definition MAGIC :: "u8 \<times> u8 \<times> u8" where
  [layout_simps]: "MAGIC = (0x45, 0x4B, 0x56)"

end
