(* ===== verification/Ekv_Crc.thy ===== *)
theory Ekv_Crc
  imports Ekv_Format
begin

text \<open>
  The block checksum, \<^verbatim>\<open>rust/src/crc.rs\<close>: the lookup table, the update loop, and the functions
  that compute, store and verify the CRC-32 in the last four bytes of a block. The table-driven
  loop is shown equal to the bit-serial register of the reflected IEEE polynomial, the register is
  shown to be injective, and from that every change confined to one byte is shown to be detected.
\<close>

section \<open>The code\<close>

text \<open>One round of the inner loop of \<^verbatim>\<open>crc_table\<close>.\<close>

definition crc_step :: "u32 \<Rightarrow> u32" where
  "crc_step crc =
     (if crc AND 1 \<noteq> 0 then drop_bit 1 crc XOR 0xEDB88320 else drop_bit 1 crc)"

definition crc_entry :: "u32 \<Rightarrow> u32" where
  "crc_entry i = (crc_step ^^ 8) i"

definition crc_table :: "u32 list" where
  "crc_table = map (\<lambda>i. crc_entry (word_of_nat i)) [0..<256]"

fun crc32_update :: "u32 \<Rightarrow> bytes \<Rightarrow> u32" where
  "crc32_update crc [] = crc"
| "crc32_update crc (b # data) =
     (let idx = unat ((crc XOR ucast b) AND 0xFF)
      in crc32_update (drop_bit 8 crc XOR crc_table ! idx) data)"

definition compute_block_crc32 :: "bytes \<Rightarrow> nat \<Rightarrow> u32 outcome" where
  "compute_block_crc32 buf crc_offset =
     bind_o (slice_range 0 crc_offset buf) (\<lambda>before.
     let crc = crc32_update 0xFFFFFFFF before;
         crc = crc32_update crc [0, 0, 0, 0]
     in bind_o (slice_range (crc_offset + 4) (length buf) buf) (\<lambda>after.
        Ok (crc32_update crc after XOR 0xFFFFFFFF)))"

text \<open>
  \<^verbatim>\<open>buf.len() - 4\<close> on \<^verbatim>\<open>usize\<close>: a shorter buffer panics with overflow checks and wraps without.
\<close>

definition block_crc_offset :: "bool \<Rightarrow> bytes \<Rightarrow> nat outcome" where
  "block_crc_offset oc buf =
     (if 4 \<le> length buf then Ok (length buf - 4)
      else if oc then Panic else Ok (2 ^ 64 + length buf - 4))"

definition write_block_crc :: "bool \<Rightarrow> bytes \<Rightarrow> bytes outcome" where
  "write_block_crc oc buf =
     bind_o (block_crc_offset oc buf) (\<lambda>off.
     bind_o (compute_block_crc32 buf off) (\<lambda>crc.
     copy_into off (u32_to_le crc) buf))"

definition verify_block_crc :: "bool \<Rightarrow> bytes \<Rightarrow> bool outcome" where
  "verify_block_crc oc buf =
     bind_o (block_crc_offset oc buf) (\<lambda>off.
     bind_o (u32_at off buf) (\<lambda>stored.
     bind_o (compute_block_crc32 buf off) (\<lambda>crc. Ok (crc = stored))))"

section \<open>The bit-serial register\<close>

text \<open>
  The reference: every byte is added into the low end of the register, which is then shifted eight
  times, adding the polynomial for each one shifted out. \<open>crc32\<close> is the standard checksum with
  its initial and final complement.
\<close>

fun crc_register :: "u32 \<Rightarrow> bytes \<Rightarrow> u32" where
  "crc_register crc [] = crc"
| "crc_register crc (b # data) = crc_register ((crc_step ^^ 8) (crc XOR ucast b)) data"

definition crc32 :: "bytes \<Rightarrow> u32" where
  "crc32 data = crc_register 0xFFFFFFFF data XOR 0xFFFFFFFF"

lemma crc_step_alt: "crc_step x = drop_bit 1 x XOR (if bit x 0 then 0xEDB88320 else 0)"
proof -
  have "x AND 1 \<noteq> 0 \<longleftrightarrow> bit x 0"
    by (simp add: and_one_eq bit_0 mod_2_eq_odd)
  then show ?thesis by (simp add: crc_step_def)
qed

lemma crc_step_xor: "crc_step (a XOR b) = crc_step a XOR crc_step b"
  by (rule bit_word_eqI) (auto simp: crc_step_alt bit_simps)

lemma crc_steps_xor: "(crc_step ^^ n) (a XOR b) = (crc_step ^^ n) a XOR (crc_step ^^ n) b"
  by (induction n) (simp_all add: crc_step_xor)

lemma crc_steps_shift: "(\<And>i. i < n \<Longrightarrow> \<not> bit x i) \<Longrightarrow> (crc_step ^^ n) x = drop_bit n x"
proof (induction n)
  case 0
  then show ?case by simp
next
  case (Suc n)
  then have "(crc_step ^^ Suc n) x = crc_step (drop_bit n x)" by simp
  also have "\<dots> = drop_bit (Suc n) x"
    using Suc.prems [of n] by (simp add: crc_step_alt bit_drop_bit_eq)
  finally show ?case .
qed

text \<open>Eight shifts of the register are one table lookup on its low byte.\<close>

lemma low_byte_mask: "(0xFF :: u32) = mask 8"
  by (simp add: mask_eq_exp_minus_1)

lemma crc_steps_8: "(crc_step ^^ 8) x = drop_bit 8 x XOR crc_entry (x AND 0xFF)"
proof -
  have split: "x = (x AND NOT 0xFF) XOR (x AND 0xFF)"
    by (rule bit_word_eqI) (auto simp: bit_simps)
  have "(crc_step ^^ 8) x = (crc_step ^^ 8) (x AND NOT 0xFF) XOR crc_entry (x AND 0xFF)"
    by (subst split, subst crc_steps_xor) (simp add: crc_entry_def)
  also have "(crc_step ^^ 8) (x AND NOT 0xFF) = drop_bit 8 (x AND NOT 0xFF)"
    unfolding low_byte_mask by (rule crc_steps_shift) (simp add: bit_simps)
  also have "drop_bit 8 (x AND NOT 0xFF) = drop_bit 8 x"
    unfolding low_byte_mask by (rule bit_word_eqI) (auto simp: bit_simps dest: bit_imp_le_length)
  finally show ?thesis .
qed

lemma crc_steps_8_eval:
  "(crc_step ^^ 8) x =
     crc_step (crc_step (crc_step (crc_step (crc_step (crc_step (crc_step (crc_step x)))))))"
  by (simp add: eval_nat_numeral)

lemma crc_table_lookup: "crc_table ! unat (x AND 0xFF) = crc_entry (x AND 0xFF)"
proof -
  have "x AND 0xFF \<le> 0xFF" by (rule word_and_le1)
  then have "unat (x AND 0xFF) < 256" by (simp add: word_le_nat_alt)
  then show ?thesis by (simp add: crc_table_def)
qed

lemma crc_byte: "drop_bit 8 crc XOR crc_table ! unat ((crc XOR ucast b) AND 0xFF) =
    (crc_step ^^ 8) (crc XOR ucast (b :: u8))"
proof -
  have "drop_bit 8 (crc XOR ucast b) = drop_bit 8 crc"
    by (rule bit_word_eqI) (auto simp: bit_simps u8_bit_beyond)
  then show ?thesis by (simp add: crc_steps_8 crc_table_lookup)
qed

lemma crc32_update_register: "crc32_update crc data = crc_register crc data"
  by (induction crc data rule: crc32_update.induct) (simp_all add: crc_byte Let_def)

lemma crc_register_append: "crc_register crc (a @ b) = crc_register (crc_register crc a) b"
  by (induction crc a rule: crc_register.induct) simp_all

section \<open>Evaluation on blocks\<close>

text \<open>
  \<open>crc_ok buf\<close>: the last four bytes hold the CRC of the whole block with those bytes taken as
  zero.
\<close>

definition block_crc :: "bytes \<Rightarrow> u32" where
  "block_crc buf = crc32 (take (length buf - 4) buf @ [0, 0, 0, 0])"

definition crc_ok :: "bytes \<Rightarrow> bool" where
  "crc_ok buf \<longleftrightarrow> 4 \<le> length buf \<and> le32 (length buf - 4) buf = block_crc buf"

definition seal :: "bytes \<Rightarrow> bytes" where
  "seal buf = take (length buf - 4) buf @ u32_to_le (block_crc buf)"

lemma compute_block_crc32_Ok:
  "4 \<le> length buf \<Longrightarrow> compute_block_crc32 buf (length buf - 4) = Ok (block_crc buf)"
  by (simp add: compute_block_crc32_def slice_range_def crc32_update_register block_crc_def
      crc32_def crc_register_append)

lemma verify_block_crc_Ok [outcome_simps]:
  "4 \<le> length buf \<Longrightarrow> verify_block_crc oc buf = Ok (crc_ok buf)"
  by (auto simp: verify_block_crc_def block_crc_offset_def compute_block_crc32_Ok u32_at_Ok
      crc_ok_def)

lemma write_block_crc_Ok [outcome_simps]:
  "4 \<le> length buf \<Longrightarrow> write_block_crc oc buf = Ok (seal buf)"
  by (simp add: write_block_crc_def block_crc_offset_def compute_block_crc32_Ok copy_into_def
      seal_def)

lemma short_block_panics:
  assumes "length buf < 4"
  shows "verify_block_crc oc buf = Panic" and "write_block_crc oc buf = Panic"
  using assms
  by (auto simp: verify_block_crc_def write_block_crc_def block_crc_offset_def u32_at_def
      get_byte_def compute_block_crc32_def slice_range_def)

lemma length_seal [simp]: "4 \<le> length buf \<Longrightarrow> length (seal buf) = length buf"
  by (simp add: seal_def)

lemma crc_ok_seal [simp]: "4 \<le> length buf \<Longrightarrow> crc_ok (seal buf)"
  using le32_field [of "take (length buf - 4) buf" "length buf - 4" "block_crc buf" "[]"]
  by (simp add: crc_ok_def block_crc_def) (simp add: seal_def block_crc_def)

lemma take_seal [simp]: "n + 4 \<le> length buf \<Longrightarrow> take n (seal buf) = take n buf"
  by (simp add: seal_def min_absorb1)

lemma nth_seal [simp]: "i + 4 < length buf \<Longrightarrow> seal buf ! i = buf ! i"
  by (simp add: seal_def nth_append less_diff_conv)

section \<open>Error detection\<close>

lemma crc_step_eq_0: "crc_step x = 0 \<Longrightarrow> x = 0"
proof -
  assume 0: "crc_step x = 0"
  have top: "bit (crc_step x) 31 = bit x 0"
    by (auto simp: crc_step_alt bit_simps dest: bit_imp_le_length)
  with 0 have "\<not> bit x 0" by simp
  with 0 have d: "drop_bit 1 x = 0" by (simp add: crc_step_alt)
  show "x = 0"
  proof (rule bit_word_eqI)
    fix n
    show "bit x n = bit 0 n"
    proof (cases n)
      case 0
      with \<open>\<not> bit x 0\<close> show ?thesis by simp
    next
      case (Suc m)
      have "bit (drop_bit 1 x) m = bit x n"
        by (simp add: bit_drop_bit_eq Suc)
      with d show ?thesis by simp
    qed
  qed
qed

lemma crc_step_inj: "crc_step a = crc_step b \<Longrightarrow> a = b"
proof -
  assume "crc_step a = crc_step b"
  then have "crc_step (a XOR b) = 0" by (simp add: crc_step_xor)
  then have "a XOR b = 0" by (rule crc_step_eq_0)
  then show "a = b" by (metis xor.assoc xor_self_eq xor.right_neutral xor.left_neutral)
qed

lemma crc_steps_inj: "(crc_step ^^ n) a = (crc_step ^^ n) b \<Longrightarrow> a = b"
  by (induction n) (auto dest: crc_step_inj)

lemma word_xor_cancel: "(a :: 'a :: len word) XOR c = b XOR c \<Longrightarrow> a = b"
  by (metis xor.assoc xor_self_eq xor.right_neutral)

lemma crc_register_inj: "crc_register a data = crc_register b data \<Longrightarrow> a = b"
  by (induction data arbitrary: a b) (fastforce dest: crc_steps_inj word_xor_cancel)+

lemma ucast_u8_inverse: "ucast (ucast x :: u32) = (x :: u8)"
  by (rule bit_word_eqI) (simp add: bit_simps)

lemma crc32_single_byte:
  assumes "crc32 (pre @ x # post) = crc32 (pre @ y # post)"
  shows "x = y"
proof -
  have "crc_register 0xFFFFFFFF (pre @ x # post) = crc_register 0xFFFFFFFF (pre @ y # post)"
    using assms word_xor_cancel unfolding crc32_def by blast
  then have "(ucast x :: u32) = ucast y"
    by (auto simp: crc_register_append xor.commute [of "crc_register _ _"]
        dest!: crc_register_inj crc_steps_inj word_xor_cancel)
  then have "(ucast (ucast x :: u32) :: u8) = ucast (ucast y :: u32)" by simp
  then show ?thesis by (simp only: ucast_u8_inverse)
qed

text \<open>Changing one byte of the stored CRC changes the stored value.\<close>

lemma u32_from_le_inj:
  assumes "u32_from_le a b c d = u32_from_le a' b' c' d'"
  shows "[a, b, c, d] = [a', b', c', d']"
  using arg_cong [OF assms, of u32_to_le] by simp

lemma le32_update_neq:
  assumes "off \<le> i" and "i < off + 4" and "off + 4 \<le> length buf" and "b \<noteq> buf ! i"
  shows "le32 off (buf[i := b]) \<noteq> le32 off buf"
proof -
  from assms(1,2) consider "i = off" | "i = off + 1" | "i = off + 2" | "i = off + 3" by linarith
  then show ?thesis
    using assms(3,4) by cases (auto simp: le32_def dest!: u32_from_le_inj)
qed

lemma block_crc_update_neq:
  assumes "i + 4 < length buf" and "b \<noteq> buf ! i"
  shows "block_crc (buf[i := b]) \<noteq> block_crc buf"
proof
  let ?d = "take (length buf - 4) buf"
  have i: "i < length ?d" using assms(1) by simp
  assume "block_crc (buf[i := b]) = block_crc buf"
  then have "crc32 (?d[i := b] @ [0, 0, 0, 0]) = crc32 (?d @ [0, 0, 0, 0])"
    by (simp add: block_crc_def take_update_swap)
  then have "crc32 (take i ?d @ b # (drop (Suc i) ?d @ [0, 0, 0, 0])) =
      crc32 (take i ?d @ ?d ! i # (drop (Suc i) ?d @ [0, 0, 0, 0]))"
    using arg_cong [OF id_take_nth_drop [OF i], of "\<lambda>d. crc32 (d @ [0, 0, 0, 0])"]
    by (simp only: upd_conv_take_nth_drop [OF i] append_assoc append_Cons)
  then have "b = ?d ! i" by (rule crc32_single_byte)
  with assms show False by simp
qed

section \<open>Properties\<close>


text \<open>
  Property C25: a block sealed by \<^verbatim>\<open>write_block_crc\<close> keeps its length and everything before its
  last four bytes, and \<^verbatim>\<open>verify_block_crc\<close> accepts it; a buffer too short to hold the CRC makes
  both functions panic in every build profile.
\<close>

theorem write_then_verify_block_crc:
  "if length buf < 4 then write_block_crc oc buf = Panic \<and> verify_block_crc oc buf = Panic
   else \<exists>buf'. write_block_crc oc buf = Ok buf' \<and> length buf' = length buf \<and>
     take (length buf - 4) buf' = take (length buf - 4) buf \<and> verify_block_crc oc buf' = Ok True"
  by (simp add: short_block_panics outcome_simps not_less)

text \<open>
  Property C26: \<^verbatim>\<open>verify_block_crc\<close> detects every corruption of a single byte, wherever it is in
  the block, the stored CRC included.
\<close>

theorem verify_detects_byte_corruption:
  assumes "verify_block_crc oc buf = Ok True" and "i < length buf" and "b \<noteq> buf ! i"
  shows "verify_block_crc oc (buf[i := b]) = Ok False"
proof -
  have len: "4 \<le> length buf"
    using assms(1) short_block_panics(1) [of buf oc] by (cases "length buf < 4") simp_all
  with assms(1) have ok: "le32 (length buf - 4) buf = block_crc buf"
    by (simp add: outcome_simps crc_ok_def)
  have "le32 (length buf - 4) (buf[i := b]) \<noteq> block_crc (buf[i := b])"
  proof (cases "i + 4 < length buf")
    case True
    then have "le32 (length buf - 4) (buf[i := b]) = le32 (length buf - 4) buf"
      by (simp add: le32_def)
    with block_crc_update_neq [OF True assms(3)] ok show ?thesis by simp
  next
    case False
    then have "block_crc (buf[i := b]) = block_crc buf"
      using len by (simp add: block_crc_def take_update_swap list_update_beyond)
    with le32_update_neq [of "length buf - 4" i buf b] False len assms(2,3) ok
    show ?thesis by simp
  qed
  with len show ?thesis by (simp add: outcome_simps crc_ok_def)
qed

theorem verify_detects_byte_corruption_witness:
  "verify_block_crc True (seal [1, 2, 3, 4, 5]) = Ok True \<and> (0 :: nat) < 5 \<and>
   verify_block_crc True ((seal [1, 2, 3, 4, 5])[0 := 7]) = Ok False"
proof -
  have ok: "verify_block_crc True (seal [1, 2, 3, 4, 5]) = Ok True"
    by (simp add: outcome_simps)
  have "verify_block_crc True ((seal [1, 2, 3, 4, 5])[0 := 7]) = Ok False"
    by (rule verify_detects_byte_corruption [OF ok]) simp_all
  with ok show ?thesis by simp
qed

text \<open>
  The check value of CRC-32/IEEE: the code's table and loop give \<open>0xCBF43926\<close> on the
  ASCII digits 1 to 9.
\<close>

theorem crc32_check_value:
  "crc32_update 0xFFFFFFFF [0x31, 0x32, 0x33, 0x34, 0x35, 0x36, 0x37, 0x38, 0x39] XOR 0xFFFFFFFF
   = 0xCBF43926"
  unfolding crc32_update_register
  by (simp add: crc_steps_8_eval crc_step_def)

end
