(* ===== verification/Ekv_Block.thy ===== *)
theory Ekv_Block
  imports Ekv_Crc
begin

text \<open>
  The block layouts, \<^verbatim>\<open>rust/src/block.rs\<close>: the three header structs with their serialisation,
  the classification of a block, and the payload capacities. Each \<^verbatim>\<open>marshal\<close> function is shown to
  write exactly the packed little-endian layout and to be inverted by its \<^verbatim>\<open>unmarshal\<close> function.
\<close>

section \<open>Storage header\<close>

record storage_header =
  sh_block_type :: u8
  sh_magic :: "u8 \<times> u8 \<times> u8"
  sh_version_major :: u16
  sh_version_minor :: u16
  sh_block_size :: u32
  sh_block_count :: u32
  sh_replica_id :: u32
  sh_format_seq :: u32
  sh_flags :: u32

definition marshal_storage_header :: "storage_header \<Rightarrow> bytes \<Rightarrow> bytes outcome" where
  "marshal_storage_header h buf =
     bind_o (set_byte 0 (sh_block_type h) buf) (\<lambda>buf.
     bind_o (set_byte 1 (fst (sh_magic h)) buf) (\<lambda>buf.
     bind_o (set_byte 2 (fst (snd (sh_magic h))) buf) (\<lambda>buf.
     bind_o (set_byte 3 (snd (snd (sh_magic h))) buf) (\<lambda>buf.
     bind_o (copy_into 4 (u16_to_le (sh_version_major h)) buf) (\<lambda>buf.
     bind_o (copy_into 6 (u16_to_le (sh_version_minor h)) buf) (\<lambda>buf.
     bind_o (copy_into 8 (u32_to_le (sh_block_size h)) buf) (\<lambda>buf.
     bind_o (copy_into 12 (u32_to_le (sh_block_count h)) buf) (\<lambda>buf.
     bind_o (copy_into 16 (u32_to_le (sh_replica_id h)) buf) (\<lambda>buf.
     bind_o (copy_into 20 (u32_to_le (sh_format_seq h)) buf) (\<lambda>buf.
     copy_into 24 (u32_to_le (sh_flags h)) buf))))))))))"

definition unmarshal_storage_header :: "bool \<Rightarrow> bytes \<Rightarrow> (storage_header \<times> bool) outcome" where
  "unmarshal_storage_header oc buf =
     bind_o (get_byte 0 buf) (\<lambda>block_type.
     bind_o (get_byte 1 buf) (\<lambda>m0.
     bind_o (get_byte 2 buf) (\<lambda>m1.
     bind_o (get_byte 3 buf) (\<lambda>m2.
     bind_o (u16_at 4 buf) (\<lambda>version_major.
     bind_o (u16_at 6 buf) (\<lambda>version_minor.
     bind_o (u32_at 8 buf) (\<lambda>block_size.
     bind_o (u32_at 12 buf) (\<lambda>block_count.
     bind_o (u32_at 16 buf) (\<lambda>replica_id.
     bind_o (u32_at 20 buf) (\<lambda>format_seq.
     bind_o (u32_at 24 buf) (\<lambda>flags.
     bind_o (verify_block_crc oc buf) (\<lambda>ok.
     Ok (\<lparr>sh_block_type = block_type, sh_magic = (m0, m1, m2),
          sh_version_major = version_major, sh_version_minor = version_minor,
          sh_block_size = block_size, sh_block_count = block_count,
          sh_replica_id = replica_id, sh_format_seq = format_seq, sh_flags = flags\<rparr>, ok)))))))))))))"

section \<open>Record descriptor header\<close>

record descriptor_header =
  rd_block_type :: u8
  rd_header_size :: u8
  rd_key_size :: u16
  rd_generation :: u32
  rd_total_size :: u32
  rd_first_payload_size :: u32
  rd_chunk_count :: u32
  rd_next_chunk :: u32
  rd_flags :: u32
  rd_user_flags :: u32

definition marshal_descriptor_header :: "descriptor_header \<Rightarrow> bytes \<Rightarrow> bytes outcome" where
  "marshal_descriptor_header h buf =
     bind_o (set_byte 0 (rd_block_type h) buf) (\<lambda>buf.
     bind_o (set_byte 1 (rd_header_size h) buf) (\<lambda>buf.
     bind_o (copy_into 2 (u16_to_le (rd_key_size h)) buf) (\<lambda>buf.
     bind_o (copy_into 4 (u32_to_le (rd_generation h)) buf) (\<lambda>buf.
     bind_o (copy_into 8 (u32_to_le (rd_total_size h)) buf) (\<lambda>buf.
     bind_o (copy_into 12 (u32_to_le (rd_first_payload_size h)) buf) (\<lambda>buf.
     bind_o (copy_into 16 (u32_to_le (rd_chunk_count h)) buf) (\<lambda>buf.
     bind_o (copy_into 20 (u32_to_le (rd_next_chunk h)) buf) (\<lambda>buf.
     bind_o (copy_into 24 (u32_to_le (rd_flags h)) buf) (\<lambda>buf.
     copy_into 28 (u32_to_le (rd_user_flags h)) buf)))))))))"

definition unmarshal_descriptor_header ::
    "bool \<Rightarrow> bytes \<Rightarrow> (descriptor_header \<times> bool) outcome" where
  "unmarshal_descriptor_header oc buf =
     bind_o (get_byte 0 buf) (\<lambda>block_type.
     bind_o (get_byte 1 buf) (\<lambda>header_size.
     bind_o (u16_at 2 buf) (\<lambda>key_size.
     bind_o (u32_at 4 buf) (\<lambda>generation.
     bind_o (u32_at 8 buf) (\<lambda>total_size.
     bind_o (u32_at 12 buf) (\<lambda>first_payload_size.
     bind_o (u32_at 16 buf) (\<lambda>chunk_count.
     bind_o (u32_at 20 buf) (\<lambda>next_chunk.
     bind_o (u32_at 24 buf) (\<lambda>flags.
     bind_o (u32_at 28 buf) (\<lambda>user_flags.
     bind_o (verify_block_crc oc buf) (\<lambda>ok.
     Ok (\<lparr>rd_block_type = block_type, rd_header_size = header_size, rd_key_size = key_size,
          rd_generation = generation, rd_total_size = total_size,
          rd_first_payload_size = first_payload_size, rd_chunk_count = chunk_count,
          rd_next_chunk = next_chunk, rd_flags = flags, rd_user_flags = user_flags\<rparr>, ok))))))))))))"

section \<open>Value chunk header\<close>

record chunk_header =
  vc_block_type :: u8
  vc_header_size :: u8
  vc_flags :: u16
  vc_owner_descriptor :: u32
  vc_chunk_index :: u32
  vc_payload_size :: u32
  vc_next_chunk :: u32

definition marshal_chunk_header :: "chunk_header \<Rightarrow> bytes \<Rightarrow> bytes outcome" where
  "marshal_chunk_header h buf =
     bind_o (set_byte 0 (vc_block_type h) buf) (\<lambda>buf.
     bind_o (set_byte 1 (vc_header_size h) buf) (\<lambda>buf.
     bind_o (copy_into 2 (u16_to_le (vc_flags h)) buf) (\<lambda>buf.
     bind_o (copy_into 4 (u32_to_le (vc_owner_descriptor h)) buf) (\<lambda>buf.
     bind_o (copy_into 8 (u32_to_le (vc_chunk_index h)) buf) (\<lambda>buf.
     bind_o (copy_into 12 (u32_to_le (vc_payload_size h)) buf) (\<lambda>buf.
     copy_into 16 (u32_to_le (vc_next_chunk h)) buf))))))"

definition unmarshal_chunk_header :: "bool \<Rightarrow> bytes \<Rightarrow> (chunk_header \<times> bool) outcome" where
  "unmarshal_chunk_header oc buf =
     bind_o (get_byte 0 buf) (\<lambda>block_type.
     bind_o (get_byte 1 buf) (\<lambda>header_size.
     bind_o (u16_at 2 buf) (\<lambda>flags.
     bind_o (u32_at 4 buf) (\<lambda>owner_descriptor.
     bind_o (u32_at 8 buf) (\<lambda>chunk_index.
     bind_o (u32_at 12 buf) (\<lambda>payload_size.
     bind_o (u32_at 16 buf) (\<lambda>next_chunk.
     bind_o (verify_block_crc oc buf) (\<lambda>ok.
     Ok (\<lparr>vc_block_type = block_type, vc_header_size = header_size, vc_flags = flags,
          vc_owner_descriptor = owner_descriptor, vc_chunk_index = chunk_index,
          vc_payload_size = payload_size, vc_next_chunk = next_chunk\<rparr>, ok)))))))))"

section \<open>Block classification, capacities\<close>

datatype block_class = Free | Valid | Garbage

text \<open>
  The match arms of \<^verbatim>\<open>classify_block\<close> return \<open>Valid\<close> or fall through to the final test of the
  first byte; \<open>classify_rest\<close> is that final test.
\<close>

definition classify_rest :: "bytes \<Rightarrow> block_class outcome" where
  "classify_rest buf =
     bind_o (get_byte 0 buf) (\<lambda>b. Ok (if b = 0x00 \<or> b = 0xFF then Free else Garbage))"

definition classify_block :: "bool \<Rightarrow> bytes \<Rightarrow> block_class outcome" where
  "classify_block oc buf =
     (if buf = [] then Ok Free
      else let len = (word_of_nat (length buf) :: u32) in
        bind_o (get_byte 0 buf) (\<lambda>t.
        if t = BLOCK_TYPE_STORAGE_HEADER \<and> STORAGE_HEADER_SIZE + BLOCK_CRC_SIZE \<le> len then
          bind_o (unmarshal_storage_header oc buf) (\<lambda>(h, ok). if ok then Ok Valid else classify_rest buf)
        else if t = BLOCK_TYPE_RECORD_DESCRIPTOR
            \<and> RECORD_DESCRIPTOR_HEADER_SIZE + BLOCK_CRC_SIZE \<le> len then
          bind_o (unmarshal_descriptor_header oc buf) (\<lambda>(h, ok). if ok then Ok Valid else classify_rest buf)
        else if t = BLOCK_TYPE_VALUE_CHUNK \<and> VALUE_CHUNK_HEADER_SIZE + BLOCK_CRC_SIZE \<le> len then
          bind_o (unmarshal_chunk_header oc buf) (\<lambda>(h, ok). if ok then Ok Valid else classify_rest buf)
        else classify_rest buf))"

definition is_free_candidate :: "bool \<Rightarrow> bytes \<Rightarrow> bool outcome" where
  "is_free_candidate oc buf = bind_o (classify_block oc buf) (\<lambda>c. Ok (c = Free))"

definition first_payload_capacity :: "bool \<Rightarrow> u32 \<Rightarrow> u32 \<Rightarrow> u32 outcome" where
  "first_payload_capacity oc block_size key_size =
     bind_o (u32_sub oc block_size RECORD_DESCRIPTOR_HEADER_SIZE) (\<lambda>a.
     bind_o (u32_sub oc a key_size) (\<lambda>b. u32_sub oc b BLOCK_CRC_SIZE))"

definition chunk_payload_capacity :: "bool \<Rightarrow> u32 \<Rightarrow> u32 outcome" where
  "chunk_payload_capacity oc block_size =
     bind_o (u32_sub oc block_size VALUE_CHUNK_HEADER_SIZE) (\<lambda>a. u32_sub oc a BLOCK_CRC_SIZE)"

definition make_free_buf :: "u32 \<Rightarrow> u8 \<Rightarrow> bytes" where
  "make_free_buf block_size pattern = replicate (unat block_size) pattern"

section \<open>The packed layouts\<close>

text \<open>What the three \<^verbatim>\<open>marshal\<close> functions write, as one byte string each.\<close>

definition storage_header_bytes :: "storage_header \<Rightarrow> bytes" where
  "storage_header_bytes h =
     [sh_block_type h, fst (sh_magic h), fst (snd (sh_magic h)), snd (snd (sh_magic h))] @
     u16_to_le (sh_version_major h) @ u16_to_le (sh_version_minor h) @
     u32_to_le (sh_block_size h) @ u32_to_le (sh_block_count h) @ u32_to_le (sh_replica_id h) @
     u32_to_le (sh_format_seq h) @ u32_to_le (sh_flags h)"

definition descriptor_header_bytes :: "descriptor_header \<Rightarrow> bytes" where
  "descriptor_header_bytes h =
     [rd_block_type h, rd_header_size h] @ u16_to_le (rd_key_size h) @
     u32_to_le (rd_generation h) @ u32_to_le (rd_total_size h) @
     u32_to_le (rd_first_payload_size h) @ u32_to_le (rd_chunk_count h) @
     u32_to_le (rd_next_chunk h) @ u32_to_le (rd_flags h) @ u32_to_le (rd_user_flags h)"

definition chunk_header_bytes :: "chunk_header \<Rightarrow> bytes" where
  "chunk_header_bytes h =
     [vc_block_type h, vc_header_size h] @ u16_to_le (vc_flags h) @
     u32_to_le (vc_owner_descriptor h) @ u32_to_le (vc_chunk_index h) @
     u32_to_le (vc_payload_size h) @ u32_to_le (vc_next_chunk h)"

lemma length_header_bytes [simp]:
  "length (storage_header_bytes h) = 28"
  "length (descriptor_header_bytes r) = 32"
  "length (chunk_header_bytes c) = 20"
  by (simp_all add: storage_header_bytes_def descriptor_header_bytes_def chunk_header_bytes_def)

text \<open>Writing at the first offset, then at each next one, as \<^verbatim>\<open>marshal\<close> does.\<close>

lemma set_byte_start: "buf \<noteq> [] \<Longrightarrow> set_byte 0 b buf = Ok (([] @ [b]) @ drop 1 buf)"
  using set_byte_append [of "[]" 0 buf b] by simp

lemma marshal_storage_header_Ok [outcome_simps]:
  assumes "28 \<le> length buf"
  shows "marshal_storage_header h buf = Ok (storage_header_bytes h @ drop 28 buf)"
proof -
  have "buf \<noteq> []" using assms by auto
  then show ?thesis
    using assms unfolding marshal_storage_header_def
    by (simp add: set_byte_start set_byte_append copy_into_append del: append_assoc append_Nil)
      (simp add: storage_header_bytes_def)
qed

lemma marshal_descriptor_header_Ok [outcome_simps]:
  assumes "32 \<le> length buf"
  shows "marshal_descriptor_header h buf = Ok (descriptor_header_bytes h @ drop 32 buf)"
proof -
  have "buf \<noteq> []" using assms by auto
  then show ?thesis
    using assms unfolding marshal_descriptor_header_def
    by (simp add: set_byte_start set_byte_append copy_into_append del: append_assoc append_Nil)
      (simp add: descriptor_header_bytes_def)
qed

lemma marshal_chunk_header_Ok [outcome_simps]:
  assumes "20 \<le> length buf"
  shows "marshal_chunk_header h buf = Ok (chunk_header_bytes h @ drop 20 buf)"
proof -
  have "buf \<noteq> []" using assms by auto
  then show ?thesis
    using assms unfolding marshal_chunk_header_def
    by (simp add: set_byte_start set_byte_append copy_into_append del: append_assoc append_Nil)
      (simp add: chunk_header_bytes_def)
qed

text \<open>What the three \<^verbatim>\<open>unmarshal\<close> functions read.\<close>

definition read_storage_header :: "bytes \<Rightarrow> storage_header" where
  "read_storage_header buf =
     \<lparr>sh_block_type = buf ! 0, sh_magic = (buf ! 1, buf ! 2, buf ! 3),
      sh_version_major = le16 4 buf, sh_version_minor = le16 6 buf, sh_block_size = le32 8 buf,
      sh_block_count = le32 12 buf, sh_replica_id = le32 16 buf, sh_format_seq = le32 20 buf,
      sh_flags = le32 24 buf\<rparr>"

definition read_descriptor_header :: "bytes \<Rightarrow> descriptor_header" where
  "read_descriptor_header buf =
     \<lparr>rd_block_type = buf ! 0, rd_header_size = buf ! 1, rd_key_size = le16 2 buf,
      rd_generation = le32 4 buf, rd_total_size = le32 8 buf,
      rd_first_payload_size = le32 12 buf, rd_chunk_count = le32 16 buf,
      rd_next_chunk = le32 20 buf, rd_flags = le32 24 buf, rd_user_flags = le32 28 buf\<rparr>"

definition read_chunk_header :: "bytes \<Rightarrow> chunk_header" where
  "read_chunk_header buf =
     \<lparr>vc_block_type = buf ! 0, vc_header_size = buf ! 1, vc_flags = le16 2 buf,
      vc_owner_descriptor = le32 4 buf, vc_chunk_index = le32 8 buf,
      vc_payload_size = le32 12 buf, vc_next_chunk = le32 16 buf\<rparr>"

lemma unmarshal_storage_header_Ok [outcome_simps]:
  "28 \<le> length buf \<Longrightarrow>
   unmarshal_storage_header oc buf = Ok (read_storage_header buf, crc_ok buf)"
  by (cases "buf = []") (simp_all add: unmarshal_storage_header_def read_storage_header_def
      get_byte_Ok u16_at_Ok u32_at_Ok verify_block_crc_Ok)

lemma unmarshal_descriptor_header_Ok [outcome_simps]:
  "32 \<le> length buf \<Longrightarrow>
   unmarshal_descriptor_header oc buf = Ok (read_descriptor_header buf, crc_ok buf)"
  by (cases "buf = []") (simp_all add: unmarshal_descriptor_header_def read_descriptor_header_def
      get_byte_Ok u16_at_Ok u32_at_Ok verify_block_crc_Ok)

lemma unmarshal_chunk_header_Ok [outcome_simps]:
  "20 \<le> length buf \<Longrightarrow>
   unmarshal_chunk_header oc buf = Ok (read_chunk_header buf, crc_ok buf)"
  by (cases "buf = []") (simp_all add: unmarshal_chunk_header_def read_chunk_header_def
      get_byte_Ok u16_at_Ok u32_at_Ok verify_block_crc_Ok)

lemma read_storage_header_bytes [simp]:
  "read_storage_header (storage_header_bytes h @ rest) = h"
  by (cases h) (simp add: read_storage_header_def storage_header_bytes_def le16_def le32_def
      u16_to_le_def u32_to_le_def)

lemma read_descriptor_header_bytes [simp]:
  "read_descriptor_header (descriptor_header_bytes h @ rest) = h"
  by (cases h) (simp add: read_descriptor_header_def descriptor_header_bytes_def le16_def le32_def
      u16_to_le_def u32_to_le_def)

lemma read_chunk_header_bytes [simp]:
  "read_chunk_header (chunk_header_bytes h @ rest) = h"
  by (cases h) (simp add: read_chunk_header_def chunk_header_bytes_def le16_def le32_def
      u16_to_le_def u32_to_le_def)

text \<open>Sealing a block does not change a header in front of the CRC.\<close>

lemma le16_seal: "off + 6 \<le> length buf \<Longrightarrow> le16 off (seal buf) = le16 off buf"
  by (simp add: le16_def)

lemma le32_seal: "off + 8 \<le> length buf \<Longrightarrow> le32 off (seal buf) = le32 off buf"
  by (simp add: le32_def)

lemma read_header_seal:
  "32 \<le> length buf \<Longrightarrow> read_storage_header (seal buf) = read_storage_header buf"
  "36 \<le> length buf \<Longrightarrow> read_descriptor_header (seal buf) = read_descriptor_header buf"
  "24 \<le> length buf \<Longrightarrow> read_chunk_header (seal buf) = read_chunk_header buf"
  by (simp_all add: read_storage_header_def read_descriptor_header_def read_chunk_header_def
      le16_seal le32_seal)

section \<open>Classification and capacities, evaluated\<close>

lemma classify_block_Ok:
  "classify_block oc buf = Ok
     (if buf = [] then Free
      else if crc_ok buf \<and>
        (buf ! 0 = 1 \<and> 32 \<le> (word_of_nat (length buf) :: u32) \<or>
         buf ! 0 = 2 \<and> 36 \<le> (word_of_nat (length buf) :: u32) \<or>
         buf ! 0 = 3 \<and> 24 \<le> (word_of_nat (length buf) :: u32)) then Valid
      else if buf ! 0 = 0 \<or> buf ! 0 = 0xFF then Free else Garbage)"
proof -
  have long: "unat k \<le> length buf" if "k \<le> (word_of_nat (length buf) :: u32)" for k
  proof -
    have "unat k \<le> length buf mod 2 ^ 32"
      using that by (simp add: word_le_nat_alt unat_of_nat take_bit_eq_mod)
    then show ?thesis by (meson le_trans mod_less_eq_dividend)
  qed
  show ?thesis
    using long [of 32] long [of 36] long [of 24]
    by (cases "buf = []")
      (auto simp: classify_block_def classify_rest_def Let_def layout_simps get_byte_Ok
        unmarshal_storage_header_Ok unmarshal_descriptor_header_Ok unmarshal_chunk_header_Ok)
qed

text \<open>Block types 2 and 3 with a valid CRC: the blocks that can belong to a record.\<close>

definition live_block :: "bytes \<Rightarrow> bool" where
  "live_block buf \<longleftrightarrow> crc_ok buf \<and> (buf ! 0 = 2 \<or> buf ! 0 = 3)"

definition free_block :: "bytes \<Rightarrow> bool" where
  "free_block buf \<longleftrightarrow> buf ! 0 = 0 \<or> buf ! 0 = 0xFF"

lemma free_not_live: "free_block buf \<Longrightarrow> \<not> live_block buf"
  by (auto simp: free_block_def live_block_def)

lemma is_free_candidate_Ok [outcome_simps]:
  assumes "buf \<noteq> []"
  shows "is_free_candidate oc buf = Ok (free_block buf)"
  using assms by (auto simp: is_free_candidate_def classify_block_Ok free_block_def)

lemma first_payload_capacity_Ok:
  assumes "36 + unat key_size \<le> unat block_size"
  obtains c where "first_payload_capacity oc block_size key_size = Ok c"
    and "unat c = unat block_size - 36 - unat key_size"
proof -
  have 1: "32 \<le> block_size" and 2: "key_size \<le> block_size - 32"
    and 3: "4 \<le> block_size - 32 - key_size"
    using assms by (simp_all add: word_le_nat_alt unat_sub)
  then have "first_payload_capacity oc block_size key_size = Ok (block_size - 32 - key_size - 4)"
    by (simp add: first_payload_capacity_def layout_simps u32_sub_Ok)
  moreover have "unat (block_size - 32 - key_size - 4) = unat block_size - 36 - unat key_size"
    by (simp only: unat_sub [OF 3] unat_sub [OF 2] unat_sub [OF 1]) simp
  ultimately show ?thesis by (rule that)
qed

lemma chunk_payload_capacity_Ok:
  assumes "24 \<le> unat block_size"
  obtains c where "chunk_payload_capacity oc block_size = Ok c"
    and "unat c = unat block_size - 24"
proof -
  have 1: "20 \<le> block_size" and 2: "4 \<le> block_size - 20"
    using assms by (simp_all add: word_le_nat_alt unat_sub)
  then have "chunk_payload_capacity oc block_size = Ok (block_size - 20 - 4)"
    by (simp add: chunk_payload_capacity_def layout_simps u32_sub_Ok)
  moreover have "unat (block_size - 20 - 4) = unat block_size - 24"
    by (simp only: unat_sub [OF 2] unat_sub [OF 1]) simp
  ultimately show ?thesis by (rule that)
qed

section \<open>Properties\<close>

text \<open>
  A storage header marshalled into a block of at least 32 bytes and sealed is read
  back unchanged, with a valid CRC, whatever the block held before.
\<close>

theorem storage_header_roundtrip:
  assumes "32 \<le> length buf"
  shows "bind_o (bind_o (marshal_storage_header h buf) (write_block_crc oc))
    (unmarshal_storage_header oc) = Ok (h, True)"
  using assms by (simp add: outcome_simps read_header_seal)

theorem storage_header_roundtrip_witness:
  "(32 :: nat) \<le> length (replicate 32 (0 :: u8)) \<and>
   bind_o (bind_o (marshal_storage_header
      \<lparr>sh_block_type = 1, sh_magic = MAGIC, sh_version_major = 1, sh_version_minor = 0,
       sh_block_size = 32, sh_block_count = 8, sh_replica_id = 7, sh_format_seq = 0x12345678,
       sh_flags = 0\<rparr> (replicate 32 0)) (write_block_crc True)) (unmarshal_storage_header True)
   = Ok (\<lparr>sh_block_type = 1, sh_magic = MAGIC, sh_version_major = 1, sh_version_minor = 0,
       sh_block_size = 32, sh_block_count = 8, sh_replica_id = 7, sh_format_seq = 0x12345678,
       sh_flags = 0\<rparr>, True)"
  by (intro conjI storage_header_roundtrip) simp_all

text \<open>
  Property C27: a record descriptor header marshalled into a block of at least 36 bytes, with any
  content behind it, and sealed is read back unchanged with a valid CRC.
\<close>

theorem descriptor_header_roundtrip:
  assumes "36 \<le> length buf"
  shows "bind_o (bind_o (marshal_descriptor_header h buf) (write_block_crc oc))
    (unmarshal_descriptor_header oc) = Ok (h, True)"
  using assms by (simp add: outcome_simps read_header_seal)

theorem descriptor_header_roundtrip_witness:
  "(36 :: nat) \<le> length (replicate 40 (0xFF :: u8)) \<and>
   bind_o (bind_o (marshal_descriptor_header
      \<lparr>rd_block_type = 2, rd_header_size = 32, rd_key_size = 3, rd_generation = 9,
       rd_total_size = 1, rd_first_payload_size = 1, rd_chunk_count = 1,
       rd_next_chunk = NULL_BLOCK_INDEX, rd_flags = 0, rd_user_flags = 0xDEADBEEF\<rparr>
      (replicate 40 0xFF)) (write_block_crc False)) (unmarshal_descriptor_header False)
   = Ok (\<lparr>rd_block_type = 2, rd_header_size = 32, rd_key_size = 3, rd_generation = 9,
       rd_total_size = 1, rd_first_payload_size = 1, rd_chunk_count = 1,
       rd_next_chunk = NULL_BLOCK_INDEX, rd_flags = 0, rd_user_flags = 0xDEADBEEF\<rparr>, True)"
  by (intro conjI descriptor_header_roundtrip) simp_all

text \<open>
  A value chunk header marshalled into a block of at least 24 bytes and sealed is read
  back unchanged with a valid CRC.
\<close>

theorem chunk_header_roundtrip:
  assumes "24 \<le> length buf"
  shows "bind_o (bind_o (marshal_chunk_header h buf) (write_block_crc oc))
    (unmarshal_chunk_header oc) = Ok (h, True)"
  using assms by (simp add: outcome_simps read_header_seal)

theorem chunk_header_roundtrip_witness:
  "(24 :: nat) \<le> length (replicate 24 (0 :: u8)) \<and>
   bind_o (bind_o (marshal_chunk_header
      \<lparr>vc_block_type = 3, vc_header_size = 20, vc_flags = 0, vc_owner_descriptor = 5,
       vc_chunk_index = 2, vc_payload_size = 0, vc_next_chunk = 6\<rparr> (replicate 24 0))
      (write_block_crc True)) (unmarshal_chunk_header True)
   = Ok (\<lparr>vc_block_type = 3, vc_header_size = 20, vc_flags = 0, vc_owner_descriptor = 5,
       vc_chunk_index = 2, vc_payload_size = 0, vc_next_chunk = 6\<rparr>, True)"
  by (intro conjI chunk_header_roundtrip) simp_all

text \<open>
  \<^verbatim>\<open>classify_block\<close> returns on every byte string without a panic, calls it free
  exactly when it is empty or starts with \<open>0x00\<close> or \<open>0xFF\<close>, and calls it valid only when it
  starts with one of the three block types and its CRC matches.
\<close>

theorem classify_block_total:
  "\<exists>c. classify_block oc buf = Ok c \<and>
     (c = Free \<longleftrightarrow> buf = [] \<or> hd buf \<in> {0x00, 0xFF}) \<and>
     (c = Valid \<longleftrightarrow> buf \<noteq> [] \<and> verify_block_crc oc buf = Ok True \<and>
        (hd buf = BLOCK_TYPE_STORAGE_HEADER \<and> 32 \<le> (word_of_nat (length buf) :: u32) \<or>
         hd buf = BLOCK_TYPE_RECORD_DESCRIPTOR \<and> 36 \<le> (word_of_nat (length buf) :: u32) \<or>
         hd buf = BLOCK_TYPE_VALUE_CHUNK \<and> 24 \<le> (word_of_nat (length buf) :: u32)))"
proof (cases "buf = []")
  case False
  have crc: "verify_block_crc oc buf = Ok True \<longleftrightarrow> crc_ok buf"
    by (cases "4 \<le> length buf") (auto simp: verify_block_crc_Ok short_block_panics crc_ok_def)
  from False show ?thesis
    unfolding crc by (auto simp: classify_block_Ok layout_simps hd_conv_nth)
qed (simp add: classify_block_Ok)

end
