(* ===== verification/Ekv_Device.thy ===== *)
theory Ekv_Device
  imports Ekv_Prelude
begin

text \<open>
  Block devices, \<^verbatim>\<open>rust/src/device.rs\<close>. The trait \<^verbatim>\<open>BlockDevice\<close> is a record of its methods, so
  that code generic in \<^verbatim>\<open>D: BlockDevice\<close> takes the record as an argument. \<^verbatim>\<open>MemDevice\<close> and
  \<^verbatim>\<open>FileDevice\<close> are the two implementations of the crate. The locale \<open>device_contract\<close> is the
  contract the store relies on; both implementations are shown to satisfy it.
\<close>

section \<open>The trait\<close>

record 'd block_device =
  d_block_size :: "'d \<Rightarrow> u32"
  d_block_count :: "'d \<Rightarrow> u32"
  d_read_block :: "u32 \<Rightarrow> bytes \<Rightarrow> 'd \<Rightarrow> bytes outcome \<times> 'd"
  d_write_block :: "u32 \<Rightarrow> bytes \<Rightarrow> 'd \<Rightarrow> unit outcome \<times> 'd"
  d_flush :: "'d \<Rightarrow> unit outcome \<times> 'd"
  d_close :: "'d \<Rightarrow> unit outcome"

section \<open>MemDevice\<close>

record mem_device =
  mem_block_size :: u32
  mem_block_count :: u32
  mem_data :: bytes

definition mem_new :: "u32 \<Rightarrow> u32 \<Rightarrow> mem_device" where
  "mem_new block_size block_count =
     \<lparr>mem_block_size = block_size, mem_block_count = block_count,
      mem_data = replicate (unat block_size * unat block_count) 0\<rparr>"

text \<open>
  \<^verbatim>\<open>usize::is_multiple_of(0)\<close> holds of 0 only; the division by a zero block size that follows
  panics.
\<close>

definition mem_from_bytes :: "u32 \<Rightarrow> bytes \<Rightarrow> mem_device outcome" where
  "mem_from_bytes block_size data =
     (if \<not> unat block_size dvd length data then Err SizeMismatch
      else if block_size = 0 then Panic
      else Ok \<lparr>mem_block_size = block_size,
               mem_block_count = word_of_nat (length data div unat block_size),
               mem_data = data\<rparr>)"

definition mem_bytes :: "mem_device \<Rightarrow> bytes" where
  "mem_bytes d = mem_data d"

definition mem_read_block :: "u32 \<Rightarrow> bytes \<Rightarrow> mem_device \<Rightarrow> bytes outcome \<times> mem_device" where
  "mem_read_block index buf d =
     (if mem_block_count d \<le> index then (Err InvalidBlock, d)
      else let off = unat index * unat (mem_block_size d) in
        (bind_o (slice_range off (off + unat (mem_block_size d)) (mem_data d)) (\<lambda>src.
         copy_into 0 src buf), d))"

definition mem_write_block :: "u32 \<Rightarrow> bytes \<Rightarrow> mem_device \<Rightarrow> unit outcome \<times> mem_device" where
  "mem_write_block index buf d =
     (if mem_block_count d \<le> index then (Err InvalidBlock, d)
      else let off = unat index * unat (mem_block_size d) in
        case bind_o (slice_range 0 (unat (mem_block_size d)) buf) (\<lambda>src.
             copy_into off src (mem_data d)) of
          Ok data \<Rightarrow> (Ok (), d\<lparr>mem_data := data\<rparr>)
        | Err e \<Rightarrow> (Err e, d)
        | Panic \<Rightarrow> (Panic, d))"

definition mem_flush :: "mem_device \<Rightarrow> unit outcome \<times> mem_device" where
  "mem_flush d = (Ok (), d)"

definition mem_close :: "mem_device \<Rightarrow> unit outcome" where
  "mem_close d = Ok ()"

definition mem_dev :: "mem_device block_device" where
  "mem_dev = \<lparr>d_block_size = mem_block_size, d_block_count = mem_block_count,
     d_read_block = mem_read_block, d_write_block = mem_write_block,
     d_flush = mem_flush, d_close = mem_close\<rparr>"

section \<open>Files\<close>

text \<open>
  The part of \<^verbatim>\<open>std::fs::File\<close> the crate uses: the content, the cursor, and the faults the
  operating system will raise. Every call takes the next entry of the schedule: \<open>Fine\<close> or a
  failure with an error code; a failing \<^verbatim>\<open>write_all\<close> may have transferred any number of bytes.
  An empty schedule means no more faults.
\<close>

datatype fault_event = Fine | Fails nat nat

record os_file =
  file_content :: bytes
  file_pos :: nat
  file_faults :: "fault_event list"

definition next_event :: "os_file \<Rightarrow> fault_event \<times> os_file" where
  "next_event f = (case file_faults f of [] \<Rightarrow> (Fine, f) | x # xs \<Rightarrow> (x, f\<lparr>file_faults := xs\<rparr>))"

definition file_seek :: "nat \<Rightarrow> os_file \<Rightarrow> unit outcome \<times> os_file" where
  "file_seek off f = (case next_event f of
      (Fine, f) \<Rightarrow> (Ok (), f\<lparr>file_pos := off\<rparr>)
    | (Fails code n, f) \<Rightarrow> (Err (error_from_io (Os code)), f))"

definition file_read_exact :: "nat \<Rightarrow> os_file \<Rightarrow> bytes outcome \<times> os_file" where
  "file_read_exact n f = (case next_event f of
      (Fine, f) \<Rightarrow>
        if file_pos f + n \<le> length (file_content f)
        then (Ok (take n (drop (file_pos f) (file_content f))), f\<lparr>file_pos := file_pos f + n\<rparr>)
        else (Err (error_from_io UnexpectedEof), f\<lparr>file_pos := length (file_content f)\<rparr>)
    | (Fails code n, f) \<Rightarrow> (Err (error_from_io (Os code)), f))"

text \<open>Writing past the end of a file fills the gap with zeros.\<close>

definition overlay :: "nat \<Rightarrow> bytes \<Rightarrow> bytes \<Rightarrow> bytes" where
  "overlay off src content =
     (if src = [] then content
      else take off (content @ replicate (off - length content) 0) @ src @
        drop (off + length src) content)"

definition file_write_all :: "bytes \<Rightarrow> os_file \<Rightarrow> unit outcome \<times> os_file" where
  "file_write_all src f = (case next_event f of
      (Fine, f) \<Rightarrow>
        (Ok (), f\<lparr>file_content := overlay (file_pos f) src (file_content f),
                   file_pos := file_pos f + length src\<rparr>)
    | (Fails code n, f) \<Rightarrow>
        (Err (error_from_io (Os code)),
         f\<lparr>file_content := overlay (file_pos f) (take n src) (file_content f)\<rparr>))"

definition file_sync_all :: "os_file \<Rightarrow> unit outcome \<times> os_file" where
  "file_sync_all f = (case next_event f of
      (Fine, f) \<Rightarrow> (Ok (), f)
    | (Fails code n, f) \<Rightarrow> (Err (error_from_io (Os code)), f))"

section \<open>FileDevice\<close>

record file_device =
  fd_file :: os_file
  fd_block_size :: u32
  fd_block_count :: u32

definition on_file :: "(os_file \<Rightarrow> 'a outcome \<times> os_file) \<Rightarrow> file_device \<Rightarrow> 'a outcome \<times> file_device" where
  "on_file m d = (case m (fd_file d) of (r, f) \<Rightarrow> (r, d\<lparr>fd_file := f\<rparr>))"

text \<open>
  \<^verbatim>\<open>FileDevice::open\<close> on a file system that maps paths to contents; \<open>events\<close> is the schedule of
  faults, of which \<^verbatim>\<open>open\<close> and \<^verbatim>\<open>metadata\<close> take the first two. A missing file is the error code 2
  (\<^verbatim>\<open>ENOENT\<close>).
\<close>

definition file_device_open ::
    "(string \<rightharpoonup> bytes) \<Rightarrow> fault_event list \<Rightarrow> string \<Rightarrow> u32 \<Rightarrow> file_device outcome" where
  "file_device_open fs events path block_size = (case fs path of
      None \<Rightarrow> Err (error_from_io (Os 2))
    | Some content \<Rightarrow>
        (case next_event \<lparr>file_content = content, file_pos = 0, file_faults = events\<rparr> of
           (Fails code n, f) \<Rightarrow> Err (error_from_io (Os code))
         | (Fine, f) \<Rightarrow>
        (case next_event f of
           (Fails code n, f) \<Rightarrow> Err (error_from_io (Os code))
         | (Fine, f) \<Rightarrow>
        let len = length (file_content f) in
        if block_size = 0 then Panic
        else if len mod unat block_size \<noteq> 0 then Err SizeMismatch
        else Ok \<lparr>fd_file = f, fd_block_size = block_size,
                 fd_block_count = word_of_nat (len div unat block_size)\<rparr>)))"

text \<open>
  \<^verbatim>\<open>FileDevice::create\<close> truncates the file and extends it with zeros; opening the file and setting its
  length may fail.
\<close>

definition file_device_create :: "fault_event list \<Rightarrow> u32 \<Rightarrow> u32 \<Rightarrow> file_device outcome" where
  "file_device_create events block_size block_count =
     (case next_event \<lparr>file_content = [], file_pos = 0, file_faults = events\<rparr> of
        (Fails code n, f) \<Rightarrow> Err (error_from_io (Os code))
      | (Fine, f) \<Rightarrow>
     (case next_event f of
        (Fails code n, f) \<Rightarrow> Err (error_from_io (Os code))
      | (Fine, f) \<Rightarrow>
          Ok \<lparr>fd_file = f\<lparr>file_content := replicate (unat block_size * unat block_count) 0\<rparr>,
              fd_block_size = block_size, fd_block_count = block_count\<rparr>))"

definition fd_read_block :: "u32 \<Rightarrow> bytes \<Rightarrow> file_device \<Rightarrow> bytes outcome \<times> file_device" where
  "fd_read_block index buf d =
     (let bs = unat (fd_block_size d); off = unat index * bs in
      bind_io (on_file (file_seek off)) (\<lambda>_.
      bind_io (lift_io (slice_range 0 bs buf)) (\<lambda>_.
      bind_io (on_file (file_read_exact bs)) (\<lambda>src.
      lift_io (copy_into 0 src buf)))) d)"

definition fd_write_block :: "u32 \<Rightarrow> bytes \<Rightarrow> file_device \<Rightarrow> unit outcome \<times> file_device" where
  "fd_write_block index buf d =
     (let bs = unat (fd_block_size d); off = unat index * bs in
      bind_io (on_file (file_seek off)) (\<lambda>_.
      bind_io (lift_io (slice_range 0 bs buf)) (\<lambda>src.
      on_file (file_write_all src))) d)"

text \<open>\<^verbatim>\<open>File::flush\<close> does nothing; \<^verbatim>\<open>sync_all\<close> may fail.\<close>

definition fd_flush :: "file_device \<Rightarrow> unit outcome \<times> file_device" where
  "fd_flush d = on_file file_sync_all d"

definition fd_close :: "file_device \<Rightarrow> unit outcome" where
  "fd_close d = Ok ()"

definition file_dev :: "file_device block_device" where
  "file_dev = \<lparr>d_block_size = fd_block_size, d_block_count = fd_block_count,
     d_read_block = fd_read_block, d_write_block = fd_write_block,
     d_flush = fd_flush, d_close = fd_close\<rparr>"

section \<open>The contract\<close>

text \<open>
  \<open>dev_at bs bc B d\<close>: the device \<open>d\<close> has block size \<open>bs\<close> and block count \<open>bc\<close> and holds the
  blocks \<open>B\<close>. Within its range the device may fail only with an error that satisfies \<open>fault\<close>. A
  failed write leaves the old block, or a torn one that satisfies \<open>torn old new\<close>.
\<close>

locale device_contract =
  fixes D :: "'d block_device"
    and dev_at :: "u32 \<Rightarrow> u32 \<Rightarrow> bytes list \<Rightarrow> 'd \<Rightarrow> bool"
    and fault :: "error \<Rightarrow> bool"
    and torn :: "bytes \<Rightarrow> bytes \<Rightarrow> bytes \<Rightarrow> bool"
  assumes dev_size: "dev_at bs bc B d \<Longrightarrow> d_block_size D d = bs"
    and dev_count: "dev_at bs bc B d \<Longrightarrow> d_block_count D d = bc"
    and dev_length: "dev_at bs bc B d \<Longrightarrow> length B = unat bc"
    and dev_blocks: "dev_at bs bc B d \<Longrightarrow> b \<in> set B \<Longrightarrow> length b = unat bs"
    and dev_read: "i < bc \<Longrightarrow> length buf = unat bs \<Longrightarrow>
      triple (dev_at bs bc B) (d_read_block D i buf)
        (\<lambda>b d. b = B ! unat i \<and> dev_at bs bc B d)
        (\<lambda>e d. fault e \<and> dev_at bs bc B d)"
    and dev_write: "i < bc \<Longrightarrow> length buf = unat bs \<Longrightarrow>
      triple (dev_at bs bc B) (d_write_block D i buf)
        (\<lambda>_ d. dev_at bs bc (B[unat i := buf]) d)
        (\<lambda>e d. fault e \<and> (\<exists>b. (b = B ! unat i \<or> torn (B ! unat i) buf b) \<and>
           dev_at bs bc (B[unat i := b]) d))"
    and dev_flush: "triple (dev_at bs bc B) (d_flush D)
        (\<lambda>_ d. dev_at bs bc B d) (\<lambda>e d. fault e \<and> dev_at bs bc B d)"

begin

lemma dev_nth_length: "dev_at bs bc B d \<Longrightarrow> i < unat bc \<Longrightarrow> length (B ! i) = unat bs"
  by (metis dev_blocks dev_length nth_mem)

lemma dev_geometry_assume:
  assumes "length B = unat bc \<Longrightarrow> (\<And>i. i < bc \<Longrightarrow> length (B ! unat i) = unat bs) \<Longrightarrow> triple (dev_at bs bc B) m Q E"
  shows "triple (dev_at bs bc B) m Q E"
proof (rule triple_assume [where A = "length B = unat bc \<and> (\<forall>i < bc. length (B ! unat i) = unat bs)"])
  fix d
  assume "dev_at bs bc B d"
  then show "length B = unat bc \<and> (\<forall>i < bc. length (B ! unat i) = unat bs)"
    using dev_length dev_nth_length by (auto simp: word_less_nat_alt)
qed (use assms in auto)

end

section \<open>Blocks in a byte array\<close>

lemma concat_blocks:
  assumes "\<forall>b \<in> set B. length b = n" and "i \<le> length B"
  shows "take (i * n) (concat B) = concat (take i B)"
    and "drop (i * n) (concat B) = concat (drop i B)"
  using assms
proof (induction B arbitrary: i)
  case (Cons b B)
  { case 1 with Cons.IH show ?case by (cases i) simp_all }
  { case 2 with Cons.IH show ?case by (cases i) simp_all }
qed simp_all

lemma length_concat_blocks: "\<forall>b \<in> set B. length b = n \<Longrightarrow> length (concat B) = length B * n"
  by (induction B) simp_all

lemma concat_nth_block:
  assumes "\<forall>b \<in> set B. length b = n" and "i < length B"
  shows "take n (drop (i * n) (concat B)) = B ! i"
proof -
  have "drop (i * n) (concat B) = concat (drop i B)"
    using assms by (intro concat_blocks(2)) simp_all
  also have "drop i B = B ! i # drop (Suc i) B"
    using assms(2) by (rule Cons_nth_drop_Suc [symmetric])
  finally show ?thesis using assms by simp
qed

lemma concat_update_block:
  assumes "\<forall>b \<in> set B. length b = n" and "i < length B" and "length src = k" and "k \<le> n"
  shows "take (i * n) (concat B) @ src @ drop (i * n + k) (concat B) =
    concat (B[i := src @ drop k (B ! i)])"
proof -
  have t: "take (i * n) (concat B) = concat (take i B)"
    using assms by (intro concat_blocks(1)) simp_all
  have "drop (i * n + k) (concat B) = drop k (drop (i * n) (concat B))"
    by (simp add: add.commute)
  also have "drop (i * n) (concat B) = concat (drop i B)"
    using assms by (intro concat_blocks(2)) simp_all
  also have "drop i B = B ! i # drop (Suc i) B"
    using assms(2) by (rule Cons_nth_drop_Suc [symmetric])
  finally have d: "drop (i * n + k) (concat B) = drop k (B ! i) @ concat (drop (Suc i) B)"
    using assms by simp
  show ?thesis
    using assms(2) by (simp add: t d upd_conv_take_nth_drop)
qed

section \<open>Both implementations satisfy the contract\<close>

definition mem_at :: "u32 \<Rightarrow> u32 \<Rightarrow> bytes list \<Rightarrow> mem_device \<Rightarrow> bool" where
  "mem_at bs bc B d \<longleftrightarrow>
     d = \<lparr>mem_block_size = bs, mem_block_count = bc, mem_data = concat B\<rparr> \<and>
     length B = unat bc \<and> (\<forall>b \<in> set B. length b = unat bs)"

lemma block_in_range:
  assumes "i < bc" and "length B = unat (bc :: u32)" and "\<forall>b \<in> set B. length b = n"
  shows "unat i < length B" and "unat i * n + n \<le> length (concat B)"
proof -
  show i: "unat i < length B" using assms by (simp add: word_less_nat_alt)
  then have "unat i * n + n \<le> length B * n"
    by (metis Suc_leI add.commute mult_Suc mult_le_mono1)
  then show "unat i * n + n \<le> length (concat B)"
    using length_concat_blocks [OF assms(3)] by simp
qed

lemma mem_read_block_at:
  assumes "mem_at bs bc B d" and "i < bc" and "length buf = unat bs"
  shows "mem_read_block i buf d = (Ok (B ! unat i), d)"
proof -
  note at = assms(1) [unfolded mem_at_def]
  note r = block_in_range [OF assms(2), of B "unat bs"]
  show ?thesis
    using at r assms(2,3)
    by (simp add: mem_read_block_def Let_def slice_range_def copy_into_def concat_nth_block
        not_le)
qed

lemma mem_write_block_at:
  assumes "mem_at bs bc B d" and "i < bc" and "length buf = unat bs"
  shows "\<exists>d'. mem_write_block i buf d = (Ok (), d') \<and> mem_at bs bc (B[unat i := buf]) d'"
proof -
  note at = assms(1) [unfolded mem_at_def]
  note r = block_in_range [OF assms(2), of B "unat bs"]
  have "take (unat i * unat bs) (concat B) @ buf @ drop (unat i * unat bs + unat bs) (concat B)
      = concat (B[unat i := buf])"
    using concat_update_block [of B "unat bs" "unat i" buf "unat bs"] at r assms(3) by simp
  then show ?thesis
    using at r assms(2,3)
    by (auto simp: mem_write_block_def Let_def slice_range_def copy_into_def not_le mem_at_def
        dest: set_update_subset_insert [THEN subsetD])
qed

interpretation mem: device_contract mem_dev mem_at "\<lambda>_. False" "\<lambda>_ _ _. False"
proof (unfold_locales, goal_cases)
  case (5 i bc buf bs B)
  then show ?case
    by (auto simp: triple_def mem_dev_def mem_read_block_at)
next
  case (6 i bc buf bs B)
  then show ?case
    by (auto simp: triple_def mem_dev_def dest!: mem_write_block_at [of bs bc B _ i buf])
qed (auto simp: mem_at_def mem_dev_def triple_def mem_flush_def)

definition file_at :: "u32 \<Rightarrow> u32 \<Rightarrow> bytes list \<Rightarrow> file_device \<Rightarrow> bool" where
  "file_at bs bc B d \<longleftrightarrow>
     fd_block_size d = bs \<and> fd_block_count d = bc \<and> file_content (fd_file d) = concat B \<and>
     length B = unat bc \<and> (\<forall>b \<in> set B. length b = unat bs)"

definition os_fault :: "error \<Rightarrow> bool" where
  "os_fault e \<longleftrightarrow> (\<exists>code. e = Io (Os code))"

definition torn_prefix :: "bytes \<Rightarrow> bytes \<Rightarrow> bytes \<Rightarrow> bool" where
  "torn_prefix old new b \<longleftrightarrow> (\<exists>k \<le> length new. b = take k new @ drop k old)"

lemma next_event_cases:
  obtains (fine) f' where "next_event f = (Fine, f')"
      and "file_content f' = file_content f" and "file_pos f' = file_pos f"
  | (fails) code n f' where "next_event f = (Fails code n, f')"
      and "file_content f' = file_content f" and "file_pos f' = file_pos f"
proof (cases "file_faults f")
  case Nil
  then show ?thesis using that(1) [of f] by (simp add: next_event_def)
next
  case (Cons x xs)
  then show ?thesis
    using that(1) [of "f\<lparr>file_faults := xs\<rparr>"] that(2) [of _ _ "f\<lparr>file_faults := xs\<rparr>"]
    by (cases x) (simp_all add: next_event_def)
qed

lemma overlay_in_range:
  "off + length src \<le> length content \<Longrightarrow>
   overlay off src content = take off content @ src @ drop (off + length src) content"
  by (simp add: overlay_def)

lemma file_seek_at:
  "triple (file_at bs bc B) (on_file (file_seek off))
     (\<lambda>_ d. file_at bs bc B d \<and> file_pos (fd_file d) = off)
     (\<lambda>e d. os_fault e \<and> file_at bs bc B d)"
  unfolding triple_def
proof (intro allI impI)
  fix d
  assume "file_at bs bc B d"
  then show "case on_file (file_seek off) d of
      (Ok x, d') \<Rightarrow> file_at bs bc B d' \<and> file_pos (fd_file d') = off
    | (Err e, d') \<Rightarrow> os_fault e \<and> file_at bs bc B d' | (Panic, d') \<Rightarrow> False"
    by (cases "fd_file d" rule: next_event_cases)
      (auto simp: on_file_def file_seek_def file_at_def os_fault_def error_from_io_def)
qed

lemma file_read_exact_at:
  assumes "i < bc"
  shows "triple (\<lambda>d. file_at bs bc B d \<and> file_pos (fd_file d) = unat i * unat bs)
     (on_file (file_read_exact (unat bs)))
     (\<lambda>b d. b = B ! unat i \<and> length b = unat bs \<and> file_at bs bc B d)
     (\<lambda>e d. os_fault e \<and> file_at bs bc B d)"
  unfolding triple_def
proof (intro allI impI, elim conjE)
  fix d
  assume at: "file_at bs bc B d" and pos: "file_pos (fd_file d) = unat i * unat bs"
  then have "unat i < length B" and "unat i * unat bs + unat bs \<le> length (concat B)"
    using block_in_range [OF assms, of B "unat bs"] by (simp_all add: file_at_def)
  with at pos show "case on_file (file_read_exact (unat bs)) d of
      (Ok b, d') \<Rightarrow> b = B ! unat i \<and> length b = unat bs \<and> file_at bs bc B d'
    | (Err e, d') \<Rightarrow> os_fault e \<and> file_at bs bc B d' | (Panic, d') \<Rightarrow> False"
    by (cases "fd_file d" rule: next_event_cases)
      (auto simp: on_file_def file_read_exact_def file_at_def os_fault_def error_from_io_def
        concat_nth_block)
qed

lemma file_at_update:
  assumes "file_at bs bc B d" and "length b = unat bs" and "file_content f = concat (B[i := b])"
  shows "file_at bs bc (B[i := b]) (d\<lparr>fd_file := f\<rparr>)"
  using assms unfolding file_at_def
  by (intro conjI ballI) (auto dest: set_update_subset_insert [THEN subsetD])

lemma file_write_all_at:
  assumes "i < bc" and "length src = unat bs"
  shows "triple (\<lambda>d. file_at bs bc B d \<and> file_pos (fd_file d) = unat i * unat bs)
     (on_file (file_write_all src))
     (\<lambda>_ d. file_at bs bc (B[unat i := src]) d)
     (\<lambda>e d. os_fault e \<and> (\<exists>b. torn_prefix (B ! unat i) src b \<and> file_at bs bc (B[unat i := b]) d))"
  unfolding triple_def
proof (intro allI impI, elim conjE)
  fix d
  assume at: "file_at bs bc B d" and pos: "file_pos (fd_file d) = unat i * unat bs"
  let ?new = "\<lambda>k. take k src @ drop k (B ! unat i)"
  let ?off = "unat i * unat bs"
  have content: "file_content (fd_file d) = concat B" and B: "\<forall>b \<in> set B. length b = unat bs"
    and r: "unat i < length B" "?off + unat bs \<le> length (concat B)"
    using at block_in_range [OF assms(1), of B "unat bs"] by (simp_all add: file_at_def)
  have len: "length (B ! unat i) = unat bs" using B r(1) by simp
  have ov: "overlay ?off (take k src) (concat B) = concat (B[unat i := ?new k])"
    if "k \<le> unat bs" for k
    using concat_update_block [OF B r(1), of "take k src" k] that r(2) assms(2)
    by (simp add: overlay_in_range)
  show "case on_file (file_write_all src) d of
      (Ok x, d') \<Rightarrow> file_at bs bc (B[unat i := src]) d'
    | (Err e, d') \<Rightarrow> os_fault e \<and>
        (\<exists>b. torn_prefix (B ! unat i) src b \<and> file_at bs bc (B[unat i := b]) d')
    | (Panic, d') \<Rightarrow> False"
  proof (cases "fd_file d" rule: next_event_cases)
    case (fine f')
    have "overlay ?off src (concat B) = concat (B[unat i := src])"
      using ov [of "unat bs"] len assms(2) by simp
    then show ?thesis
      using fine content pos file_at_update [OF at assms(2)]
      by (simp add: on_file_def file_write_all_def)
  next
    case (fails code n f')
    let ?k = "min n (unat bs)"
    let ?d = "d\<lparr>fd_file := f'\<lparr>file_content := overlay ?off (take n src) (concat B)\<rparr>\<rparr>"
    have run: "on_file (file_write_all src) d = (Err (Io (Os code)), ?d)"
      using fails content pos by (simp add: on_file_def file_write_all_def error_from_io_def)
    have k: "take ?k src = take n src" using assms(2) by (simp add: min_def)
    have "overlay ?off (take ?k src) (concat B) = concat (B[unat i := ?new ?k])"
      by (rule ov) (rule min.cobounded2)
    then have "file_at bs bc (B[unat i := ?new ?k]) ?d"
      using len assms(2) by (intro file_at_update [OF at]) (simp_all only: k, simp_all)
    moreover have "torn_prefix (B ! unat i) src (?new ?k)"
      unfolding torn_prefix_def using assms(2) by (intro exI [of _ ?k]) simp
    ultimately show ?thesis
      unfolding run os_fault_def by auto
  qed
qed

lemma fd_read_block_at:
  assumes "i < bc" and "length buf = unat bs"
  shows "triple (file_at bs bc B) (fd_read_block i buf)
    (\<lambda>b d. b = B ! unat i \<and> file_at bs bc B d) (\<lambda>e d. os_fault e \<and> file_at bs bc B d)"
proof -
  let ?Q = "\<lambda>b d. b = B ! unat i \<and> file_at bs bc B d"
  let ?E = "\<lambda>e d. os_fault e \<and> file_at bs bc B d"
  have copy: "triple (\<lambda>d. b = B ! unat i \<and> length b = unat bs \<and> file_at bs bc B d)
      (lift_io (copy_into 0 b buf)) ?Q ?E" for b
    using assms(2) by (auto simp: triple_def copy_into_def)
  have "triple (\<lambda>d. file_at bs bc B d \<and> file_pos (fd_file d) = unat i * unat bs)
      (bind_io (on_file (file_read_exact (unat bs))) (\<lambda>src. lift_io (copy_into 0 src buf))) ?Q ?E"
    by (rule triple_bind [OF file_read_exact_at [OF assms(1)] copy])
  then have "triple (\<lambda>d. file_at bs bc B d \<and> file_pos (fd_file d) = unat i * unat bs)
      (bind_io (lift_io (slice_range 0 (unat bs) buf)) (\<lambda>_.
       bind_io (on_file (file_read_exact (unat bs))) (\<lambda>src. lift_io (copy_into 0 src buf)))) ?Q ?E"
    using assms(2) by (simp add: slice_range_Ok)
  then have "triple (file_at bs bc B)
      (bind_io (on_file (file_seek (unat i * unat bs))) (\<lambda>_.
       bind_io (lift_io (slice_range 0 (unat bs) buf)) (\<lambda>_.
       bind_io (on_file (file_read_exact (unat bs))) (\<lambda>src. lift_io (copy_into 0 src buf))))) ?Q ?E"
    by (rule triple_bind [OF file_seek_at])
  then show ?thesis
    by (rule triple_prog) (simp add: fd_read_block_def file_at_def Let_def)
qed

lemma fd_write_block_at:
  assumes "i < bc" and "length buf = unat bs"
  shows "triple (file_at bs bc B) (fd_write_block i buf)
    (\<lambda>_ d. file_at bs bc (B[unat i := buf]) d)
    (\<lambda>e d. os_fault e \<and> (\<exists>b. (b = B ! unat i \<or> torn_prefix (B ! unat i) buf b) \<and>
       file_at bs bc (B[unat i := b]) d))" (is "triple _ _ ?Q ?E")
proof -
  have seek: "triple (file_at bs bc B) (on_file (file_seek (unat i * unat bs)))
      (\<lambda>_ d. file_at bs bc B d \<and> file_pos (fd_file d) = unat i * unat bs) ?E"
    by (rule triple_conseq [OF file_seek_at]) (auto intro!: exI [of _ "B ! unat i"])
  have transfer: "triple (\<lambda>d. file_at bs bc B d \<and> file_pos (fd_file d) = unat i * unat bs)
      (on_file (file_write_all buf)) ?Q ?E"
    by (rule triple_conseq [OF file_write_all_at [OF assms]]) auto
  then have "triple (\<lambda>d. file_at bs bc B d \<and> file_pos (fd_file d) = unat i * unat bs)
      (bind_io (lift_io (slice_range 0 (unat bs) buf)) (\<lambda>src. on_file (file_write_all src))) ?Q ?E"
    using assms(2) by (simp add: slice_range_Ok)
  then have "triple (file_at bs bc B)
      (bind_io (on_file (file_seek (unat i * unat bs))) (\<lambda>_.
       bind_io (lift_io (slice_range 0 (unat bs) buf)) (\<lambda>src. on_file (file_write_all src)))) ?Q ?E"
    by (rule triple_bind [OF seek])
  then show ?thesis
    by (rule triple_prog) (simp add: fd_write_block_def file_at_def Let_def)
qed

lemma fd_flush_at:
  "triple (file_at bs bc B) fd_flush (\<lambda>_ d. file_at bs bc B d)
     (\<lambda>e d. os_fault e \<and> file_at bs bc B d)"
  unfolding triple_def
proof (intro allI impI)
  fix d
  assume "file_at bs bc B d"
  then show "case fd_flush d of (Ok x, d') \<Rightarrow> file_at bs bc B d'
    | (Err e, d') \<Rightarrow> os_fault e \<and> file_at bs bc B d' | (Panic, d') \<Rightarrow> False"
    by (cases "fd_file d" rule: next_event_cases)
      (auto simp: fd_flush_def on_file_def file_sync_all_def file_at_def os_fault_def
        error_from_io_def)
qed

interpretation disk: device_contract file_dev file_at os_fault torn_prefix
  by unfold_locales
    (simp_all add: file_dev_def fd_read_block_at fd_write_block_at fd_flush_at,
      auto simp: file_at_def)

section \<open>Properties\<close>

text \<open>
  Property C22: a block write of \<^verbatim>\<open>FileDevice\<close>, under any schedule of faults. If it succeeds, the block has
  the new content; if it fails, with the error of the system call, the block has a prefix of the new
  content followed by the rest of the old one. No other block changes, and the write does not panic.
\<close>

theorem file_write_tears_prefix:
  assumes "file_at bs bc B d" and "i < bc" and "length buf = unat bs"
  shows "case fd_write_block i buf d of
      (Ok _, d') \<Rightarrow> file_at bs bc (B[unat i := buf]) d'
    | (Err e, d') \<Rightarrow> \<exists>code k. e = Io (Os code) \<and> k \<le> unat bs \<and>
        file_at bs bc (B[unat i := take k buf @ drop k (B ! unat i)]) d'
    | (Panic, _) \<Rightarrow> False"
proof (cases rule: triple_cases [OF fd_write_block_at [OF assms(2,3)] assms(1)])
  case (2 e d')
  then obtain b code where e: "e = Io (Os code)" and b: "b = B ! unat i \<or> torn_prefix (B ! unat i) buf b"
    "file_at bs bc (B[unat i := b]) d'" by (auto simp: os_fault_def)
  from b(1) have "\<exists>k \<le> unat bs. b = take k buf @ drop k (B ! unat i)"
    using assms(3) by (auto simp: torn_prefix_def intro: exI [of _ 0])
  with e b(2) 2 show ?thesis by auto
qed simp

theorem file_write_tears_prefix_witness:
  "case fd_write_block 1 [5, 6] \<lparr>fd_file = \<lparr>file_content = [1, 2, 3, 4], file_pos = 0, file_faults = [Fine, Fails 28 1]\<rparr>,
      fd_block_size = 2, fd_block_count = 2\<rparr> of
      (Ok _, d') \<Rightarrow> file_at 2 2 ([[1, 2], [3, 4]][unat (1 :: u32) := [5, 6]]) d'
    | (Err e, d') \<Rightarrow> \<exists>code k. e = Io (Os code) \<and> k \<le> unat (2 :: u32) \<and>
        file_at 2 2 ([[1, 2], [3, 4]][unat (1 :: u32) := take k [5, 6] @ drop k ([[1, 2], [3, 4]] ! unat (1 :: u32))]) d'
    | (Panic, _) \<Rightarrow> False"
  by (rule file_write_tears_prefix) (simp_all add: file_at_def)

end
