(* ===== verification/Ekv_Record.thy ===== *)
theory Ekv_Record
  imports Ekv_Block Ekv_Device
begin

text \<open>
  Records, \<^verbatim>\<open>rust/src/record.rs\<close>: validation of a descriptor and its chain of value chunks, and
  the number of blocks a record needs. \<open>complete\<close> states when a record is complete (a valid
  descriptor whose chain of chunks is unbroken, consistent and acyclic and carries the announced
  number of chunks and bytes), and \<^verbatim>\<open>verify_and_read_record\<close> is shown to return exactly the complete
  record of a descriptor block, on every device that satisfies the contract.
\<close>

section \<open>The code\<close>

record complete_record =
  cr_key :: bytes
  cr_generation :: u32
  cr_descriptor_block :: u32
  cr_header :: descriptor_header
  cr_chunk_blocks :: "u32 list"
  cr_value :: bytes

text \<open>
  The loop over the value chunks. It returns \<open>None\<close> where the code returns \<^verbatim>\<open>Ok(None)\<close>, and the
  final \<^verbatim>\<open>expected_idx\<close>, \<^verbatim>\<open>rec.value\<close> and \<^verbatim>\<open>rec.chunk_blocks\<close> where it breaks. It ends because
  \<^verbatim>\<open>visited\<close> grows: there are only \<open>2 ^ 32\<close> block indices.
\<close>

function chunk_loop ::
    "bool \<Rightarrow> 'd block_device \<Rightarrow> u32 \<Rightarrow> u32 \<Rightarrow> bytes \<Rightarrow> u32 \<Rightarrow> u32 \<Rightarrow> u32 set \<Rightarrow> bytes \<Rightarrow> u32 list
     \<Rightarrow> ('d, (u32 \<times> bytes \<times> u32 list) option) io" where
  "chunk_loop oc D descriptor_block block_size chunk_buf next expected_idx visited value chunk_blocks =
     (if next = NULL_BLOCK_INDEX then return_io (Some (expected_idx, value, chunk_blocks))
      else bind_io (asks_io (d_block_count D)) (\<lambda>block_count.
        if block_count \<le> next \<or> next \<in> visited then return_io None
        else
          bind_io (d_read_block D next chunk_buf) (\<lambda>chunk_buf.
          bind_io (lift_io (get_byte 0 chunk_buf)) (\<lambda>t.
          if t \<noteq> BLOCK_TYPE_VALUE_CHUNK then return_io None
          else
          bind_io (lift_io (unmarshal_chunk_header oc chunk_buf)) (\<lambda>(ch, ok).
          if \<not> ok then return_io None
          else if ucast (vc_header_size ch) \<noteq> VALUE_CHUNK_HEADER_SIZE then return_io None
          else if vc_owner_descriptor ch \<noteq> descriptor_block then return_io None
          else if vc_chunk_index ch \<noteq> expected_idx then return_io None
          else
          bind_io (lift_io (chunk_payload_capacity oc block_size)) (\<lambda>cap.
          if cap < vc_payload_size ch then return_io None
          else
          let pstart = unat VALUE_CHUNK_HEADER_SIZE; pend = pstart + unat (vc_payload_size ch) in
          bind_io (lift_io (slice_range pstart pend chunk_buf)) (\<lambda>payload.
          bind_io (lift_io (u32_add oc expected_idx 1)) (\<lambda>expected_idx.
          chunk_loop oc D descriptor_block block_size chunk_buf (vc_next_chunk ch) expected_idx
            (insert next visited) (value @ payload) (chunk_blocks @ [next])))))))))"
  by pat_completeness auto
termination
proof (relation "measure (\<lambda>(oc, D, db, bs, buf, next, idx, visited, v, cs). card (- visited))",
    goal_cases)
  case (2 oc D db bs buf nxt idx visited)
  then have "nxt \<in> - visited" by simp
  then have "card (- insert nxt visited) < card (- visited)"
    by (intro psubset_card_mono) auto
  then show ?case by simp
qed simp

declare chunk_loop.simps [simp del]

definition verify_and_read_record ::
    "bool \<Rightarrow> 'd block_device \<Rightarrow> u32 \<Rightarrow> ('d, complete_record option) io" where
  "verify_and_read_record oc D descriptor_block =
     bind_io (asks_io (d_block_size D)) (\<lambda>block_size.
     bind_io (d_read_block D descriptor_block (replicate (unat block_size) 0)) (\<lambda>buf.
     bind_io (lift_io (get_byte 0 buf)) (\<lambda>t.
     if t \<noteq> BLOCK_TYPE_RECORD_DESCRIPTOR then return_io None
     else
     bind_io (lift_io (unmarshal_descriptor_header oc buf)) (\<lambda>(hdr, ok).
     if \<not> ok then return_io None
     else if ucast (rd_header_size hdr) \<noteq> RECORD_DESCRIPTOR_HEADER_SIZE then return_io None
     else
     bind_io (lift_io (bind_o (u32_sub oc block_size RECORD_DESCRIPTOR_HEADER_SIZE)
        (\<lambda>a. u32_sub oc a BLOCK_CRC_SIZE))) (\<lambda>key_limit.
     if key_limit < ucast (rd_key_size hdr) then return_io None
     else
     bind_io (lift_io (first_payload_capacity oc block_size (ucast (rd_key_size hdr)))) (\<lambda>first_payload_cap.
     if first_payload_cap < rd_first_payload_size hdr then return_io None
     else if rd_chunk_count hdr = 0 then return_io None
     else
     let key_start = unat RECORD_DESCRIPTOR_HEADER_SIZE;
         key_end = key_start + unat (rd_key_size hdr) in
     bind_io (lift_io (slice_range key_start key_end buf)) (\<lambda>key.
     let payload_start = key_end;
         payload_end = payload_start + unat (rd_first_payload_size hdr) in
     bind_io (lift_io (slice_range payload_start payload_end buf)) (\<lambda>value.
     let rec = \<lparr>cr_key = key, cr_generation = rd_generation hdr,
                cr_descriptor_block = descriptor_block, cr_header = hdr,
                cr_chunk_blocks = [], cr_value = value\<rparr> in
     if rd_chunk_count hdr = 1 then
       (if rd_total_size hdr \<noteq> rd_first_payload_size hdr \<or> rd_next_chunk hdr \<noteq> NULL_BLOCK_INDEX
        then return_io None else return_io (Some rec))
     else if rd_next_chunk hdr = NULL_BLOCK_INDEX then return_io None
     else
     bind_io (chunk_loop oc D descriptor_block block_size (replicate (unat block_size) 0)
        (rd_next_chunk hdr) 1 {descriptor_block} value []) (\<lambda>res.
     case res of None \<Rightarrow> return_io None
     | Some (expected_idx, value, chunk_blocks) \<Rightarrow>
         if expected_idx \<noteq> rd_chunk_count hdr then return_io None
         else if word_of_nat (length value) \<noteq> rd_total_size hdr then return_io None
         else return_io (Some (rec\<lparr>cr_value := value, cr_chunk_blocks := chunk_blocks\<rparr>)))))))))))"

definition needed_blocks :: "bool \<Rightarrow> bytes \<Rightarrow> bytes \<Rightarrow> u32 \<Rightarrow> u32 outcome" where
  "needed_blocks oc key value block_size =
     bind_o (first_payload_capacity oc block_size (word_of_nat (length key))) (\<lambda>first_cap.
     bind_o (chunk_payload_capacity oc block_size) (\<lambda>chunk_cap.
     let vlen = word_of_nat (length value) in
     if vlen \<le> first_cap then Ok 1
     else
     bind_o (u32_sub oc vlen first_cap) (\<lambda>remaining.
     bind_o (u32_div_ceil remaining chunk_cap) (\<lambda>extra. u32_add oc 1 extra))))"

section \<open>Complete records\<close>

definition desc_ok :: "nat \<Rightarrow> bytes \<Rightarrow> bool" where
  "desc_ok bs b \<longleftrightarrow> (let h = read_descriptor_header b in
     crc_ok b \<and> b ! 0 = 2 \<and> rd_header_size h = 32 \<and>
     36 + unat (rd_key_size h) + unat (rd_first_payload_size h) \<le> bs \<and> rd_chunk_count h \<noteq> 0)"

definition desc_key :: "bytes \<Rightarrow> bytes" where
  "desc_key b = take (unat (rd_key_size (read_descriptor_header b))) (drop 32 b)"

definition desc_payload :: "bytes \<Rightarrow> bytes" where
  "desc_payload b = (let h = read_descriptor_header b in
     take (unat (rd_first_payload_size h)) (drop (32 + unat (rd_key_size h)) b))"

definition chunk_ok :: "nat \<Rightarrow> u32 \<Rightarrow> u32 \<Rightarrow> bytes \<Rightarrow> bool" where
  "chunk_ok bs owner idx b \<longleftrightarrow> (let h = read_chunk_header b in
     crc_ok b \<and> b ! 0 = 3 \<and> vc_header_size h = 20 \<and> vc_owner_descriptor h = owner \<and>
     vc_chunk_index h = idx \<and> 24 + unat (vc_payload_size h) \<le> bs)"

definition chunk_payload :: "bytes \<Rightarrow> bytes" where
  "chunk_payload b = take (unat (vc_payload_size (read_chunk_header b))) (drop 20 b)"

text \<open>
  The chain of chunks from block \<open>next\<close> on, expecting chunk index \<open>idx\<close>: the blocks it visits and
  the bytes it carries.
\<close>

inductive chain :: "nat \<Rightarrow> bytes list \<Rightarrow> u32 \<Rightarrow> u32 \<Rightarrow> u32 \<Rightarrow> u32 list \<Rightarrow> bytes \<Rightarrow> bool"
  for bs B owner where
  chain_end: "chain bs B owner idx NULL_BLOCK_INDEX [] []"
| chain_step: "nxt \<noteq> NULL_BLOCK_INDEX \<Longrightarrow> unat nxt < length B \<Longrightarrow>
    chunk_ok bs owner idx (B ! unat nxt) \<Longrightarrow>
    chain bs B owner (idx + 1) (vc_next_chunk (read_chunk_header (B ! unat nxt))) cs v \<Longrightarrow>
    chain bs B owner idx nxt (nxt # cs) (chunk_payload (B ! unat nxt) @ v)"

inductive_cases chain_nullE: "chain bs B owner idx NULL_BLOCK_INDEX cs v"
inductive_cases chain_nilE: "chain bs B owner idx nxt [] v"
inductive_cases chain_consE: "chain bs B owner idx nxt (c # cs) v"

definition complete :: "nat \<Rightarrow> bytes list \<Rightarrow> u32 \<Rightarrow> complete_record \<Rightarrow> bool" where
  "complete bs B db r \<longleftrightarrow> (let b = B ! unat db; h = read_descriptor_header b in
     unat db < length B \<and> desc_ok bs b \<and> distinct (cr_chunk_blocks r) \<and>
     cr_key r = desc_key b \<and> cr_generation r = rd_generation h \<and> cr_descriptor_block r = db \<and>
     cr_header r = h \<and>
     (\<exists>v. chain bs B db 1 (rd_next_chunk h) (cr_chunk_blocks r) v \<and>
        cr_value r = desc_payload b @ v) \<and>
     unat (rd_chunk_count h) = 1 + length (cr_chunk_blocks r) \<and>
     rd_total_size h = word_of_nat (length (cr_value r)))"

lemma chain_deterministic:
  "chain bs B owner idx nxt cs v \<Longrightarrow> chain bs B owner idx nxt cs' v' \<Longrightarrow> cs' = cs \<and> v' = v"
proof (induction arbitrary: cs' v' rule: chain.induct)
  case (chain_end idx)
  then show ?case by (auto elim: chain_nullE)
next
  case (chain_step nxt idx cs v)
  from chain_step.prems chain_step.hyps(1) obtain ds w where
      "cs' = nxt # ds" "v' = chunk_payload (B ! unat nxt) @ w"
      "chain bs B owner (idx + 1) (vc_next_chunk (read_chunk_header (B ! unat nxt))) ds w"
    by (cases rule: chain.cases) auto
  with chain_step.IH show ?case by simp
qed

lemma complete_deterministic: "complete bs B db r \<Longrightarrow> complete bs B db r' \<Longrightarrow> r' = r"
  unfolding complete_def Let_def
  by (elim conjE exE) (auto dest: chain_deterministic intro!: complete_record.equality)

section \<open>The loop returns the chain\<close>

lemma ucast_u8_eq_iff: "(ucast (x :: u8) :: u32) = ucast y \<longleftrightarrow> x = y"
  by (metis ucast_u8_inverse)

lemma header_size_20: "(ucast (x :: u8) :: u32) = 20 \<longleftrightarrow> x = 20"
  using ucast_u8_eq_iff [of x 20] by simp

lemma header_size_32: "(ucast (x :: u8) :: u32) = 32 \<longleftrightarrow> x = 32"
  using ucast_u8_eq_iff [of x 32] by simp

lemma unat_ucast_u16 [simp]: "unat (ucast (x :: u16) :: u32) = unat x"
proof -
  have "unat x < 2 ^ 16" using unsigned_less [where ?'a = nat, of x] by simp
  then have "unat x < 2 ^ 32" by simp
  then show ?thesis by (simp add: unsigned_ucast_eq take_bit_nat_eq_self_iff)
qed

text \<open>One iteration on a block of the right size, after it has been read.\<close>

lemma chunk_loop_step:
  assumes "length buf = unat bs" and "24 \<le> unat bs"
  shows "(bind_io (lift_io (get_byte 0 buf)) (\<lambda>t.
      if t \<noteq> BLOCK_TYPE_VALUE_CHUNK then return_io None
      else
      bind_io (lift_io (unmarshal_chunk_header oc buf)) (\<lambda>(ch, ok).
      if \<not> ok then return_io None
      else if ucast (vc_header_size ch) \<noteq> VALUE_CHUNK_HEADER_SIZE then return_io None
      else if vc_owner_descriptor ch \<noteq> db then return_io None
      else if vc_chunk_index ch \<noteq> idx then return_io None
      else
      bind_io (lift_io (chunk_payload_capacity oc bs)) (\<lambda>cap.
      if cap < vc_payload_size ch then return_io None
      else
      let pstart = unat VALUE_CHUNK_HEADER_SIZE; pend = pstart + unat (vc_payload_size ch) in
      bind_io (lift_io (slice_range pstart pend buf)) (\<lambda>payload. k ch payload))))) =
    (if chunk_ok (unat bs) db idx buf then k (read_chunk_header buf) (chunk_payload buf)
     else return_io None)"
proof -
  have buf: "buf \<noteq> []" using assms by auto
  obtain cap where cap: "chunk_payload_capacity oc bs = Ok cap" "unat cap = unat bs - 24"
    using assms(2) by (rule chunk_payload_capacity_Ok)
  have lt: "cap < w \<longleftrightarrow> \<not> 24 + unat w \<le> unat bs" for w
    using cap(2) assms(2) by (auto simp: word_less_nat_alt)
  show ?thesis
    using buf assms
    by (auto simp: get_byte_Ok unmarshal_chunk_header_Ok layout_simps cap lt header_size_20
        slice_range_Ok chunk_ok_def chunk_payload_def Let_def)
qed

text \<open>The result of the loop, as a relation to the chain it walks.\<close>

definition loop_result ::
    "nat \<Rightarrow> bytes list \<Rightarrow> u32 \<Rightarrow> u32 \<Rightarrow> u32 \<Rightarrow> u32 set \<Rightarrow> bytes \<Rightarrow> u32 list
     \<Rightarrow> (u32 \<times> bytes \<times> u32 list) option \<Rightarrow> bool" where
  "loop_result bs B db idx nxt visited value cbs r \<longleftrightarrow>
     (\<forall>idx' value' cbs'. r = Some (idx', value', cbs') \<longleftrightarrow>
       (\<exists>cs v. chain bs B db idx nxt cs v \<and> distinct cs \<and> set cs \<inter> visited = {} \<and>
         idx' = idx + word_of_nat (length cs) \<and> value' = value @ v \<and> cbs' = cbs @ cs))"

lemma loop_result_end:
  "loop_result bs B db idx NULL_BLOCK_INDEX visited value cbs (Some (idx, value, cbs))"
  by (auto simp: loop_result_def intro: chain_end elim: chain_nullE)

lemma loop_result_None:
  assumes "nxt \<noteq> NULL_BLOCK_INDEX"
    and "length B \<le> unat nxt \<or> nxt \<in> visited \<or> \<not> chunk_ok bs db idx (B ! unat nxt)"
  shows "loop_result bs B db idx nxt visited value cbs None"
proof -
  have "\<not> (chain bs B db idx nxt cs v \<and> set cs \<inter> visited = {})" for cs v
    using assms by (auto elim: chain.cases)
  then show ?thesis unfolding loop_result_def by auto
qed

lemma loop_result_step:
  assumes "nxt \<noteq> NULL_BLOCK_INDEX" and "unat nxt < length B" and "nxt \<notin> visited"
    and "chunk_ok bs db idx (B ! unat nxt)"
    and "loop_result bs B db (idx + 1) (vc_next_chunk (read_chunk_header (B ! unat nxt)))
      (insert nxt visited) (value @ chunk_payload (B ! unat nxt)) (cbs @ [nxt]) r"
  shows "loop_result bs B db idx nxt visited value cbs r"
proof -
  let ?n = "vc_next_chunk (read_chunk_header (B ! unat nxt))"
  have "(chain bs B db idx nxt cs v \<and> distinct cs \<and> set cs \<inter> visited = {} \<and>
      idx' = idx + word_of_nat (length cs) \<and> value' = value @ v \<and> cbs' = cbs @ cs) \<longleftrightarrow>
    (\<exists>ds w. cs = nxt # ds \<and> v = chunk_payload (B ! unat nxt) @ w \<and>
      chain bs B db (idx + 1) ?n ds w \<and> distinct ds \<and> set ds \<inter> insert nxt visited = {} \<and>
      idx' = idx + 1 + word_of_nat (length ds) \<and>
      value' = (value @ chunk_payload (B ! unat nxt)) @ w \<and> cbs' = (cbs @ [nxt]) @ ds)"
    for cs v idx' value' cbs'
    using assms(1-4) by (auto intro: chain_step elim!: chain.cases [of bs B db idx nxt])
  with assms(5) show ?thesis
    unfolding loop_result_def by simp
qed

lemma card_less_word: "card {i :: u32. i < n} = unat n"
proof -
  have "{i. i < n} = word_of_nat ` {..<unat n}"
  proof (intro set_eqI iffI)
    fix i
    assume "i \<in> {i. i < n}"
    then have "unat i < unat n" by (simp add: word_less_nat_alt)
    then show "i \<in> word_of_nat ` {..<unat n}" by (intro image_eqI [of _ _ "unat i"]) simp_all
  next
    fix i :: u32
    assume "i \<in> word_of_nat ` {..<unat n}"
    then obtain k where "i = word_of_nat k" "k < unat n" by auto
    moreover have "k < 2 ^ 32" using \<open>k < unat n\<close> unat_u32_less [of n] by simp
    ultimately show "i \<in> {i. i < n}" by (simp add: word_less_nat_alt unat_of_nat_u32)
  qed
  moreover have "inj_on (word_of_nat :: nat \<Rightarrow> u32) {..<unat n}"
  proof (rule inj_on_inverseI [of _ unat])
    fix k
    assume "k \<in> {..<unat n}"
    then have "k < 2 ^ 32" using unat_u32_less [of n] by simp
    then show "unat (word_of_nat k :: u32) = k" by (rule unat_of_nat_u32)
  qed
  ultimately show ?thesis by (simp add: card_image)
qed

lemma visited_grows:
  fixes bc nxt idx :: u32
  assumes "visited \<subseteq> {i. i < bc}" and "card visited = unat idx" and "nxt < bc" and "nxt \<notin> visited"
  shows "unat idx + unat (1 :: u32) < 2 ^ 32" and "card (insert nxt visited) = unat (idx + 1)"
    and "card (- insert nxt visited) < card (- visited)"
proof -
  have fin: "finite visited" by (rule finite)
  have "card (insert nxt visited) \<le> card {i. i < bc}"
    using assms(1,3) by (intro card_mono) auto
  then have "Suc (unat idx) \<le> unat bc"
    using assms(2,4) fin by (simp add: card_less_word)
  then show add: "unat idx + unat (1 :: u32) < 2 ^ 32"
    using unat_u32_less [of bc] by simp
  show "card (insert nxt visited) = unat (idx + 1)"
    using assms(2,4) fin add by (simp add: unat_u32_add)
  show "card (- insert nxt visited) < card (- visited)"
    using assms(4) by (intro psubset_card_mono) auto
qed

context device_contract
begin

text \<open>One round of the loop at a block that it has not visited.\<close>

lemma chunk_loop_round:
  fixes B nxt
  defines "b \<equiv> B ! unat nxt"
  assumes "24 \<le> unat bs" and buf: "length buf = unat bs" and nxt: "nxt \<noteq> NULL_BLOCK_INDEX" "nxt < bc" "nxt \<notin> visited"
    and geo: "length B = unat bc" "length b = unat bs" and add: "unat idx + unat (1 :: u32) < 2 ^ 32"
    and rest: "triple (dev_at bs bc B)
      (chunk_loop oc D db bs b (vc_next_chunk (read_chunk_header b)) (idx + 1) (insert nxt visited)
        (acc @ chunk_payload b) (cbs @ [nxt]))
      (\<lambda>r d. dev_at bs bc B d \<and> loop_result (unat bs) B db (idx + 1) (vc_next_chunk (read_chunk_header b))
        (insert nxt visited) (acc @ chunk_payload b) (cbs @ [nxt]) r)
      (\<lambda>e d. fault e \<and> dev_at bs bc B d)"
  shows "triple (dev_at bs bc B) (chunk_loop oc D db bs buf nxt idx visited acc cbs)
      (\<lambda>r d. dev_at bs bc B d \<and> loop_result (unat bs) B db idx nxt visited acc cbs r)
      (\<lambda>e d. fault e \<and> dev_at bs bc B d)" (is "triple ?P _ ?Q ?E")
proof -
  have body: "triple ?P
      (if chunk_ok (unat bs) db idx b
       then bind_io (lift_io (u32_add oc idx 1)) (\<lambda>idx'. chunk_loop oc D db bs b
         (vc_next_chunk (read_chunk_header b)) idx' (insert nxt visited) (acc @ chunk_payload b) (cbs @ [nxt]))
       else return_io None) ?Q ?E"
  proof (cases "chunk_ok (unat bs) db idx b")
    case True
    have "unat nxt < length B" using nxt(2) geo(1) by (simp add: word_less_nat_alt)
    with True show ?thesis
      using nxt by (auto simp: u32_add_Ok [OF add] b_def intro: triple_conseq [OF rest [unfolded b_def]] loop_result_step)
  next
    case False
    then show ?thesis
      using nxt by (auto simp: b_def intro: triple_return loop_result_None)
  qed
  have range: "(bc \<le> nxt \<or> nxt \<in> visited) = False" using nxt by (simp add: not_le)
  from nxt(1) body show ?thesis
    apply (subst chunk_loop.simps)
    apply (simp only: if_False not_False_eq_True)
    apply (rule triple_asks_bind [where x = bc], erule dev_count)
    apply (simp only: range if_False)
    apply (rule triple_bind_eq [OF dev_read [OF nxt(2) buf]])
    apply (simp only: b_def [symmetric] chunk_loop_step [OF geo(2) assms(2)])
    done
qed

lemma chunk_loop_spec:
  assumes "24 \<le> unat bs"
  shows "length buf = unat bs \<Longrightarrow> visited \<subseteq> {i. i < bc} \<Longrightarrow> card visited = unat idx \<Longrightarrow>
    triple (dev_at bs bc B) (chunk_loop oc D db bs buf nxt idx visited acc cbs)
      (\<lambda>r d. dev_at bs bc B d \<and> loop_result (unat bs) B db idx nxt visited acc cbs r)
      (\<lambda>e d. fault e \<and> dev_at bs bc B d)"
proof (induction "card (- visited)" arbitrary: buf nxt idx visited acc cbs rule: less_induct)
  case less
  show ?case
  proof (rule dev_geometry_assume)
    assume geo: "length B = unat bc" "\<And>i. i < bc \<Longrightarrow> length (B ! unat i) = unat bs"
    consider "nxt = NULL_BLOCK_INDEX" | "nxt \<noteq> NULL_BLOCK_INDEX" "bc \<le> nxt \<or> nxt \<in> visited"
      | "nxt \<noteq> NULL_BLOCK_INDEX" "nxt < bc" "nxt \<notin> visited" by force
    then show ?thesis
    proof cases
      case 1
      then show ?thesis
        by (subst chunk_loop.simps) (auto intro!: triple_return loop_result_end)
    next
      case 2
      then have "loop_result (unat bs) B db idx nxt visited acc cbs None"
        using geo by (intro loop_result_None) (auto simp: word_le_nat_alt)
      with 2 show ?thesis
        by (subst chunk_loop.simps)
          (auto intro!: triple_asks_bind [where x = bc] triple_return dest: dev_count)
    next
      case 3
      note grows = visited_grows [OF less.prems(2,3) 3(2,3)]
      show ?thesis
        by (rule chunk_loop_round [OF assms less.prems(1) 3 geo(1) geo(2) [OF 3(2)] grows(1)], rule less.hyps)
          (use grows 3(2) geo(2) less.prems(2) in auto)
    qed
  qed
qed

end

section \<open>The record of a descriptor block\<close>

lemma chain_blocks:
  "chain bs B owner idx nxt cs v \<Longrightarrow> c \<in> set cs \<Longrightarrow>
   unat c < length B \<and> crc_ok (B ! unat c) \<and> B ! unat c ! 0 = 3 \<and>
   vc_owner_descriptor (read_chunk_header (B ! unat c)) = owner"
  by (induction rule: chain.induct) (auto simp: chunk_ok_def Let_def)

lemma distinct_blocks_length:
  assumes "distinct cs" and "\<And>c. c \<in> set cs \<Longrightarrow> unat (c :: u32) < n"
  shows "length cs \<le> n"
proof -
  have "length cs = card (unat ` set cs)"
    using assms(1) by (subst card_image) (simp_all add: distinct_card inj_on_def word_unat_eq_iff)
  also have "\<dots> \<le> card {..<n}"
    using assms(2) by (intro card_mono) auto
  finally show ?thesis by simp
qed

definition base_record :: "u32 \<Rightarrow> bytes \<Rightarrow> complete_record" where
  "base_record db b = \<lparr>cr_key = desc_key b, cr_generation = rd_generation (read_descriptor_header b),
     cr_descriptor_block = db, cr_header = read_descriptor_header b, cr_chunk_blocks = [],
     cr_value = desc_payload b\<rparr>"

lemma length_desc_payload:
  "desc_ok bs b \<Longrightarrow> length b = bs \<Longrightarrow>
   length (desc_payload b) = unat (rd_first_payload_size (read_descriptor_header b))"
  by (auto simp: desc_ok_def desc_payload_def Let_def)

lemma complete_single:
  assumes "unat db < length B" and "desc_ok bs (B ! unat db)" and "length (B ! unat db) = bs"
    and "rd_chunk_count (read_descriptor_header (B ! unat db)) = 1"
  shows "complete bs B db r \<longleftrightarrow>
    rd_total_size (read_descriptor_header (B ! unat db)) =
      rd_first_payload_size (read_descriptor_header (B ! unat db)) \<and>
    rd_next_chunk (read_descriptor_header (B ! unat db)) = NULL_BLOCK_INDEX \<and>
    r = base_record db (B ! unat db)"
  using assms length_desc_payload [OF assms(2,3)]
  by (cases r)
    (auto simp: complete_def Let_def base_record_def intro: chain_end elim: chain_nilE)

lemma complete_null:
  assumes "rd_chunk_count (read_descriptor_header (B ! unat db)) \<noteq> 1"
    and "rd_next_chunk (read_descriptor_header (B ! unat db)) = NULL_BLOCK_INDEX"
  shows "\<not> complete bs B db r"
proof
  assume "complete bs B db r"
  then have "cr_chunk_blocks r = []"
    and "unat (rd_chunk_count (read_descriptor_header (B ! unat db))) = 1 + length (cr_chunk_blocks r)"
    using assms(2) by (auto simp: complete_def Let_def elim: chain_nullE)
  with assms(1) show False by (simp add: word_unat_eq_iff)
qed

lemma complete_loop:
  assumes "unat db < length B" and "desc_ok bs (B ! unat db)" and "length B < 2 ^ 32"
    and "loop_result bs B db 1 (rd_next_chunk (read_descriptor_header (B ! unat db))) {db}
      (desc_payload (B ! unat db)) [] res"
  shows "complete bs B db r \<longleftrightarrow>
    (\<exists>v cs. res = Some (rd_chunk_count (read_descriptor_header (B ! unat db)), v, cs) \<and>
      word_of_nat (length v) = rd_total_size (read_descriptor_header (B ! unat db)) \<and>
      r = (base_record db (B ! unat db))\<lparr>cr_value := v, cr_chunk_blocks := cs\<rparr>)"
proof -
  let ?h = "read_descriptor_header (B ! unat db)"
  have facts: "db \<notin> set cs \<and> (unat n = 1 + length cs \<longleftrightarrow> n = 1 + word_of_nat (length cs))"
    if ch: "chain bs B db 1 (rd_next_chunk ?h) cs v" and d: "distinct cs" for cs v and n :: u32
  proof -
    have db: "db \<notin> set cs"
      using chain_blocks [OF ch, of db] assms(2) by (auto simp: desc_ok_def Let_def)
    then have "length (db # cs) \<le> length B"
      using d assms(1) chain_blocks [OF ch] by (intro distinct_blocks_length) auto
    then have "1 + length cs < 2 ^ 32" using assms(3) by simp
    then have "unat (1 + word_of_nat (length cs) :: u32) = 1 + length cs"
      using unat_of_nat_u32 [of "1 + length cs"] by simp
    with db show ?thesis by (metis word_unat_eq_iff)
  qed
  show ?thesis
  proof
    assume c: "complete bs B db r"
    then obtain v where ch: "chain bs B db 1 (rd_next_chunk ?h) (cr_chunk_blocks r) v"
      and v: "cr_value r = desc_payload (B ! unat db) @ v" and d: "distinct (cr_chunk_blocks r)"
      by (auto simp: complete_def Let_def)
    have "res = Some (rd_chunk_count ?h, cr_value r, cr_chunk_blocks r)"
      using assms(4) ch d v c facts [OF ch d, of "rd_chunk_count ?h"]
      unfolding loop_result_def by (auto simp: complete_def Let_def)
    moreover have "r = (base_record db (B ! unat db))
        \<lparr>cr_value := cr_value r, cr_chunk_blocks := cr_chunk_blocks r\<rparr>"
      using c by (cases r) (simp add: complete_def Let_def base_record_def)
    ultimately show "\<exists>v cs. res = Some (rd_chunk_count ?h, v, cs) \<and>
        word_of_nat (length v) = rd_total_size ?h \<and>
        r = (base_record db (B ! unat db))\<lparr>cr_value := v, cr_chunk_blocks := cs\<rparr>"
      using c by (intro exI [of _ "cr_value r"] exI [of _ "cr_chunk_blocks r"])
        (simp add: complete_def Let_def)
  next
    assume "\<exists>v cs. res = Some (rd_chunk_count ?h, v, cs) \<and>
        word_of_nat (length v) = rd_total_size ?h \<and>
        r = (base_record db (B ! unat db))\<lparr>cr_value := v, cr_chunk_blocks := cs\<rparr>"
    then obtain v cs where res: "res = Some (rd_chunk_count ?h, v, cs)"
      and v: "word_of_nat (length v) = rd_total_size ?h"
      and r: "r = (base_record db (B ! unat db))\<lparr>cr_value := v, cr_chunk_blocks := cs\<rparr>" by blast
    from assms(4) [unfolded loop_result_def, rule_format, of "rd_chunk_count ?h" v cs] res
    obtain w where ch: "chain bs B db 1 (rd_next_chunk ?h) cs w"
      and d: "distinct cs" and n: "rd_chunk_count ?h = 1 + word_of_nat (length cs)"
      and w: "v = desc_payload (B ! unat db) @ w"
      by auto
    then show "complete bs B db r"
      using assms(1,2) r v facts [OF ch d, of "rd_chunk_count ?h"]
      by (auto simp: complete_def Let_def base_record_def)
  qed
qed

text \<open>The checks on the descriptor block, on a block of the right size.\<close>

lemma verify_head:
  assumes "length buf = unat bs" and "36 \<le> unat bs"
  shows "bind_io (lift_io (get_byte 0 buf)) (\<lambda>t.
      if t \<noteq> BLOCK_TYPE_RECORD_DESCRIPTOR then return_io None
      else
      bind_io (lift_io (unmarshal_descriptor_header oc buf)) (\<lambda>(hdr, ok).
      if \<not> ok then return_io None
      else if ucast (rd_header_size hdr) \<noteq> RECORD_DESCRIPTOR_HEADER_SIZE then return_io None
      else
      bind_io (lift_io (bind_o (u32_sub oc bs RECORD_DESCRIPTOR_HEADER_SIZE)
         (\<lambda>a. u32_sub oc a BLOCK_CRC_SIZE))) (\<lambda>key_limit.
      if key_limit < ucast (rd_key_size hdr) then return_io None
      else
      bind_io (lift_io (first_payload_capacity oc bs (ucast (rd_key_size hdr)))) (\<lambda>first_payload_cap.
      if first_payload_cap < rd_first_payload_size hdr then return_io None
      else if rd_chunk_count hdr = 0 then return_io None
      else
      let key_start = unat RECORD_DESCRIPTOR_HEADER_SIZE;
          key_end = key_start + unat (rd_key_size hdr) in
      bind_io (lift_io (slice_range key_start key_end buf)) (\<lambda>key.
      let payload_start = key_end;
          payload_end = payload_start + unat (rd_first_payload_size hdr) in
      bind_io (lift_io (slice_range payload_start payload_end buf)) (\<lambda>val. k hdr key val)))))) =
    (if desc_ok (unat bs) buf then k (read_descriptor_header buf) (desc_key buf) (desc_payload buf)
     else return_io None)"
proof -
  let ?h = "read_descriptor_header buf"
  have buf: "buf \<noteq> []" using assms by auto
  have le: "32 \<le> bs" "4 \<le> bs - 32"
    using assms(2) by (simp_all add: word_le_nat_alt unat_sub)
  have limit: "bind_o (u32_sub oc bs 32) (\<lambda>a. u32_sub oc a 4) = Ok (bs - 36)"
    using le by (simp add: u32_sub_Ok)
  have "unat (bs - 32 - 4) = unat bs - 36"
    by (simp only: unat_sub [OF le(2)] unat_sub [OF le(1)]) simp
  then have unat_limit: "unat (bs - 36) = unat bs - 36" by simp
  have key: "bs - 36 < ucast (rd_key_size ?h) \<longleftrightarrow> \<not> 36 + unat (rd_key_size ?h) \<le> unat bs"
    using assms(2) unat_limit by (simp only: word_less_nat_alt unat_ucast_u16) auto
  show ?thesis
  proof (cases "36 + unat (rd_key_size ?h) \<le> unat bs")
    case True
    then obtain cap where cap: "first_payload_capacity oc bs (ucast (rd_key_size ?h)) = Ok cap"
        "unat cap = unat bs - 36 - unat (rd_key_size ?h)"
      using first_payload_capacity_Ok [of "ucast (rd_key_size ?h)" bs] by auto
    have lt: "cap < w \<longleftrightarrow> \<not> 36 + unat (rd_key_size ?h) + unat w \<le> unat bs" for w
      using cap(2) True by (auto simp: word_less_nat_alt)
    from True buf assms show ?thesis
      by (auto simp: get_byte_Ok unmarshal_descriptor_header_Ok limit key cap lt header_size_32
          slice_range_Ok desc_ok_def desc_key_def desc_payload_def Let_def layout_simps)
  next
    case False
    with buf assms show ?thesis
      by (auto simp: get_byte_Ok unmarshal_descriptor_header_Ok limit key header_size_32
          desc_ok_def Let_def layout_simps)
  qed
qed

context device_contract
begin

text \<open>What follows the checks on the descriptor block \<open>b\<close>.\<close>

lemma verify_tail:
  fixes B db
  defines "b \<equiv> B ! unat db" and "h \<equiv> read_descriptor_header (B ! unat db)"
  assumes bs: "36 \<le> unat bs" and db: "db < bc" and ok: "desc_ok (unat bs) b"
    and geo: "unat db < length B" "length b = unat bs" "length B < 2 ^ 32"
  shows "triple (dev_at bs bc B)
    (if rd_chunk_count h = 1 then
       (if rd_total_size h \<noteq> rd_first_payload_size h \<or> rd_next_chunk h \<noteq> NULL_BLOCK_INDEX
        then return_io None else return_io (Some (base_record db b)))
     else if rd_next_chunk h = NULL_BLOCK_INDEX then return_io None
     else
     bind_io (chunk_loop oc D db bs (replicate (unat bs) 0) (rd_next_chunk h) 1 {db} (desc_payload b) []) (\<lambda>res.
     case res of None \<Rightarrow> return_io None
     | Some (idx, v, cs) \<Rightarrow>
         if idx \<noteq> rd_chunk_count h then return_io None
         else if word_of_nat (length v) \<noteq> rd_total_size h then return_io None
         else return_io (Some ((base_record db b)\<lparr>cr_value := v, cr_chunk_blocks := cs\<rparr>))))
    (\<lambda>r d. dev_at bs bc B d \<and> (\<forall>rec. r = Some rec \<longleftrightarrow> complete (unat bs) B db rec))
    (\<lambda>e d. fault e \<and> dev_at bs bc B d)" (is "triple ?P _ ?Q ?E")
proof -
  note ok = ok [unfolded b_def] and len = geo(2) [unfolded b_def]
  consider "rd_chunk_count h = 1" | "rd_chunk_count h \<noteq> 1" "rd_next_chunk h = NULL_BLOCK_INDEX"
    | "rd_chunk_count h \<noteq> 1" "rd_next_chunk h \<noteq> NULL_BLOCK_INDEX" by blast
  then show ?thesis
  proof cases
    case 1
    with ok show ?thesis
      using complete_single [OF geo(1) ok len 1 [unfolded h_def]] by (auto simp: b_def h_def intro!: triple_return)
  next
    case 2
    then show ?thesis
      using complete_null [OF 2 [unfolded h_def]] by (auto intro!: triple_return)
  next
    case 3
    have loop: "triple ?P (chunk_loop oc D db bs (replicate (unat bs) 0) (rd_next_chunk h) 1 {db} (desc_payload b) [])
        (\<lambda>res d. ?P d \<and> loop_result (unat bs) B db 1 (rd_next_chunk h) {db} (desc_payload b) [] res) ?E"
      using bs db by (intro chunk_loop_spec) auto
    from ok 3 show ?thesis
      using complete_loop [OF geo(1) ok geo(3), folded b_def h_def]
      by (auto intro!: triple_bind [OF loop] triple_return split: option.split)
  qed
qed

text \<open>The record returned is the complete record of the descriptor block, if there is one.\<close>

lemma verify_and_read_record_spec:
  assumes bs: "36 \<le> unat bs" and db: "db < bc"
  shows "triple (dev_at bs bc B) (verify_and_read_record oc D db)
    (\<lambda>r d. dev_at bs bc B d \<and> (\<forall>rec. r = Some rec \<longleftrightarrow> complete (unat bs) B db rec))
    (\<lambda>e d. fault e \<and> dev_at bs bc B d)"
proof (rule dev_geometry_assume)
  assume geo: "length B = unat bc" "\<And>i. i < bc \<Longrightarrow> length (B ! unat i) = unat bs"
  have r: "unat db < length B" "length (B ! unat db) = unat bs" "length B < 2 ^ 32"
    using geo(1) geo(2) [OF db] db unat_u32_less [of bc] by (simp_all add: word_less_nat_alt)
  note tail = verify_tail [OF bs db _ r, where oc = oc, unfolded base_record_def]
  have none: "\<not> complete (unat bs) B db rec" if "\<not> desc_ok (unat bs) (B ! unat db)" for rec
    using that by (simp add: complete_def Let_def)
  show ?thesis
    unfolding verify_and_read_record_def
    apply (rule triple_asks_bind [where x = bs], erule dev_size)
    apply (rule triple_bind_eq [OF dev_read [OF db length_replicate]])
    apply (simp only: verify_head [OF r(2) bs])
    apply (cases "desc_ok (unat bs) (B ! unat db)")
     apply (insert tail, simp only: if_True Let_def)
    apply (auto intro: triple_return dest: none)
    done
qed

end

end
