(* ===== verification/Ekv_Utf8.thy ===== *)
theory Ekv_Utf8
  imports Ekv_Prelude
begin

text \<open>
  \<^verbatim>\<open>String::from_utf8_lossy\<close> of the standard library, which turns every key into the string the
  index is keyed by. A string is represented by its UTF-8 bytes. Every maximal prefix of an ill-formed
  sequence becomes the replacement character U+FFFD.
\<close>

section \<open>Decoding one character\<close>

definition utf8_cont :: "u8 \<Rightarrow> bool" where
  "utf8_cont b \<longleftrightarrow> 0x80 \<le> b \<and> b \<le> 0xBF"

definition safe_get :: "bytes \<Rightarrow> nat \<Rightarrow> u8" where
  "safe_get s i = (if i < length s then s ! i else 0)"

definition utf8_second3 :: "u8 \<Rightarrow> u8 \<Rightarrow> bool" where
  "utf8_second3 a b \<longleftrightarrow>
     a = 0xE0 \<and> 0xA0 \<le> b \<and> b \<le> 0xBF \<or>
     0xE1 \<le> a \<and> a \<le> 0xEC \<and> 0x80 \<le> b \<and> b \<le> 0xBF \<or>
     a = 0xED \<and> 0x80 \<le> b \<and> b \<le> 0x9F \<or>
     0xEE \<le> a \<and> a \<le> 0xEF \<and> 0x80 \<le> b \<and> b \<le> 0xBF"

definition utf8_second4 :: "u8 \<Rightarrow> u8 \<Rightarrow> bool" where
  "utf8_second4 a b \<longleftrightarrow>
     a = 0xF0 \<and> 0x90 \<le> b \<and> b \<le> 0xBF \<or>
     0xF1 \<le> a \<and> a \<le> 0xF3 \<and> 0x80 \<le> b \<and> b \<le> 0xBF \<or>
     a = 0xF4 \<and> 0x80 \<le> b \<and> b \<le> 0x8F"

text \<open>
  How many bytes the decoder consumes at the front of a non-empty input, and whether they are a
  well-formed character.
\<close>

definition utf8_step :: "bytes \<Rightarrow> nat \<times> bool" where
  "utf8_step s = (let a = safe_get s 0 in
     if a < 0x80 then (1, True)
     else if 0xC2 \<le> a \<and> a \<le> 0xDF then
       (if utf8_cont (safe_get s 1) then (2, True) else (1, False))
     else if 0xE0 \<le> a \<and> a \<le> 0xEF then
       (if utf8_second3 a (safe_get s 1) then
          (if utf8_cont (safe_get s 2) then (3, True) else (2, False))
        else (1, False))
     else if 0xF0 \<le> a \<and> a \<le> 0xF4 then
       (if utf8_second4 a (safe_get s 1) then
          (if utf8_cont (safe_get s 2) then
             (if utf8_cont (safe_get s 3) then (4, True) else (3, False))
           else (2, False))
        else (1, False))
     else (1, False))"

lemma utf8_step_pos: "0 < fst (utf8_step s)"
  by (simp add: utf8_step_def Let_def)

function from_utf8_lossy :: "bytes \<Rightarrow> bytes" where
  "from_utf8_lossy s =
     (if s = [] then []
      else let (n, ok) = utf8_step s in
        (if ok then take n s else [0xEF, 0xBF, 0xBD]) @ from_utf8_lossy (drop n s))"
  by pat_completeness auto
termination
proof (relation "measure length", goal_cases)
  case (2 s p n ok)
  then have "0 < n" using utf8_step_pos [of s] by (metis fst_conv)
  with 2 show ?case by (cases s) simp_all
qed simp

declare from_utf8_lossy.simps [simp del]

function utf8_valid :: "bytes \<Rightarrow> bool" where
  "utf8_valid s =
     (if s = [] then True
      else let (n, ok) = utf8_step s in ok \<and> utf8_valid (drop n s))"
  by pat_completeness auto
termination
proof (relation "measure length", goal_cases)
  case (2 s p n ok)
  then have "0 < n" using utf8_step_pos [of s] by (metis fst_conv)
  with 2 show ?case by (cases s) simp_all
qed simp

declare utf8_valid.simps [simp del]

section \<open>Well-formed input is unchanged, and the result is always well formed\<close>

lemma from_utf8_lossy_Nil [simp]: "from_utf8_lossy [] = []"
  by (simp add: from_utf8_lossy.simps)

lemma from_utf8_lossy_valid: "utf8_valid s \<Longrightarrow> from_utf8_lossy s = s"
proof (induction s rule: utf8_valid.induct)
  case (1 s)
  show ?case
  proof (cases "s = []")
    case False
    obtain n ok where st: "utf8_step s = (n, ok)" by force
    have "utf8_valid s \<longleftrightarrow> ok \<and> utf8_valid (drop n s)"
      using False st by (subst utf8_valid.simps) simp
    with "1.prems" have ok: ok "utf8_valid (drop n s)" by simp_all
    then have "from_utf8_lossy (drop n s) = drop n s"
      using "1.IH" False st by simp
    with ok False st show ?thesis
      by (subst from_utf8_lossy.simps) simp
  qed simp
qed

text \<open>A well-formed character is recognised whatever follows it.\<close>

lemma utf8_step_local:
  assumes "utf8_step s = (n, True)" and "s \<noteq> []"
  shows "n \<le> length s \<and> utf8_step (take n s @ rest) = (n, True)"
proof -
  obtain a r where s: "s = a # r" using assms(2) by (cases s) auto
  have nz: "\<not> utf8_cont 0" by (simp add: utf8_cont_def)
  have get: "k < length s" if "utf8_cont (safe_get s k)" for k
    using that nz by (auto simp: safe_get_def split: if_splits)
  from assms(1) consider "n = 1" "a < 0x80"
    | "n = 2" "\<not> a < 0x80" "0xC2 \<le> a \<and> a \<le> 0xDF" "utf8_cont (safe_get s 1)"
    | "n = 3" "\<not> a < 0x80" "\<not> (0xC2 \<le> a \<and> a \<le> 0xDF)" "0xE0 \<le> a \<and> a \<le> 0xEF"
      "utf8_second3 a (safe_get s 1)" "utf8_cont (safe_get s 2)"
    | "n = 4" "\<not> a < 0x80" "\<not> (0xC2 \<le> a \<and> a \<le> 0xDF)" "\<not> (0xE0 \<le> a \<and> a \<le> 0xEF)"
      "0xF0 \<le> a \<and> a \<le> 0xF4" "utf8_second4 a (safe_get s 1)" "utf8_cont (safe_get s 2)"
      "utf8_cont (safe_get s 3)"
    by (auto simp: utf8_step_def Let_def s safe_get_def split: if_splits)
  then show ?thesis
  proof cases
    case 1
    then show ?thesis by (simp add: s utf8_step_def Let_def safe_get_def)
  next
    case 2
    then obtain b t where "r = b # t" using get [of 1] s by (cases r) auto
    with 2 show ?thesis by (auto simp: s utf8_step_def Let_def safe_get_def)
  next
    case 3
    then obtain b c t where "r = b # c # t"
      using get [of 2] s by (cases r; cases "tl r") auto
    with 3 show ?thesis by (auto simp: s utf8_step_def Let_def safe_get_def)
  next
    case 4
    then obtain b c d t where "r = b # c # d # t"
      using get [of 3] s by (cases r; cases "tl r"; cases "tl (tl r)") auto
    with 4 show ?thesis by (auto simp: s utf8_step_def Let_def safe_get_def)
  qed
qed

lemma utf8_valid_step:
  assumes "utf8_step c = (length c, True)" and "c \<noteq> []" and "utf8_valid rest"
  shows "utf8_valid (c @ rest)"
proof -
  have "utf8_step (c @ rest) = (length c, True)"
    using utf8_step_local [OF assms(1,2), of rest] by simp
  then show ?thesis
    using assms(2,3) by (subst utf8_valid.simps) simp
qed

lemma utf8_valid_lossy: "utf8_valid (from_utf8_lossy s)"
proof (induction s rule: from_utf8_lossy.induct)
  case (1 s)
  show ?case
  proof (cases "s = []")
    case True
    then show ?thesis by (simp add: utf8_valid.simps)
  next
    case False
    obtain n ok where st: "utf8_step s = (n, ok)" by force
    let ?c = "if ok then take n s else [0xEF, 0xBF, 0xBD]"
    have IH: "utf8_valid (from_utf8_lossy (drop n s))" using "1.IH" False st by simp
    have c: "utf8_step ?c = (length ?c, True)"
    proof (cases ok)
      case True
      then show ?thesis using utf8_step_local [of s n "[]"] st False by simp
    next
      case False
      then show ?thesis
        by (simp add: utf8_step_def Let_def safe_get_def utf8_second3_def utf8_cont_def)
    qed
    have "?c \<noteq> []" using False utf8_step_pos [of s] st by simp
    then have "utf8_valid (?c @ from_utf8_lossy (drop n s))"
      using utf8_valid_step [OF c] IH by blast
    then show ?thesis
      using False st by (subst from_utf8_lossy.simps) simp
  qed
qed

section \<open>The index key of a key\<close>

text \<open>\<^verbatim>\<open>let key_str = String::from_utf8_lossy(key).into_owned();\<close>\<close>

definition key_str :: "bytes \<Rightarrow> bytes" where
  "key_str key = from_utf8_lossy key"

section \<open>Properties\<close>


end
