(* ===== verification/Ekv_Index.thy ===== *)
theory Ekv_Index
  imports Ekv_Utf8 "HOL-Library.AList"
begin

text \<open>
  The in-memory index, \<^verbatim>\<open>rust/src/index.rs\<close>. A \<^verbatim>\<open>HashMap\<close> is an association list with distinct
  keys; the order of its entries stands for the unspecified order of iteration, on which no result
  depends. The locale \<open>keyed_records\<close> is what the scans of the store rely on: a table from index
  keys to records that keeps the newest record per key. It is interpreted on the index and on the
  table that recovery builds.
\<close>

section \<open>The code\<close>

record index_entry =
  ie_key :: bytes
  ie_generation :: u32
  ie_descriptor_block :: u32
  ie_total_size :: u32

record mem_index =
  mi_entries :: "(bytes \<times> index_entry) list"

definition mi_new :: mem_index where
  "mi_new = \<lparr>mi_entries = []\<rparr>"

definition mi_put :: "index_entry \<Rightarrow> mem_index \<Rightarrow> mem_index" where
  "mi_put entry m = m\<lparr>mi_entries := AList.update (ie_key entry) entry (mi_entries m)\<rparr>"

definition mi_get :: "mem_index \<Rightarrow> bytes \<Rightarrow> index_entry option" where
  "mi_get m key = map_of (mi_entries m) key"

definition mi_delete :: "bytes \<Rightarrow> mem_index \<Rightarrow> mem_index" where
  "mi_delete key m = m\<lparr>mi_entries := AList.delete key (mi_entries m)\<rparr>"

definition mi_all_entries :: "mem_index \<Rightarrow> index_entry list" where
  "mi_all_entries m = map snd (mi_entries m)"

definition mi_len :: "mem_index \<Rightarrow> nat" where
  "mi_len m = length (mi_entries m)"

definition mi_is_empty :: "mem_index \<Rightarrow> bool" where
  "mi_is_empty m \<longleftrightarrow> mi_entries m = []"

section \<open>The invariant and the laws of the operations\<close>

definition mi_inv :: "mem_index \<Rightarrow> bool" where
  "mi_inv m \<longleftrightarrow> distinct (map fst (mi_entries m)) \<and> (\<forall>(k, e) \<in> set (mi_entries m). ie_key e = k)"

lemma mi_get_map: "mi_get m = map_of (mi_entries m)"
  by (simp add: mi_get_def fun_eq_iff)

lemma mi_get_new [simp]: "mi_get mi_new k = None"
  by (simp add: mi_get_def mi_new_def)

lemma mi_get_put [simp]: "mi_get (mi_put e m) k = (if k = ie_key e then Some e else mi_get m k)"
  by (simp add: mi_get_def mi_put_def update_conv')

lemma mi_get_delete [simp]: "mi_get (mi_delete k' m) k = (if k = k' then None else mi_get m k)"
  by (simp add: mi_get_def mi_delete_def delete_conv')

lemma mi_inv_new [simp]: "mi_inv mi_new"
  by (simp add: mi_inv_def mi_new_def)

lemma mi_inv_alt:
  "mi_inv m \<longleftrightarrow>
   distinct (map fst (mi_entries m)) \<and> (\<forall>k e. mi_get m k = Some e \<longrightarrow> ie_key e = k)"
  unfolding mi_inv_def mi_get_def by (auto dest: map_of_SomeD)

lemma mi_inv_put [simp]: "mi_inv m \<Longrightarrow> mi_inv (mi_put e m)"
  unfolding mi_inv_alt mi_get_put by (simp add: mi_put_def distinct_update)

lemma mi_inv_delete [simp]: "mi_inv m \<Longrightarrow> mi_inv (mi_delete k m)"
  unfolding mi_inv_alt mi_get_delete by (simp add: mi_delete_def distinct_delete)

lemma mi_all_entries_get:
  "mi_inv m \<Longrightarrow> e \<in> set (mi_all_entries m) \<longleftrightarrow> mi_get m (ie_key e) = Some e"
  by (force simp: mi_inv_def mi_all_entries_def mi_get_def)

lemma mi_get_key: "mi_inv m \<Longrightarrow> mi_get m k = Some e \<Longrightarrow> ie_key e = k"
  by (auto simp: mi_inv_def mi_get_def dest!: map_of_SomeD)

section \<open>Keeping the newest record per key\<close>

text \<open>The first element with the highest generation.\<close>

fun newest :: "('r \<Rightarrow> u32) \<Rightarrow> 'r option \<Rightarrow> 'r list \<Rightarrow> 'r option" where
  "newest gen best [] = best"
| "newest gen best (r # rs) =
     newest gen (case best of None \<Rightarrow> Some r | Some ex \<Rightarrow> if gen ex < gen r then Some r else Some ex) rs"

lemma newest_Some_start: "\<exists>x. newest gen (Some r) rs = Some x"
  by (induction rs arbitrary: r) simp_all

lemma newest_None [simp]: "newest gen None rs = None \<longleftrightarrow> rs = []"
  using newest_Some_start [of gen "hd rs" "tl rs"] by (cases rs) auto

lemma newest_max:
  "newest gen b rs = Some x \<Longrightarrow>
   (x \<in> set rs \<or> b = Some x) \<and> (\<forall>y \<in> set rs. gen y \<le> gen x) \<and> (\<forall>y. b = Some y \<longrightarrow> gen y \<le> gen x)"
proof (induction rs arbitrary: b)
  case (Cons r rs)
  then show ?case
    by (cases b) (fastforce split: if_splits)+
qed simp

lemma newest_append:
  "newest gen b (rs @ rs') = newest gen (newest gen b rs) rs'"
  by (induction rs arbitrary: b) simp_all

lemma newest_dominant:
  assumes "x \<in> set rs" and "\<And>y. y \<in> set rs \<Longrightarrow> y \<noteq> x \<Longrightarrow> gen y < gen x"
  shows "newest gen None rs = Some x"
proof -
  have "rs \<noteq> []" using assms(1) by auto
  then obtain z where z: "newest gen None rs = Some z" by force
  have "z = x"
  proof (rule ccontr)
    assume "z \<noteq> x"
    moreover have "z \<in> set rs" and "gen x \<le> gen z"
      using newest_max [OF z] assms(1) by auto
    ultimately show False using assms(2) [of z] by simp
  qed
  with z show ?thesis by simp
qed

text \<open>The newest element is the first of the highest generation, so it survives a filter.\<close>

lemma newest_split:
  "newest gen (Some b) rs = Some x \<Longrightarrow>
   (x = b \<and> (\<forall>y \<in> set rs. gen y \<le> gen b)) \<or>
   (\<exists>ys zs. rs = ys @ x # zs \<and> gen b < gen x \<and> (\<forall>y \<in> set ys. gen y < gen x) \<and> (\<forall>z \<in> set zs. gen z \<le> gen x))"
proof (induction rs arbitrary: b)
  case (Cons r rs)
  show ?case
  proof (cases "gen b < gen r")
    case True
    with Cons.prems have "newest gen (Some r) rs = Some x" by simp
    from Cons.IH [OF this] show ?thesis
    proof (elim disjE exE conjE)
      assume "x = r" and "\<forall>y \<in> set rs. gen y \<le> gen r"
      with True show ?thesis by (intro disjI2 exI [of _ "[]"] exI [of _ rs]) simp
    next
      fix ys zs
      assume "rs = ys @ x # zs" "gen r < gen x" "\<forall>y \<in> set ys. gen y < gen x"
        "\<forall>z \<in> set zs. gen z \<le> gen x"
      with True show ?thesis by (intro disjI2 exI [of _ "r # ys"] exI [of _ zs]) auto
    qed
  next
    case False
    with Cons.prems have "newest gen (Some b) rs = Some x" by simp
    from Cons.IH [OF this] show ?thesis
    proof (elim disjE exE conjE)
      assume "x = b" and "\<forall>y \<in> set rs. gen y \<le> gen b"
      with False show ?thesis by (intro disjI1) auto
    next
      fix ys zs
      assume "rs = ys @ x # zs" "gen b < gen x" "\<forall>y \<in> set ys. gen y < gen x"
        "\<forall>z \<in> set zs. gen z \<le> gen x"
      with False show ?thesis by (intro disjI2 exI [of _ "r # ys"] exI [of _ zs]) auto
    qed
  qed
qed simp

lemma newest_keeps:
  "\<forall>z \<in> set zs. gen z \<le> gen x \<Longrightarrow> newest gen (Some x) zs = Some x"
  by (induction zs) auto

lemma newest_first:
  assumes "\<forall>y \<in> set ys. gen y < gen x" and "\<forall>z \<in> set zs. gen z \<le> gen x"
  shows "newest gen None (ys @ x # zs) = Some x"
proof (cases "newest gen None ys")
  case None
  with assms(2) show ?thesis by (simp add: newest_append newest_keeps)
next
  case (Some b)
  then have "gen b < gen x" using newest_max [OF Some] assms(1) by auto
  with Some assms(2) show ?thesis by (simp add: newest_append newest_keeps)
qed

lemma newest_filter:
  assumes "newest gen None rs = Some x" and "P x"
  shows "newest gen None (filter P rs) = Some x"
proof -
  obtain r rs' where rs: "rs = r # rs'" using assms(1) by (cases rs) auto
  with assms(1) have "newest gen (Some r) rs' = Some x" by simp
  from newest_split [OF this]
  have "\<exists>ys zs. rs = ys @ x # zs \<and> (\<forall>y \<in> set ys. gen y < gen x) \<and> (\<forall>z \<in> set zs. gen z \<le> gen x)"
  proof (elim disjE exE conjE)
    assume "x = r" and "\<forall>y \<in> set rs'. gen y \<le> gen r"
    with rs show ?thesis by (intro exI [of _ "[]"] exI [of _ rs']) simp
  next
    fix ys zs
    assume "rs' = ys @ x # zs" "gen r < gen x" "\<forall>y \<in> set ys. gen y < gen x"
      "\<forall>z \<in> set zs. gen z \<le> gen x"
    with rs show ?thesis by (intro exI [of _ "r # ys"] exI [of _ zs]) auto
  qed
  then obtain ys zs where "rs = ys @ x # zs" "\<forall>y \<in> set ys. gen y < gen x"
    "\<forall>z \<in> set zs. gen z \<le> gen x" by blast
  with assms(2) newest_first [of "filter P ys" gen x "filter P zs"] show ?thesis by simp
qed

locale keyed_records =
  fixes tget :: "'t \<Rightarrow> bytes \<Rightarrow> 'r option"
    and tput :: "bytes \<Rightarrow> 'r \<Rightarrow> 't \<Rightarrow> 't"
    and gen :: "'r \<Rightarrow> u32"
    and tinv :: "'t \<Rightarrow> bool"
    and fits :: "bytes \<Rightarrow> 'r \<Rightarrow> bool"
  assumes tget_tput: "tinv t \<Longrightarrow> fits k r \<Longrightarrow> tget (tput k r t) k' = (if k' = k then Some r else tget t k')"
    and tinv_tput: "tinv t \<Longrightarrow> fits k r \<Longrightarrow> tinv (tput k r t)"
begin

text \<open>One step of a scan: insert the record unless the table has one at least as new.\<close>

lemma keep_newest_step:
  assumes "tinv t" and "fits k r" and "tget t k' = newest gen None (map snd (filter (\<lambda>p. fst p = k') ps))"
    and "t' = (if (case tget t k of None \<Rightarrow> True | Some ex \<Rightarrow> gen ex < gen r) then tput k r t else t)"
    and "tget t k = newest gen None (map snd (filter (\<lambda>p. fst p = k) ps))"
  shows "tinv t' \<and> tget t' k' = newest gen None (map snd (filter (\<lambda>p. fst p = k') (ps @ [(k, r)])))"
  using assms by (auto simp: newest_append tget_tput tinv_tput split: option.splits if_splits)

end

text \<open>The index under the put of an entry with its own key.\<close>

interpretation idx: keyed_records mi_get "\<lambda>k e m. mi_put e m" ie_generation mi_inv
    "\<lambda>k e. ie_key e = k"
  by unfold_locales auto

text \<open>A \<^verbatim>\<open>HashMap<String, V>\<close> on its own, as recovery uses it.\<close>

interpretation hm: keyed_records "map_of" "AList.update" gen "\<lambda>t. distinct (map fst t)" "\<lambda>k r. True"
  for gen
  by unfold_locales (simp_all add: update_conv' distinct_update)

section \<open>Properties\<close>



end
