(* ===== verification/Ekv_Medium.thy ===== *)
theory Ekv_Medium
  imports Ekv_Record Ekv_Index
begin

text \<open>
  The records on a medium, as a theory of lists of blocks. A record depends only on the blocks of
  its footprint, footprints of different records are disjoint, and every block of a footprint is
  live. From this follow the effects on the set of records of the three changes that the store
  makes: writing a new record into free blocks, erasing the blocks of a record, and erasing garbage.
  \<open>latest\<close> is what an index scan has to find: per key the first record of the highest generation.
\<close>

section \<open>Footprints\<close>

definition footprint :: "complete_record \<Rightarrow> u32 set" where
  "footprint r = insert (cr_descriptor_block r) (set (cr_chunk_blocks r))"

lemma unat_in_image [simp]: "unat (c :: u32) \<in> unat ` S \<longleftrightarrow> c \<in> S"
  by (auto simp: image_iff) (metis word_unat_eq_iff)

lemma complete_descriptor_block: "complete bs B db r \<Longrightarrow> cr_descriptor_block r = db"
  by (simp add: complete_def Let_def)

lemma chain_frame:
  "chain bs B owner idx nxt cs v \<Longrightarrow> length B' = length B \<Longrightarrow>
   (\<And>c. c \<in> set cs \<Longrightarrow> B' ! unat c = B ! unat c) \<Longrightarrow> chain bs B' owner idx nxt cs v"
proof (induction rule: chain.induct)
  case (chain_step nxt idx cs v)
  have "B' ! unat nxt = B ! unat nxt" using chain_step.prems by simp
  with chain_step chain.chain_step [of nxt B' bs owner idx cs v] show ?case by simp
qed (rule chain_end)

lemma complete_frame:
  assumes "complete bs B db r" and "length B' = length B"
    and "\<And>c. c \<in> footprint r \<Longrightarrow> B' ! unat c = B ! unat c"
  shows "complete bs B' db r"
proof -
  have db: "B' ! unat db = B ! unat db"
    using complete_descriptor_block [OF assms(1)] assms(3) [of db] by (simp add: footprint_def)
  obtain v where ch: "chain bs B db 1 (rd_next_chunk (read_descriptor_header (B ! unat db)))
      (cr_chunk_blocks r) v" and v: "cr_value r = desc_payload (B ! unat db) @ v"
    using assms(1) by (auto simp: complete_def Let_def)
  have "chain bs B' db 1 (rd_next_chunk (read_descriptor_header (B ! unat db))) (cr_chunk_blocks r) v"
    using ch assms(2) by (rule chain_frame) (simp add: assms(3) footprint_def)
  with v have "\<exists>v. chain bs B' db 1 (rd_next_chunk (read_descriptor_header (B ! unat db)))
      (cr_chunk_blocks r) v \<and> cr_value r = desc_payload (B ! unat db) @ v" by blast
  with assms(1) show ?thesis
    unfolding complete_def Let_def db assms(2) by simp
qed

lemma complete_block_kind:
  assumes "complete bs B db r" and "c \<in> footprint r"
  shows "unat c < length B" and "crc_ok (B ! unat c)"
    and "B ! unat c ! 0 = 2 \<and> c = db \<or>
      B ! unat c ! 0 = 3 \<and> vc_owner_descriptor (read_chunk_header (B ! unat c)) = db"
proof -
  obtain v where ch: "chain bs B db 1 (rd_next_chunk (read_descriptor_header (B ! unat db)))
      (cr_chunk_blocks r) v"
    using assms(1) by (auto simp: complete_def Let_def)
  have "c = db \<or> c \<in> set (cr_chunk_blocks r)"
    using assms(2) complete_descriptor_block [OF assms(1)] by (auto simp: footprint_def)
  then show "unat c < length B" and "crc_ok (B ! unat c)"
    and "B ! unat c ! 0 = 2 \<and> c = db \<or>
      B ! unat c ! 0 = 3 \<and> vc_owner_descriptor (read_chunk_header (B ! unat c)) = db"
    using assms(1) chain_blocks [OF ch, of c] by (auto simp: complete_def desc_ok_def Let_def)
qed

lemma complete_live:
  assumes "complete bs B db r" and "c \<in> footprint r"
  shows "live_block (B ! unat c)"
  using complete_block_kind [OF assms] by (auto simp: live_block_def)

lemma footprint_disjoint:
  assumes "complete bs B db r" and "complete bs B db' r'" and "c \<in> footprint r" and "c \<in> footprint r'"
  shows "db' = db \<and> r' = r"
proof -
  have "db' = db"
    using complete_block_kind(3) [OF assms(1,3)] complete_block_kind(3) [OF assms(2,4)] by auto
  with assms(1,2) show ?thesis by (auto dest: complete_deterministic)
qed

section \<open>Changes of the medium\<close>

text \<open>Blocks that are not live add no record.\<close>

lemma complete_dead_change:
  assumes "complete bs B' db r" and "length B' = length B"
    and "\<And>i. i < length B \<Longrightarrow> B' ! i = B ! i \<or> \<not> live_block (B' ! i)"
  shows "complete bs B db r"
proof (rule complete_frame [OF assms(1)])
  fix c
  assume "c \<in> footprint r"
  with assms(1) have "live_block (B' ! unat c)" "unat c < length B'"
    by (auto intro: complete_live complete_block_kind)
  with assms(2,3) show "B ! unat c = B' ! unat c" by metis
qed (simp add: assms)

lemma complete_add:
  assumes "length B' = length B" and new: "complete bs B' db' r'"
    and same: "\<And>i. i < length B \<Longrightarrow> i \<notin> unat ` footprint r' \<Longrightarrow> B' ! i = B ! i"
    and free: "\<And>c. c \<in> footprint r' \<Longrightarrow> \<not> live_block (B ! unat c)"
  shows "complete bs B' db r \<longleftrightarrow> complete bs B db r \<or> db = db' \<and> r = r'"
proof -
  have same': "B' ! unat c = B ! unat c" if "unat c < length B" "c \<notin> footprint r'" for c
    using same [OF that(1)] that(2) by auto
  show ?thesis
  proof (intro iffI; (elim disjE)?)
    assume c: "complete bs B' db r"
    show "complete bs B db r \<or> db = db' \<and> r = r'"
    proof (cases "footprint r \<inter> footprint r' = {}")
      case True
      have "complete bs B db r"
        using c
      proof (rule complete_frame)
        fix x
        assume x: "x \<in> footprint r"
        have "unat x < length B"
          using complete_block_kind(1) [OF c x] assms(1) by simp
        moreover have "x \<notin> footprint r'" using True x by auto
        ultimately show "B ! unat x = B' ! unat x"
          by (rule same' [symmetric])
      qed (simp add: assms(1))
      then show ?thesis ..
    next
      case False
      then obtain x where "x \<in> footprint r" "x \<in> footprint r'" by auto
      with footprint_disjoint [OF new c] show ?thesis by auto
    qed
  next
    assume c: "complete bs B db r"
    show "complete bs B' db r"
    proof (rule complete_frame [OF c assms(1)])
      fix x
      assume x: "x \<in> footprint r"
      with free complete_live [OF c x] have "x \<notin> footprint r'" by auto
      with same' [of x] complete_block_kind(1) [OF c x] show "B' ! unat x = B ! unat x" by simp
    qed
  next
    assume "db = db' \<and> r = r'"
    with new show "complete bs B' db r" by simp
  qed
qed

text \<open>A partial write of a new record leaves the old records, and adds at most the new one.\<close>

lemma complete_partial_add:
  assumes len: "length B' = length B" "length B'' = length B" and new: "complete bs B' db' r'"
    and same: "\<And>i. i < length B \<Longrightarrow> i \<notin> unat ` footprint r' \<Longrightarrow> B' ! i = B ! i"
    and free: "\<And>c. c \<in> footprint r' \<Longrightarrow> \<not> live_block (B ! unat c)"
    and partial: "\<And>i. i < length B \<Longrightarrow> B'' ! i = B ! i \<or>
      i \<in> unat ` footprint r' \<and> (B'' ! i = B' ! i \<or> \<not> live_block (B'' ! i))"
  shows "complete bs B db r \<Longrightarrow> complete bs B'' db r"
    and "complete bs B'' db r \<Longrightarrow> complete bs B db r \<or> db = db' \<and> r = r'"
proof -
  show "complete bs B'' db r" if c: "complete bs B db r"
  proof (rule complete_frame [OF c len(2)])
    fix x
    assume x: "x \<in> footprint r"
    have "x \<notin> footprint r'"
      using free complete_live [OF c x] by auto
    then have "unat x \<notin> unat ` footprint r'" by simp
    with partial [OF complete_block_kind(1) [OF c x]] show "B'' ! unat x = B ! unat x" by auto
  qed
  show "complete bs B db r \<or> db = db' \<and> r = r'" if c: "complete bs B'' db r"
  proof -
    have "complete bs B' db r"
    proof (rule complete_dead_change [OF c])
      fix i
      assume "i < length B'"
      then have i: "i < length B" using len by simp
      show "B'' ! i = B' ! i \<or> \<not> live_block (B'' ! i)"
      proof (cases "i \<in> unat ` footprint r'")
        case True
        then show ?thesis using partial [OF i] free by auto
      next
        case False
        then show ?thesis using partial [OF i] same [OF i] by auto
      qed
    qed (simp add: len)
    with complete_add [OF len(1) new same free] show ?thesis by blast
  qed
qed

text \<open>Erasing the descriptor of a record, and any other blocks of it, removes just that record.\<close>

lemma complete_remove:
  assumes len: "length B' = length B" and old: "complete bs B db' r'"
    and dead: "\<not> live_block (B' ! unat db')"
    and change: "\<And>i. i < length B \<Longrightarrow> B' ! i = B ! i \<or> i \<in> unat ` footprint r' \<and> \<not> live_block (B' ! i)"
  shows "complete bs B' db r \<longleftrightarrow> complete bs B db r \<and> db \<noteq> db'"
proof
  assume c: "complete bs B' db r"
  then have "complete bs B db r"
    using len by (rule complete_dead_change) (use change in blast)
  moreover have "db \<noteq> db'"
    using complete_live [OF c, of db] complete_descriptor_block [OF c] dead
    by (auto simp: footprint_def)
  ultimately show "complete bs B db r \<and> db \<noteq> db'" ..
next
  assume c: "complete bs B db r \<and> db \<noteq> db'"
  show "complete bs B' db r"
  proof (rule complete_frame [OF conjunct1 [OF c] len])
    fix x
    assume x: "x \<in> footprint r"
    have "x \<notin> footprint r'"
      using footprint_disjoint [OF old conjunct1 [OF c] _ x] c by auto
    then have "unat x \<notin> unat ` footprint r'" by simp
    with change [OF complete_block_kind(1) [OF conjunct1 [OF c] x]] show "B' ! unat x = B ! unat x"
      by auto
  qed
qed

section \<open>The latest record of a key\<close>

definition record_at :: "nat \<Rightarrow> bytes list \<Rightarrow> u32 \<Rightarrow> complete_record option" where
  "record_at bs B i = (if \<exists>r. complete bs B i r then Some (THE r. complete bs B i r) else None)"

lemma record_at_Some: "record_at bs B i = Some r \<longleftrightarrow> complete bs B i r"
proof -
  have "(THE r. complete bs B i r) = r" if "complete bs B i r" for r
    using that complete_deterministic by blast
  then show ?thesis by (auto simp: record_at_def)
qed

lemma record_at_None: "record_at bs B i = None \<longleftrightarrow> (\<forall>r. \<not> complete bs B i r)"
  by (simp add: record_at_def)

definition records_in :: "nat \<Rightarrow> bytes list \<Rightarrow> u32 list \<Rightarrow> complete_record list" where
  "records_in bs B is = List.map_filter (record_at bs B) is"

lemma records_in_simps [simp]:
  "records_in bs B [] = []"
  "records_in bs B (i # is) =
     (case record_at bs B i of None \<Rightarrow> records_in bs B is | Some r \<Rightarrow> r # records_in bs B is)"
  by (simp_all add: records_in_def List.map_filter_simps split: option.split)

lemma records_in_append [simp]: "records_in bs B (is @ js) = records_in bs B is @ records_in bs B js"
  by (induction "is") (simp_all split: option.split)

lemma set_records_in: "set (records_in bs B is) = {r. \<exists>i \<in> set is. complete bs B i r}"
proof (induction "is")
  case (Cons i "is")
  show ?case
  proof (cases "record_at bs B i")
    case None
    then have "\<not> complete bs B i r" for r by (simp add: record_at_None)
    with None Cons show ?thesis by simp
  next
    case (Some r)
    then have "complete bs B i r' \<longleftrightarrow> r' = r" for r'
      by (auto simp: record_at_Some dest: complete_deterministic)
    with Some Cons show ?thesis by auto
  qed
qed simp

text \<open>The range \<^verbatim>\<open>1..block_count\<close>.\<close>

definition data_blocks :: "u32 \<Rightarrow> u32 list" where
  "data_blocks block_count = map word_of_nat [1..<unat block_count]"

lemma set_data_blocks: "set (data_blocks bc) = {i. 0 < i \<and> i < bc}"
proof (intro set_eqI iffI)
  fix i
  assume "i \<in> set (data_blocks bc)"
  then obtain k where "i = word_of_nat k" "1 \<le> k" "k < unat bc" by (auto simp: data_blocks_def)
  moreover have "k < 2 ^ 32" using \<open>k < unat bc\<close> unat_u32_less [of bc] by simp
  ultimately show "i \<in> {i. 0 < i \<and> i < bc}" by (simp add: word_less_nat_alt unat_of_nat_u32)
next
  fix i
  assume "i \<in> {i. 0 < i \<and> i < bc}"
  then show "i \<in> set (data_blocks bc)"
    unfolding data_blocks_def set_map
    by (intro image_eqI [of _ _ "unat i"]) (auto simp: word_less_nat_alt)
qed

lemma distinct_data_blocks: "distinct (data_blocks bc)"
proof -
  have "inj_on (word_of_nat :: nat \<Rightarrow> u32) (set [1..<unat bc])"
  proof (rule inj_on_inverseI [of _ unat])
    fix k
    assume "k \<in> set [1..<unat bc]"
    then have "k < 2 ^ 32" using unat_u32_less [of bc] by simp
    then show "unat (word_of_nat k :: u32) = k" by (rule unat_of_nat_u32)
  qed
  then show ?thesis by (simp add: data_blocks_def distinct_map)
qed

abbreviation has_key :: "bytes \<Rightarrow> complete_record \<Rightarrow> bool" where
  "has_key k r \<equiv> key_str (cr_key r) = k"

definition latest :: "u32 \<Rightarrow> u32 \<Rightarrow> bytes list \<Rightarrow> bytes \<Rightarrow> complete_record option" where
  "latest bs bc B k =
     newest cr_generation None (filter (has_key k) (records_in (unat bs) B (data_blocks bc)))"

lemma latest_None:
  "latest bs bc B k = None \<longleftrightarrow> (\<forall>i r. 0 < i \<longrightarrow> i < bc \<longrightarrow> complete (unat bs) B i r \<longrightarrow> \<not> has_key k r)"
  by (auto simp: latest_def filter_empty_conv set_records_in set_data_blocks)

lemma latest_Some:
  assumes "latest bs bc B k = Some r"
  shows "complete (unat bs) B (cr_descriptor_block r) r" and "has_key k r"
    and "0 < cr_descriptor_block r" and "cr_descriptor_block r < bc"
    and "\<And>i r'. 0 < i \<Longrightarrow> i < bc \<Longrightarrow> complete (unat bs) B i r' \<Longrightarrow> has_key k r' \<Longrightarrow>
      cr_generation r' \<le> cr_generation r"
proof -
  note m = newest_max [OF assms [unfolded latest_def]]
  then show "complete (unat bs) B (cr_descriptor_block r) r" and "has_key k r"
    and "0 < cr_descriptor_block r" and "cr_descriptor_block r < bc"
    by (auto simp: set_records_in set_data_blocks dest: complete_descriptor_block)
  show "\<And>i r'. 0 < i \<Longrightarrow> i < bc \<Longrightarrow> complete (unat bs) B i r' \<Longrightarrow> has_key k r' \<Longrightarrow>
      cr_generation r' \<le> cr_generation r"
    using m by (auto simp: set_records_in set_data_blocks)
qed

lemma latest_dominant:
  assumes "complete (unat bs) B i r" and "0 < i" and "i < bc" and "has_key k r"
    and "\<And>j r'. 0 < j \<Longrightarrow> j < bc \<Longrightarrow> complete (unat bs) B j r' \<Longrightarrow> has_key k r' \<Longrightarrow> r' \<noteq> r \<Longrightarrow>
      cr_generation r' < cr_generation r"
  shows "latest bs bc B k = Some r"
  unfolding latest_def
proof (rule newest_dominant)
  show "r \<in> set (filter (has_key k) (records_in (unat bs) B (data_blocks bc)))"
    using assms(1-4) by (auto simp: set_records_in set_data_blocks)
qed (use assms(5) in \<open>auto simp: set_records_in set_data_blocks\<close>)

lemma filter_records_cong:
  assumes "\<And>i r. i \<in> set is \<Longrightarrow> P r \<Longrightarrow> complete bs B' i r \<longleftrightarrow> complete bs B i r"
  shows "filter P (records_in bs B' is) = filter P (records_in bs B is)"
  using assms
proof (induction "is")
  case (Cons i "is")
  have "P r \<Longrightarrow> record_at bs B' i = Some r \<longleftrightarrow> record_at bs B i = Some r" for r
    using Cons.prems by (simp add: record_at_Some)
  then have "filter P (case record_at bs B' i of None \<Rightarrow> [] | Some r \<Rightarrow> [r]) =
      filter P (case record_at bs B i of None \<Rightarrow> [] | Some r \<Rightarrow> [r])"
    by (cases "record_at bs B' i"; cases "record_at bs B i") auto
  with Cons show ?case
    by (cases "record_at bs B' i"; cases "record_at bs B i") (auto split: if_splits)
qed simp

lemma latest_cong:
  assumes "\<And>i r. 0 < i \<Longrightarrow> i < bc \<Longrightarrow> has_key k r \<Longrightarrow>
    complete (unat bs) B' i r \<longleftrightarrow> complete (unat bs) B i r"
  shows "latest bs bc B' k = latest bs bc B k"
  unfolding latest_def
  by (subst filter_records_cong [of _ "has_key k" "unat bs" B' B])
    (use assms in \<open>auto simp: set_data_blocks\<close>)

text \<open>Recovery changes only blocks outside the latest records: it keeps what a scan finds.\<close>

lemma records_in_sub:
  assumes "\<And>i r. complete bs B' i r \<Longrightarrow> complete bs B i r"
  shows "records_in bs B' is = filter (\<lambda>r. complete bs B' (cr_descriptor_block r) r) (records_in bs B is)"
proof (induction "is")
  case (Cons i "is")
  show ?case
  proof (cases "record_at bs B i")
    case None
    then have "record_at bs B' i = None" using assms by (auto simp: record_at_None)
    with None Cons show ?thesis by simp
  next
    case (Some r)
    then have r: "complete bs B i r" by (simp add: record_at_Some)
    show ?thesis
    proof (cases "record_at bs B' i")
      case None
      then have "\<not> complete bs B' i r" by (simp add: record_at_None)
      with None Some Cons complete_descriptor_block [OF r] show ?thesis by simp
    next
      case (Some r')
      then have "complete bs B' i r'" by (simp add: record_at_Some)
      with assms r have "r' = r" by (blast dest: complete_deterministic)
      with Some \<open>record_at bs B i = Some r\<close> Cons \<open>complete bs B' i r'\<close> show ?thesis
        using complete_descriptor_block [OF r] by simp
    qed
  qed
qed simp

lemma latest_keep:
  assumes sub: "\<And>i r. complete (unat bs) B' i r \<Longrightarrow> complete (unat bs) B i r"
    and keep: "\<And>r. latest bs bc B k = Some r \<Longrightarrow> complete (unat bs) B' (cr_descriptor_block r) r"
  shows "latest bs bc B' k = latest bs bc B k"
proof (cases "latest bs bc B k")
  case None
  then have "latest bs bc B' k = None" using sub unfolding latest_None by blast
  with None show ?thesis by simp
next
  case (Some r)
  have "filter (has_key k) (records_in (unat bs) B' (data_blocks bc)) =
      filter (\<lambda>r. complete (unat bs) B' (cr_descriptor_block r) r)
        (filter (has_key k) (records_in (unat bs) B (data_blocks bc)))"
    by (subst records_in_sub [of "unat bs" B' B, OF sub]) (auto simp: conj_commute)
  then show ?thesis
    using newest_filter [OF Some [unfolded latest_def],
        of "\<lambda>r. complete (unat bs) B' (cr_descriptor_block r) r"] keep [OF Some] Some
    by (simp add: latest_def)
qed

section \<open>Properties\<close>

text \<open>
  Property C17: \<^verbatim>\<open>verify_and_read_record\<close> accepts exactly the complete records. On a \<^verbatim>\<open>MemDevice\<close> with any
  content it returns a record if and only if the block is a valid descriptor and its chunks form a
  chain, without repetition, of valid chunks of that descriptor with consecutive numbers, whose count
  and total size are the ones the descriptor announces; the record is then the one stored there. In
  every other case the result is \<^verbatim>\<open>None\<close>. The device is unchanged and nothing panics.
\<close>

theorem read_record_exact:
  assumes "mem_at bs bc B d" and "36 \<le> unat bs" and "db < bc"
  shows "\<exists>x. verify_and_read_record oc mem_dev db d = (Ok x, d) \<and> (\<forall>r. x = Some r \<longleftrightarrow> complete (unat bs) B db r)"
proof (cases rule: triple_cases [OF mem.verify_and_read_record_spec [OF assms(2,3), where oc = oc] assms(1)])
  case (1 x d')
  then have "d' = d" using assms(1) by (simp add: mem_at_def)
  with 1 show ?thesis by auto
qed simp

theorem read_record_exact_witness:
  "\<exists>x. verify_and_read_record True mem_dev 1 (mem_new 36 2) =
      (Ok x, mem_new 36 2) \<and> (\<forall>r. x = Some r \<longleftrightarrow> complete 36 [replicate 36 0, replicate 36 0] 1 r)"
proof -
  have "mem_at 36 2 [replicate 36 0, replicate 36 0] (mem_new 36 2)"
    by (simp add: mem_at_def mem_new_def flip: replicate_add)
  from read_record_exact [OF this, of 1 True] show ?thesis by simp
qed

end
