(* ===== verification/Ekv_Encode.thy ===== *)
theory Ekv_Encode
  imports Ekv_Medium
begin

text \<open>
  The blocks of a record as it is written: the descriptor block with the key and the first part of
  the value, and the chain of value chunks. Once all of them are on the medium the record is
  complete and carries exactly the key, the generation and the value.
\<close>

section \<open>The blocks\<close>

definition descriptor_block_of :: "nat \<Rightarrow> descriptor_header \<Rightarrow> bytes \<Rightarrow> bytes \<Rightarrow> bytes" where
  "descriptor_block_of bs hdr key first =
     seal (descriptor_header_bytes hdr @ key @ first @ replicate (bs - 32 - length key - length first) 0)"

definition chunk_block_of :: "nat \<Rightarrow> chunk_header \<Rightarrow> bytes \<Rightarrow> bytes" where
  "chunk_block_of bs ch payload =
     seal (chunk_header_bytes ch @ payload @ replicate (bs - 20 - length payload) 0)"

definition new_chunk_header :: "u32 \<Rightarrow> u32 \<Rightarrow> nat \<Rightarrow> u32 list \<Rightarrow> chunk_header" where
  "new_chunk_header db idx n rest =
     \<lparr>vc_block_type = 3, vc_header_size = 20, vc_flags = 0, vc_owner_descriptor = db,
      vc_chunk_index = idx, vc_payload_size = word_of_nat n,
      vc_next_chunk = (case rest of [] \<Rightarrow> NULL_BLOCK_INDEX | c # _ \<Rightarrow> c)\<rparr>"

fun chunk_writes :: "nat \<Rightarrow> u32 \<Rightarrow> u32 \<Rightarrow> u32 list \<Rightarrow> bytes \<Rightarrow> (u32 \<times> bytes) list" where
  "chunk_writes bs db idx [] rem = []"
| "chunk_writes bs db idx (c # cs) rem =
     (c, chunk_block_of bs (new_chunk_header db idx (min (length rem) (bs - 24)) cs) (take (bs - 24) rem))
     # chunk_writes bs db (idx + 1) cs (drop (bs - 24) rem)"

definition first_part :: "nat \<Rightarrow> bytes \<Rightarrow> nat" where
  "first_part bs key = bs - 36 - length key"

definition new_header :: "nat \<Rightarrow> bytes \<Rightarrow> u32 \<Rightarrow> bytes \<Rightarrow> u32 \<Rightarrow> u32 list \<Rightarrow> descriptor_header" where
  "new_header bs key gen val uflags cs =
     \<lparr>rd_block_type = 2, rd_header_size = 32, rd_key_size = word_of_nat (length key),
      rd_generation = gen, rd_total_size = word_of_nat (length val),
      rd_first_payload_size = word_of_nat (min (length val) (first_part bs key)),
      rd_chunk_count = 1 + word_of_nat (length cs),
      rd_next_chunk = (case cs of [] \<Rightarrow> NULL_BLOCK_INDEX | c # _ \<Rightarrow> c),
      rd_flags = 0, rd_user_flags = uflags\<rparr>"

definition record_writes ::
    "nat \<Rightarrow> u32 \<Rightarrow> u32 list \<Rightarrow> bytes \<Rightarrow> u32 \<Rightarrow> bytes \<Rightarrow> u32 \<Rightarrow> (u32 \<times> bytes) list" where
  "record_writes bs db cs key gen val uflags =
     (db, descriptor_block_of bs (new_header bs key gen val uflags cs) key (take (first_part bs key) val))
     # chunk_writes bs db 1 cs (drop (first_part bs key) val)"

definition new_record ::
    "nat \<Rightarrow> u32 \<Rightarrow> u32 list \<Rightarrow> bytes \<Rightarrow> u32 \<Rightarrow> bytes \<Rightarrow> u32 \<Rightarrow> complete_record" where
  "new_record bs db cs key gen val uflags =
     \<lparr>cr_key = key, cr_generation = gen, cr_descriptor_block = db,
      cr_header = new_header bs key gen val uflags cs, cr_chunk_blocks = cs, cr_value = val\<rparr>"

text \<open>The number of chunks that \<^verbatim>\<open>needed_blocks\<close> adds to the descriptor.\<close>

definition extra_blocks :: "nat \<Rightarrow> bytes \<Rightarrow> bytes \<Rightarrow> nat" where
  "extra_blocks bs key val = (length val - first_part bs key + (bs - 24) - 1) div (bs - 24)"

text \<open>The sizes that fit the format: the fields that hold them do not truncate.\<close>

definition fits_format :: "nat \<Rightarrow> bytes \<Rightarrow> bytes \<Rightarrow> bool" where
  "fits_format bs key val \<longleftrightarrow> 36 + length key \<le> bs \<and> length key < 2 ^ 16 \<and> length val < 2 ^ 32"

lemma map_fst_chunk_writes [simp]: "map fst (chunk_writes bs db idx cs rem) = cs"
  by (induction cs arbitrary: idx rem) simp_all

lemma map_fst_record_writes [simp]: "map fst (record_writes bs db cs key gen val uflags) = db # cs"
  by (simp add: record_writes_def)

lemma footprint_new_record [simp]: "footprint (new_record bs db cs key gen val uflags) = set (db # cs)"
  by (simp add: new_record_def footprint_def)

section \<open>Reading the blocks back\<close>

lemma take_drop_seal: "m + n + 4 \<le> length buf \<Longrightarrow> take n (drop m (seal buf)) = take n (drop m buf)"
  by (simp add: seal_def drop_take min_absorb1)

lemma unat_of_nat_u16: "n < 2 ^ 16 \<Longrightarrow> unat (word_of_nat n :: u16) = n"
  by (simp add: unat_of_nat take_bit_nat_eq_self_iff)

lemma length_descriptor_block_of:
  "36 + length key + length first \<le> bs \<Longrightarrow> length (descriptor_block_of bs hdr key first) = bs"
  by (simp add: descriptor_block_of_def)

lemma length_chunk_block_of:
  "24 + length payload \<le> bs \<Longrightarrow> length (chunk_block_of bs ch payload) = bs"
  by (simp add: chunk_block_of_def)

lemma nth_0_header_bytes:
  "(descriptor_header_bytes hdr @ rest) ! 0 = rd_block_type hdr"
  "(chunk_header_bytes ch @ rest) ! 0 = vc_block_type ch"
  by (simp_all add: descriptor_header_bytes_def chunk_header_bytes_def)

lemma chunk_block_of_ok:
  assumes "24 + length payload \<le> bs" and "length payload < 2 ^ 32"
  shows "read_chunk_header (chunk_block_of bs (new_chunk_header db idx (length payload) rest) payload)
      = new_chunk_header db idx (length payload) rest"
    and "chunk_ok bs db idx (chunk_block_of bs (new_chunk_header db idx (length payload) rest) payload)"
    and "chunk_payload (chunk_block_of bs (new_chunk_header db idx (length payload) rest) payload) = payload"
proof -
  let ?h = "new_chunk_header db idx (length payload) rest"
  let ?buf = "chunk_header_bytes ?h @ payload @ replicate (bs - 20 - length payload) 0"
  have len: "length ?buf = bs" using assms(1) by simp
  show h: "read_chunk_header (chunk_block_of bs ?h payload) = ?h"
    using len assms(1) by (simp add: chunk_block_of_def read_header_seal)
  have size: "unat (vc_payload_size ?h) = length payload"
    using assms(2) by (simp add: new_chunk_header_def unat_of_nat_u32)
  have "chunk_block_of bs ?h payload ! 0 = vc_block_type ?h"
    using len assms(1) nth_0_header_bytes(2) [of ?h] by (simp add: chunk_block_of_def)
  then show "chunk_ok bs db idx (chunk_block_of bs ?h payload)"
    using len assms size
    by (simp add: chunk_ok_def Let_def h) (simp add: chunk_block_of_def new_chunk_header_def)
  have "take (length payload) (drop 20 (seal ?buf)) = take (length payload) (drop 20 ?buf)"
    using len assms(1) by (intro take_drop_seal) simp
  then show "chunk_payload (chunk_block_of bs ?h payload) = payload"
    by (simp add: chunk_payload_def h size) (simp add: chunk_block_of_def)
qed

lemma descriptor_block_of_ok:
  assumes "36 + length key + length first \<le> bs" and "rd_block_type hdr = 2" and "rd_header_size hdr = 32"
    and "unat (rd_key_size hdr) = length key" and "unat (rd_first_payload_size hdr) = length first"
    and "rd_chunk_count hdr \<noteq> 0"
  shows "read_descriptor_header (descriptor_block_of bs hdr key first) = hdr"
    and "desc_ok bs (descriptor_block_of bs hdr key first)"
    and "desc_key (descriptor_block_of bs hdr key first) = key"
    and "desc_payload (descriptor_block_of bs hdr key first) = first"
proof -
  let ?buf = "descriptor_header_bytes hdr @ key @ first @
    replicate (bs - 32 - length key - length first) 0"
  have len: "length ?buf = bs" using assms(1) by simp
  show h: "read_descriptor_header (descriptor_block_of bs hdr key first) = hdr"
    using len assms(1) by (simp add: descriptor_block_of_def read_header_seal)
  have "descriptor_block_of bs hdr key first ! 0 = rd_block_type hdr"
    using len assms(1) nth_0_header_bytes(1) [of hdr] by (simp add: descriptor_block_of_def)
  then show "desc_ok bs (descriptor_block_of bs hdr key first)"
    using len assms by (simp add: desc_ok_def Let_def h) (simp add: descriptor_block_of_def)
  have "take (length key) (drop 32 (seal ?buf)) = take (length key) (drop 32 ?buf)"
    using len assms(1) by (intro take_drop_seal) simp
  then show "desc_key (descriptor_block_of bs hdr key first) = key"
    by (simp add: desc_key_def h assms(4)) (simp add: descriptor_block_of_def)
  have "take (length first) (drop (32 + length key) (seal ?buf)) =
      take (length first) (drop (32 + length key) ?buf)"
    using len assms(1) by (intro take_drop_seal) simp
  then show "desc_payload (descriptor_block_of bs hdr key first) = first"
    by (simp add: desc_payload_def Let_def h assms(4,5)) (simp add: descriptor_block_of_def)
qed

section \<open>A written record is complete\<close>

lemma chain_of_writes:
  assumes "24 < bs" and "length rem \<le> length cs * (bs - 24)" and "length rem < 2 ^ 32"
    and "length B < 2 ^ 32" and "\<And>c. c \<in> set cs \<Longrightarrow> unat c < length B"
    and "\<And>c b. (c, b) \<in> set (chunk_writes bs db idx cs rem) \<Longrightarrow> B ! unat c = b"
  shows "chain bs B db idx (case cs of [] \<Rightarrow> NULL_BLOCK_INDEX | c # _ \<Rightarrow> c) cs rem"
  using assms
proof (induction cs arbitrary: idx rem)
  case Nil
  then show ?case by (simp add: chain_end)
next
  case (Cons c cs)
  let ?p = "take (bs - 24) rem"
  let ?h = "new_chunk_header db idx (length ?p) cs"
  have c: "B ! unat c = chunk_block_of bs ?h ?p"
    using Cons.prems(6) [of c] by (simp add: min.commute)
  have p: "24 + length ?p \<le> bs" "length ?p < 2 ^ 32" using Cons.prems(1,3) by auto
  note ok = chunk_block_of_ok [OF p, of db idx cs, folded c]
  have "c \<noteq> NULL_BLOCK_INDEX"
    using Cons.prems(4) Cons.prems(5) [of c] by (auto simp: layout_simps)
  moreover have "unat c < length B" using Cons.prems(5) by simp
  moreover have "chain bs B db (idx + 1) (case cs of [] \<Rightarrow> NULL_BLOCK_INDEX | c # _ \<Rightarrow> c) cs
      (drop (bs - 24) rem)"
    using Cons.prems by (intro Cons.IH) auto
  ultimately have "chain bs B db idx c (c # cs) (chunk_payload (B ! unat c) @ drop (bs - 24) rem)"
    using ok by (intro chain_step) (simp_all add: new_chunk_header_def)
  with ok(3) show ?case by simp
qed

lemma ceil_enough:
  assumes "0 < (k :: nat)"
  shows "n \<le> (n + k - 1) div k * k"
proof -
  have "n + k - 1 = (n + k - 1) div k * k + (n + k - 1) mod k"
    by simp
  moreover have "(n + k - 1) mod k \<le> k - 1"
    using mod_less_divisor [OF assms, of "n + k - 1"] by linarith
  ultimately show ?thesis using assms by linarith
qed

lemma new_record_complete:
  assumes fit: "fits_format bs key val" and cs: "length cs = extra_blocks bs key val"
    and range: "\<And>c. c \<in> set (db # cs) \<Longrightarrow> unat c < length B" and dist: "distinct (db # cs)"
    and B: "length B < 2 ^ 32"
    and blocks: "\<And>c b. (c, b) \<in> set (record_writes bs db cs key gen val uflags) \<Longrightarrow> B ! unat c = b"
  shows "complete bs B db (new_record bs db cs key gen val uflags)"
proof -
  let ?n = "first_part bs key"
  let ?h = "new_header bs key gen val uflags cs"
  have sizes: "36 + length key \<le> bs" "length key < 2 ^ 16" "length val < 2 ^ 32"
    using fit by (simp_all add: fits_format_def)
  have n: "length cs < 2 ^ 32 - 1"
    using distinct_blocks_length [OF dist range] B by simp
  have first: "36 + length key + length (take ?n val) \<le> bs"
    using sizes by (simp add: first_part_def)
  have db: "B ! unat db = descriptor_block_of bs ?h key (take ?n val)"
    using blocks [of db] by (simp add: record_writes_def)
  have count: "unat (rd_chunk_count ?h) = 1 + length cs"
    using n unat_of_nat_u32 [of "1 + length cs"] by (simp add: new_header_def)
  have "rd_chunk_count ?h \<noteq> 0" using count by auto
  note ok = descriptor_block_of_ok [of key "take ?n val" bs ?h, folded db, OF first _ _ _ _ this]
  have ok': "read_descriptor_header (B ! unat db) = ?h" "desc_ok bs (B ! unat db)"
    "desc_key (B ! unat db) = key" "desc_payload (B ! unat db) = take ?n val"
    using sizes by (simp_all add: ok new_header_def unat_of_nat_u16 unat_of_nat_u32)
  have "length (drop ?n val) \<le> length cs * (bs - 24)"
    using ceil_enough [of "bs - 24" "length val - ?n"] sizes(1) by (simp add: cs extra_blocks_def)
  then have "chain bs B db 1 (case cs of [] \<Rightarrow> NULL_BLOCK_INDEX | c # _ \<Rightarrow> c) cs (drop ?n val)"
    using sizes range B blocks by (intro chain_of_writes) (auto simp: record_writes_def)
  then have "chain bs B db 1 (rd_next_chunk ?h) cs (drop ?n val)"
    by (simp add: new_header_def)
  then show ?thesis
    using ok' range dist count
    by (simp add: complete_def Let_def new_record_def)
      (auto simp: new_header_def intro!: exI [of _ "drop ?n val"])
qed

section \<open>The number of blocks\<close>

lemma needed_blocks_Ok:
  assumes "fits_format (unat bs) key val"
  obtains n where "needed_blocks oc key val bs = Ok n"
    and "unat n = 1 + extra_blocks (unat bs) key val"
proof -
  have sizes: "36 + length key \<le> unat bs" "length val < 2 ^ 32"
    using assms by (simp_all add: fits_format_def)
  have "length key < 2 ^ 32" using sizes(1) unat_u32_less [of bs] by simp
  then have k: "unat (word_of_nat (length key) :: u32) = length key" by (rule unat_of_nat_u32)
  let ?v = "word_of_nat (length val) :: u32"
  have v: "unat ?v = length val" using sizes(2) by (rule unat_of_nat_u32)
  obtain fc where fc: "first_payload_capacity oc bs (word_of_nat (length key)) = Ok fc"
    "unat fc = first_part (unat bs) key"
    using first_payload_capacity_Ok [of "word_of_nat (length key)" bs] sizes(1)
    by (auto simp: k first_part_def)
  obtain cap where cap: "chunk_payload_capacity oc bs = Ok cap" "unat cap = unat bs - 24"
    using chunk_payload_capacity_Ok [of bs] sizes(1) by auto
  have cap0: "cap \<noteq> 0" using cap(2) sizes(1) by auto
  show ?thesis
  proof (cases "?v \<le> fc")
    case True
    then have "length val \<le> first_part (unat bs) key"
      by (simp add: word_le_nat_alt v fc(2))
    then have "extra_blocks (unat bs) key val = 0"
      using sizes(1) by (simp add: extra_blocks_def)
    with True show ?thesis
      by (intro that [of 1]) (simp_all add: needed_blocks_def fc(1) cap(1) Let_def)
  next
    case False
    then have le: "fc \<le> ?v" by simp
    obtain q where q: "u32_div_ceil (?v - fc) cap = Ok q"
      "unat q = (unat (?v - fc) + unat cap - 1) div unat cap"
      using u32_div_ceil_Ok [OF cap0] .
    have q': "unat q = extra_blocks (unat bs) key val"
      using q(2) by (simp add: extra_blocks_def unat_sub [OF le] v fc(2) cap(2))
    have "unat q \<le> (unat (?v - fc) + unat cap - 1) div 2"
      using q(2) cap(2) sizes(1) by (auto intro!: div_le_mono2)
    also have "\<dots> < 2 ^ 32 - 1"
      using unat_u32_less [of "?v - fc"] unat_u32_less [of cap] by (simp add: less_mult_imp_div_less)
    finally have "unat (1 :: u32) + unat q < 2 ^ 32" by simp
    note add = u32_add_Ok [OF this] unat_u32_add [OF this]
    from False le show ?thesis
      by (intro that [of "1 + q"])
        (simp_all add: needed_blocks_def fc(1) cap(1) Let_def u32_sub_Ok q(1) add q')
  qed
qed

section \<open>Sequences of writes\<close>

definition apply_writes :: "(u32 \<times> bytes) list \<Rightarrow> bytes list \<Rightarrow> bytes list" where
  "apply_writes ws B = foldl (\<lambda>B (c, b). B[unat c := b]) B ws"

lemma apply_writes_simps [simp]:
  "apply_writes [] B = B"
  "apply_writes ((c, b) # ws) B = apply_writes ws (B[unat c := b])"
  by (simp_all add: apply_writes_def)

lemma length_apply_writes [simp]: "length (apply_writes ws B) = length B"
  by (induction ws arbitrary: B) auto

lemma apply_writes_other:
  "i \<notin> unat ` set (map fst ws) \<Longrightarrow> apply_writes ws B ! i = B ! i"
  by (induction ws arbitrary: B) auto

lemma apply_writes_nth:
  assumes "distinct (map fst ws)" and "(c, b) \<in> set ws" and "unat c < length B"
  shows "apply_writes ws B ! unat c = b"
  using assms
proof (induction ws arbitrary: B)
  case (Cons w ws)
  obtain c' b' where w: "w = (c', b')" by (cases w)
  show ?case
  proof (cases "c = c'")
    case True
    with Cons.prems w have "b = b'" and "c \<notin> set (map fst ws)"
      by (auto simp: rev_image_eqI)
    with True w Cons.prems(3) show ?thesis
      by (simp add: apply_writes_other del: set_map)
  next
    case False
    with Cons w show ?thesis by auto
  qed
qed simp

text \<open>
  The states that an interrupted sequence of writes may leave: every block is as before, as
  written, or torn. Any subset of the writes may have reached the medium.
\<close>

definition partial_write ::
    "(bytes \<Rightarrow> bytes \<Rightarrow> bytes \<Rightarrow> bool) \<Rightarrow> bytes list \<Rightarrow> (u32 \<times> bytes) list \<Rightarrow> bytes list \<Rightarrow> bool" where
  "partial_write torn B ws B' \<longleftrightarrow> length B' = length B \<and>
     (\<forall>i < length B. B' ! i = B ! i \<or>
       (\<exists>c b. (c, b) \<in> set ws \<and> i = unat c \<and> (B' ! i = b \<or> torn (B ! i) b (B' ! i))))"

lemma partial_write_refl [simp]: "partial_write torn B ws B"
  by (simp add: partial_write_def)

lemma partial_write_torn:
  assumes "b' = B ! unat c \<or> torn (B ! unat c) b b'"
  shows "partial_write torn B ((c, b) # ws) (B[unat c := b'])"
  unfolding partial_write_def
proof (intro conjI allI impI)
  fix i
  assume "i < length B"
  with assms show "B[unat c := b'] ! i = B ! i \<or> (\<exists>c' b''. (c', b'') \<in> set ((c, b) # ws) \<and>
      i = unat c' \<and> (B[unat c := b'] ! i = b'' \<or> torn (B ! i) b'' (B[unat c := b'] ! i)))"
    by (cases "i = unat c") auto
qed simp

lemma partial_write_Cons:
  assumes "partial_write torn (B[unat c := b]) ws B'" and "c \<notin> fst ` set ws"
  shows "partial_write torn B ((c, b) # ws) B'"
  unfolding partial_write_def
proof (intro conjI allI impI)
  show "length B' = length B" using assms(1) by (simp add: partial_write_def)
next
  fix i
  assume i: "i < length B"
  have "B' ! i = B[unat c := b] ! i \<or> (\<exists>c' b'. (c', b') \<in> set ws \<and> i = unat c' \<and>
      (B' ! i = b' \<or> torn (B[unat c := b] ! i) b' (B' ! i)))"
    using assms(1) i by (simp add: partial_write_def)
  then show "B' ! i = B ! i \<or> (\<exists>c' b'. (c', b') \<in> set ((c, b) # ws) \<and> i = unat c' \<and>
      (B' ! i = b' \<or> torn (B ! i) b' (B' ! i)))"
  proof (cases "i = unat c")
    case True
    have "(c', b') \<in> set ws \<Longrightarrow> unat c \<noteq> unat c'" for c' b'
      using assms(2) by (auto simp: rev_image_eqI word_unat_eq_iff [symmetric])
    with True i \<open>B' ! i = _ \<or> _\<close> show ?thesis by auto
  next
    case False
    with \<open>B' ! i = _ \<or> _\<close> show ?thesis by auto
  qed
qed

lemma partial_write_all:
  assumes "distinct (map fst ws)"
  shows "partial_write torn B ws (apply_writes ws B)"
  unfolding partial_write_def
proof (intro conjI allI impI)
  fix i
  assume i: "i < length B"
  show "apply_writes ws B ! i = B ! i \<or> (\<exists>c b. (c, b) \<in> set ws \<and> i = unat c \<and>
      (apply_writes ws B ! i = b \<or> torn (B ! i) b (apply_writes ws B ! i)))"
  proof (cases "i \<in> unat ` set (map fst ws)")
    case True
    then obtain c b where cb: "(c, b) \<in> set ws" "i = unat c" by auto
    with assms i have "apply_writes ws B ! i = b" by (auto intro: apply_writes_nth)
    with cb show ?thesis by blast
  next
    case False
    then show ?thesis by (simp add: apply_writes_other)
  qed
qed simp

end
