(* ===== verification/Ekv_Replica.thy ===== *)
theory Ekv_Replica
  imports Ekv_Encode
begin

text \<open>
  The operations of one replica, the second \<^verbatim>\<open>impl\<close> block of \<^verbatim>\<open>rust/src/store.rs\<close>: the index scan,
  recovery, reading, writing and erasing records. A replica is a device, its storage header and its
  index; the operations are computations on it.
\<close>

section \<open>The code\<close>

record 'd replica =
  rp_dev :: 'd
  rp_header :: storage_header
  rp_index :: mem_index

text \<open>A call on the replica's device.\<close>

definition on_dev :: "('d, 'a) io \<Rightarrow> ('d replica, 'a) io" where
  "on_dev m = (\<lambda>r. case m (rp_dev r) of (x, d) \<Rightarrow> (x, r\<lparr>rp_dev := d\<rparr>))"

subsection \<open>build\_index\<close>

fun build_index_loop ::
    "bool \<Rightarrow> 'd block_device \<Rightarrow> u32 list \<Rightarrow> bytes \<Rightarrow> ('d replica, unit) io" where
  "build_index_loop oc D [] buf = return_io ()"
| "build_index_loop oc D (i # is) buf =
     bind_io (on_dev (d_read_block D i buf)) (\<lambda>buf.
     bind_io (lift_io (get_byte 0 buf)) (\<lambda>t.
     if t \<noteq> BLOCK_TYPE_RECORD_DESCRIPTOR then build_index_loop oc D is buf
     else
     bind_io (on_dev (verify_and_read_record oc D i)) (\<lambda>res.
     case res of None \<Rightarrow> build_index_loop oc D is buf
     | Some rec \<Rightarrow>
         let ks = key_str (cr_key rec) in
         bind_io (asks_io rp_index) (\<lambda>index.
         let should_update = (case mi_get index ks of
               None \<Rightarrow> True | Some ex \<Rightarrow> ie_generation ex < cr_generation rec) in
         bind_io (if should_update then
             modify_io (\<lambda>r. r\<lparr>rp_index := mi_put
               \<lparr>ie_key = ks, ie_generation = cr_generation rec, ie_descriptor_block = i,
                ie_total_size = rd_total_size (cr_header rec)\<rparr> (rp_index r)\<rparr>)
           else return_io ()) (\<lambda>_.
         build_index_loop oc D is buf)))))"

definition replica_build_index :: "bool \<Rightarrow> 'd block_device \<Rightarrow> ('d replica, unit) io" where
  "replica_build_index oc D =
     bind_io (modify_io (\<lambda>r. r\<lparr>rp_index := mi_new\<rparr>)) (\<lambda>_.
     bind_io (on_dev (asks_io (d_block_count D))) (\<lambda>block_count.
     bind_io (on_dev (asks_io (d_block_size D))) (\<lambda>block_size.
     build_index_loop oc D (data_blocks block_count) (replicate (unat block_size) 0))))"

subsection \<open>recover\<close>

fun collect_best ::
    "bool \<Rightarrow> 'd block_device \<Rightarrow> u32 list \<Rightarrow> bytes \<Rightarrow> (bytes \<times> complete_record) list
     \<Rightarrow> ('d replica, (bytes \<times> complete_record) list) io" where
  "collect_best oc D [] buf best = return_io best"
| "collect_best oc D (i # is) buf best =
     bind_io (on_dev (d_read_block D i buf)) (\<lambda>buf.
     bind_io (lift_io (get_byte 0 buf)) (\<lambda>t.
     if t \<noteq> BLOCK_TYPE_RECORD_DESCRIPTOR then collect_best oc D is buf best
     else
     bind_io (on_dev (verify_and_read_record oc D i)) (\<lambda>res.
     case res of None \<Rightarrow> collect_best oc D is buf best
     | Some rec \<Rightarrow>
         let ks = key_str (cr_key rec);
             should_update = (case map_of best ks of
               None \<Rightarrow> True | Some ex \<Rightarrow> cr_generation ex < cr_generation rec) in
         collect_best oc D is buf (if should_update then AList.update ks rec best else best))))"

text \<open>The loop that marks the blocks of the selected records.\<close>

definition mark_valid :: "(bytes \<times> complete_record) list \<Rightarrow> u32 set" where
  "mark_valid best =
     fold (\<lambda>(k, rec) valid. set (cr_chunk_blocks rec) \<union> insert (cr_descriptor_block rec) valid)
       best {0}"

fun erase_garbage ::
    "'d block_device \<Rightarrow> u32 set \<Rightarrow> bytes \<Rightarrow> u32 list \<Rightarrow> bytes \<Rightarrow> bool \<Rightarrow> ('d replica, bool) io" where
  "erase_garbage D valid free [] buf garbage_found = return_io garbage_found"
| "erase_garbage D valid free (i # is) buf garbage_found =
     (if i \<in> valid then erase_garbage D valid free is buf garbage_found
      else
      bind_io (on_dev (d_read_block D i buf)) (\<lambda>buf.
      bind_io (lift_io (get_byte 0 buf)) (\<lambda>t.
      if t = 0x00 \<or> t = 0xFF then erase_garbage D valid free is buf garbage_found
      else
      bind_io (on_dev (d_write_block D i free)) (\<lambda>_.
      erase_garbage D valid free is buf True))))"

definition replica_recover :: "bool \<Rightarrow> 'd block_device \<Rightarrow> u8 \<Rightarrow> ('d replica, unit) io" where
  "replica_recover oc D free_pattern =
     bind_io (on_dev (asks_io (d_block_size D))) (\<lambda>block_size.
     bind_io (on_dev (asks_io (d_block_count D))) (\<lambda>block_count.
     bind_io (collect_best oc D (data_blocks block_count) (replicate (unat block_size) 0) []) (\<lambda>best.
     let valid = mark_valid best; free = make_free_buf block_size free_pattern in
     bind_io (erase_garbage D valid free (data_blocks block_count) (replicate (unat block_size) 0) False)
       (\<lambda>garbage_found.
     if garbage_found then on_dev (d_flush D) else return_io ()))))"

subsection \<open>Reading a record\<close>

text \<open>
  The result is an \<^verbatim>\<open>Option<Result<..>>\<close>: absent, an error (\<open>Inl\<close>), or the generation and the
  value (\<open>Inr\<close>). A panic is a panic of the whole call.
\<close>

definition get_with_generation ::
    "bool \<Rightarrow> 'd block_device \<Rightarrow> bytes \<Rightarrow> ('d replica, (error + u32 \<times> bytes) option) io" where
  "get_with_generation oc D key =
     bind_io (asks_io rp_index) (\<lambda>index.
     case mi_get index (key_str key) of
       None \<Rightarrow> return_io None
     | Some e \<Rightarrow> (\<lambda>r. case on_dev (verify_and_read_record oc D (ie_descriptor_block e)) r of
           (Ok (Some rec), r') \<Rightarrow> (Ok (Some (Inr (ie_generation e, cr_value rec))), r')
         | (Ok None, r') \<Rightarrow> (Ok (Some (Inl CorruptRecord)), r')
         | (Err err, r') \<Rightarrow> (Ok (Some (Inl err)), r')
         | (Panic, r') \<Rightarrow> (Panic, r')))"

subsection \<open>Writing a record\<close>

fun find_free_loop ::
    "bool \<Rightarrow> 'd block_device \<Rightarrow> u32 \<Rightarrow> u32 list \<Rightarrow> bytes \<Rightarrow> u32 list \<Rightarrow> ('d replica, u32 list) io" where
  "find_free_loop oc D n [] buf result = return_io result"
| "find_free_loop oc D n (i # is) buf result =
     (if unat n \<le> length result then return_io result
      else
      bind_io (on_dev (d_read_block D i buf)) (\<lambda>buf.
      bind_io (lift_io (is_free_candidate oc buf)) (\<lambda>fr.
      find_free_loop oc D n is buf (if fr then result @ [i] else result))))"

definition find_free_blocks :: "bool \<Rightarrow> 'd block_device \<Rightarrow> u32 \<Rightarrow> ('d replica, u32 list) io" where
  "find_free_blocks oc D n =
     bind_io (on_dev (asks_io (d_block_size D))) (\<lambda>block_size.
     bind_io (on_dev (asks_io (d_block_count D))) (\<lambda>block_count.
     bind_io (find_free_loop oc D n (data_blocks block_count) (replicate (unat block_size) 0) []) (\<lambda>result.
     if length result < unat n then fail_io StorageFull else return_io result)))"

text \<open>The descriptor block built by \<^verbatim>\<open>write_record\<close>.\<close>

definition build_descriptor_block ::
    "bool \<Rightarrow> u32 \<Rightarrow> descriptor_header \<Rightarrow> bytes \<Rightarrow> bytes \<Rightarrow> u32 \<Rightarrow> bytes outcome" where
  "build_descriptor_block oc block_size hdr key value first_size =
     bind_o (marshal_descriptor_header hdr (replicate (unat block_size) 0)) (\<lambda>buf.
     let key_off = unat RECORD_DESCRIPTOR_HEADER_SIZE in
     bind_o (copy_into key_off key buf) (\<lambda>buf.
     let payload_off = key_off + length key in
     bind_o (slice_range 0 (unat first_size) value) (\<lambda>first.
     bind_o (copy_into payload_off first buf) (\<lambda>buf.
     write_block_crc oc buf))))"

text \<open>A value chunk block built by \<^verbatim>\<open>write_record\<close>.\<close>

definition build_chunk_block ::
    "bool \<Rightarrow> u32 \<Rightarrow> chunk_header \<Rightarrow> bytes \<Rightarrow> bytes outcome" where
  "build_chunk_block oc block_size ch remaining =
     bind_o (marshal_chunk_header ch (replicate (unat block_size) 0)) (\<lambda>cbuf.
     bind_o (slice_range 0 (unat (vc_payload_size ch)) remaining) (\<lambda>payload.
     bind_o (copy_into (unat VALUE_CHUNK_HEADER_SIZE) payload cbuf) (\<lambda>cbuf.
     write_block_crc oc cbuf)))"

fun write_chunks ::
    "bool \<Rightarrow> 'd block_device \<Rightarrow> u32 \<Rightarrow> u32 \<Rightarrow> u32 \<Rightarrow> u32 list \<Rightarrow> nat \<Rightarrow> u32 list \<Rightarrow> bytes
     \<Rightarrow> ('d replica, unit) io" where
  "write_chunks oc D block_size descriptor_block chunk_cap chunk_blocks ci [] remaining = return_io ()"
| "write_chunks oc D block_size descriptor_block chunk_cap chunk_blocks ci (block_idx # rest) remaining =
     (let payload_size = min (word_of_nat (length remaining)) chunk_cap;
          next_idx = (if ci + 1 < length chunk_blocks then chunk_blocks ! (ci + 1) else NULL_BLOCK_INDEX);
          ch = \<lparr>vc_block_type = BLOCK_TYPE_VALUE_CHUNK, vc_header_size = ucast VALUE_CHUNK_HEADER_SIZE,
                vc_flags = 0, vc_owner_descriptor = descriptor_block,
                vc_chunk_index = word_of_nat (ci + 1), vc_payload_size = payload_size,
                vc_next_chunk = next_idx\<rparr> in
      bind_io (lift_io (build_chunk_block oc block_size ch remaining)) (\<lambda>cbuf.
      bind_io (on_dev (d_write_block D block_idx cbuf)) (\<lambda>_.
      bind_io (lift_io (slice_range (unat payload_size) (length remaining) remaining)) (\<lambda>remaining.
      write_chunks oc D block_size descriptor_block chunk_cap chunk_blocks (ci + 1) rest remaining))))"

definition write_record ::
    "bool \<Rightarrow> 'd block_device \<Rightarrow> u32 \<Rightarrow> u32 list \<Rightarrow> bytes \<Rightarrow> u32 \<Rightarrow> bytes \<Rightarrow> u32 \<Rightarrow> ('d replica, unit) io" where
  "write_record oc D descriptor_block chunk_blocks key generation value user_flags =
     bind_io (on_dev (asks_io (d_block_size D))) (\<lambda>block_size.
     let key_len = word_of_nat (length key) in
     bind_io (lift_io (first_payload_capacity oc block_size key_len)) (\<lambda>first_cap.
     bind_io (lift_io (chunk_payload_capacity oc block_size)) (\<lambda>chunk_cap.
     let vlen = word_of_nat (length value);
         first_size = min vlen first_cap in
     bind_io (lift_io (u32_add oc 1 (word_of_nat (length chunk_blocks)))) (\<lambda>chunk_count.
     let next_chunk = (case chunk_blocks of [] \<Rightarrow> NULL_BLOCK_INDEX | c # _ \<Rightarrow> c);
         hdr = \<lparr>rd_block_type = BLOCK_TYPE_RECORD_DESCRIPTOR,
                rd_header_size = ucast RECORD_DESCRIPTOR_HEADER_SIZE, rd_key_size = ucast key_len,
                rd_generation = generation, rd_total_size = vlen, rd_first_payload_size = first_size,
                rd_chunk_count = chunk_count, rd_next_chunk = next_chunk, rd_flags = 0,
                rd_user_flags = user_flags\<rparr> in
     bind_io (lift_io (build_descriptor_block oc block_size hdr key value first_size)) (\<lambda>buf.
     bind_io (on_dev (d_write_block D descriptor_block buf)) (\<lambda>_.
     bind_io (lift_io (slice_range (unat first_size) (length value) value)) (\<lambda>remaining.
     write_chunks oc D block_size descriptor_block chunk_cap chunk_blocks 0 chunk_blocks remaining)))))))"

subsection \<open>Erasing a record\<close>

function free_loop ::
    "bool \<Rightarrow> 'd block_device \<Rightarrow> u32 \<Rightarrow> bytes \<Rightarrow> u32 \<Rightarrow> u32 set \<Rightarrow> bytes \<Rightarrow> ('d replica, unit) io" where
  "free_loop oc D block_count free next visited cbuf =
     (if next = NULL_BLOCK_INDEX \<or> block_count \<le> next then return_io ()
      else if next \<in> visited then return_io ()
      else
      bind_io (on_dev (d_read_block D next cbuf)) (\<lambda>cbuf.
      bind_io (lift_io (unmarshal_chunk_header oc cbuf)) (\<lambda>(ch, ok).
      if \<not> ok then return_io ()
      else
      let following = vc_next_chunk ch in
      bind_io (on_dev (d_write_block D next free)) (\<lambda>_.
      free_loop oc D block_count free following (insert next visited) cbuf))))"
  by pat_completeness auto
termination
proof (relation "measure (\<lambda>(oc, D, bc, free, next, visited, cbuf). card (- visited))", goal_cases)
  case (2 oc D bc free nxt visited)
  then have "nxt \<in> - visited" by simp
  then have "card (- insert nxt visited) < card (- visited)"
    by (intro psubset_card_mono) auto
  then show ?case by simp
qed simp

declare free_loop.simps [simp del]

definition free_record :: "bool \<Rightarrow> 'd block_device \<Rightarrow> u32 \<Rightarrow> u8 \<Rightarrow> ('d replica, unit) io" where
  "free_record oc D descriptor_block free_pattern =
     bind_io (on_dev (asks_io (d_block_size D))) (\<lambda>block_size.
     bind_io (on_dev (asks_io (d_block_count D))) (\<lambda>block_count.
     bind_io (on_dev (d_read_block D descriptor_block (replicate (unat block_size) 0))) (\<lambda>buf.
     bind_io (lift_io (unmarshal_descriptor_header oc buf)) (\<lambda>(hdr, ok).
     if \<not> ok then fail_io CrcMismatch
     else
     let free = make_free_buf block_size free_pattern in
     bind_io (on_dev (d_write_block D descriptor_block free)) (\<lambda>_.
     free_loop oc D block_count free (rd_next_chunk hdr) {} (replicate (unat block_size) 0))))))"

subsection \<open>put\<close>

definition replica_put ::
    "bool \<Rightarrow> 'd block_device \<Rightarrow> bytes \<Rightarrow> bytes \<Rightarrow> u32 \<Rightarrow> u32 \<Rightarrow> u8 \<Rightarrow> ('d replica, unit) io" where
  "replica_put oc D key value generation user_flags free_pattern =
     bind_io (asks_io rp_index) (\<lambda>index.
     let ks = key_str key;
         existing_block = map_option ie_descriptor_block (mi_get index ks) in
     bind_io (on_dev (asks_io (d_block_size D))) (\<lambda>block_size.
     bind_io (lift_io (needed_blocks oc key value block_size)) (\<lambda>needed.
     bind_io (find_free_blocks oc D needed) (\<lambda>free_blocks.
     bind_io (lift_io (case free_blocks of [] \<Rightarrow> Panic | b # bs \<Rightarrow> Ok (b, bs))) (\<lambda>(descriptor_block, chunk_blocks).
     bind_io (write_record oc D descriptor_block chunk_blocks key generation value user_flags) (\<lambda>_.
     bind_io (on_dev (d_flush D)) (\<lambda>_.
     bind_io (modify_io (\<lambda>r. r\<lparr>rp_index := mi_put
         \<lparr>ie_key = ks, ie_generation = generation, ie_descriptor_block = descriptor_block,
          ie_total_size = word_of_nat (length value)\<rparr> (rp_index r)\<rparr>)) (\<lambda>_.
     case existing_block of None \<Rightarrow> return_io ()
     | Some old_block \<Rightarrow>
         bind_io (free_record oc D old_block free_pattern) (\<lambda>_. on_dev (d_flush D))))))))))"

end
