(* ===== verification/Ekv_Store.thy ===== *)
theory Ekv_Store
  imports Ekv_Replica
begin

text \<open>
  The public interface in \<^verbatim>\<open>rust/src/store.rs\<close>: \<^verbatim>\<open>format\<close>, \<^verbatim>\<open>open\<close> and the methods of \<^verbatim>\<open>Store\<close>. A
  store is a list of replicas and its options; the methods are computations on it. The loops over
  the replicas are \<open>iter_mut\<close>.
\<close>

section \<open>Options\<close>

record options =
  op_free_pattern :: u8
  op_replica_id :: u32
  op_format_seq :: u32

definition options_new :: options where
  "options_new = \<lparr>op_free_pattern = 0, op_replica_id = 0, op_format_seq = 0\<rparr>"

section \<open>format\<close>

text \<open>The body of the loop, for device number \<open>i\<close>.\<close>

definition format_device :: "bool \<Rightarrow> 'd block_device \<Rightarrow> options \<Rightarrow> nat \<Rightarrow> ('d, unit) io" where
  "format_device oc D opts i =
     bind_io (asks_io (d_block_size D)) (\<lambda>block_size.
     if block_size < STORAGE_HEADER_SIZE + BLOCK_CRC_SIZE then fail_io InvalidBlockSize
     else
     bind_io (asks_io (d_block_count D)) (\<lambda>block_count.
     bind_io (lift_io (u32_add oc (op_replica_id opts) (word_of_nat i))) (\<lambda>replica_id.
     let hdr = \<lparr>sh_block_type = BLOCK_TYPE_STORAGE_HEADER, sh_magic = MAGIC,
           sh_version_major = VERSION_MAJOR, sh_version_minor = VERSION_MINOR,
           sh_block_size = block_size, sh_block_count = block_count, sh_replica_id = replica_id,
           sh_format_seq = op_format_seq opts, sh_flags = 0\<rparr> in
     bind_io (lift_io (bind_o (marshal_storage_header hdr (replicate (unat block_size) 0))
       (write_block_crc oc))) (\<lambda>buf.
     bind_io (d_write_block D 0 buf) (\<lambda>_. d_flush D)))))"

definition format_store :: "bool \<Rightarrow> 'd block_device \<Rightarrow> options \<Rightarrow> ('d list, unit) io" where
  "format_store oc D opts = (\<lambda>devs.
     if devs = [] then (Err NoReplicas, devs)
     else iter_mut (\<lambda>i _. format_device oc D opts i) 0 () devs)"

section \<open>open\<close>

definition open_replica_header :: "bool \<Rightarrow> 'd block_device \<Rightarrow> ('d, storage_header) io" where
  "open_replica_header oc D =
     bind_io (asks_io (d_block_size D)) (\<lambda>block_size.
     if block_size < STORAGE_HEADER_SIZE + BLOCK_CRC_SIZE then fail_io InvalidBlockSize
     else
     bind_io (d_read_block D 0 (replicate (unat block_size) 0)) (\<lambda>buf.
     bind_io (lift_io (get_byte 0 buf)) (\<lambda>t.
     if t \<noteq> BLOCK_TYPE_STORAGE_HEADER then fail_io InvalidHeader
     else
     bind_io (lift_io (unmarshal_storage_header oc buf)) (\<lambda>(hdr, ok).
     if \<not> ok then fail_io CrcMismatch
     else if sh_magic hdr \<noteq> MAGIC then fail_io InvalidHeader
     else if sh_block_size hdr \<noteq> block_size then fail_io InvalidHeader
     else
     bind_io (asks_io (d_block_count D)) (\<lambda>block_count.
     if sh_block_count hdr \<noteq> block_count then fail_io InvalidHeader
     else if sh_block_count hdr < 1 then fail_io InvalidHeader
     else return_io hdr)))))"

record 'd store =
  st_replicas :: "'d replica list"
  st_opts :: options

text \<open>\<^verbatim>\<open>open\<close> takes the devices by value; on an error they are dropped.\<close>

fun open_loop ::
    "bool \<Rightarrow> 'd block_device \<Rightarrow> nat \<Rightarrow> u32 \<Rightarrow> u32 \<Rightarrow> 'd replica list \<Rightarrow> 'd list \<Rightarrow> 'd replica list outcome" where
  "open_loop oc D i block_size block_count replicas [] = Ok replicas"
| "open_loop oc D i block_size block_count replicas (dev # devs) =
     (case open_replica_header oc D dev of
        (Ok header, dev) \<Rightarrow>
          (let replicas' = replicas @ [\<lparr>rp_dev = dev, rp_header = header, rp_index = mi_new\<rparr>] in
           if i = 0 then
             open_loop oc D (i + 1) (d_block_size D dev) (d_block_count D dev) replicas' devs
           else if d_block_size D dev \<noteq> block_size \<or> d_block_count D dev \<noteq> block_count
           then Err ReplicaMismatch
           else open_loop oc D (i + 1) block_size block_count replicas' devs)
      | (Err e, dev) \<Rightarrow> Err e
      | (Panic, dev) \<Rightarrow> Panic)"

definition open_store :: "bool \<Rightarrow> 'd block_device \<Rightarrow> 'd list \<Rightarrow> options \<Rightarrow> 'd store outcome" where
  "open_store oc D devs opts =
     (if devs = [] then Err NoReplicas
      else bind_o (open_loop oc D 0 0 0 [] devs) (\<lambda>replicas.
        Ok \<lparr>st_replicas = replicas, st_opts = opts\<rparr>))"

section \<open>The methods of Store\<close>

definition on_replicas :: "('d replica list, 'a) io \<Rightarrow> ('d store, 'a) io" where
  "on_replicas m = (\<lambda>s. case m (st_replicas s) of (x, rs) \<Rightarrow> (x, s\<lparr>st_replicas := rs\<rparr>))"

definition store_build_index :: "bool \<Rightarrow> 'd block_device \<Rightarrow> ('d store, unit) io" where
  "store_build_index oc D = on_replicas (iter_mut (\<lambda>_ _. replica_build_index oc D) 0 ())"

definition store_recover :: "bool \<Rightarrow> 'd block_device \<Rightarrow> ('d store, unit) io" where
  "store_recover oc D =
     bind_io (asks_io (\<lambda>s. op_free_pattern (st_opts s))) (\<lambda>free_pattern.
     on_replicas (iter_mut (\<lambda>_ _. replica_recover oc D free_pattern) 0 ()))"

text \<open>The body of the loop of \<^verbatim>\<open>get\<close>, with the loop variables \<^verbatim>\<open>best\<close> and \<^verbatim>\<open>best_gen\<close>.\<close>

definition get_step ::
    "bool \<Rightarrow> 'd block_device \<Rightarrow> bytes \<Rightarrow> bytes option \<times> u32 \<Rightarrow> ('d replica, bytes option \<times> u32) io" where
  "get_step oc D key = (\<lambda>(best, best_gen).
     bind_io (get_with_generation oc D key) (\<lambda>res.
     case res of
       Some (Inr (gen, val)) \<Rightarrow>
         if best = None \<or> best_gen < gen then return_io (Some val, gen) else return_io (best, best_gen)
     | _ \<Rightarrow> return_io (best, best_gen)))"

definition store_get :: "bool \<Rightarrow> 'd block_device \<Rightarrow> bytes \<Rightarrow> ('d store, bytes) io" where
  "store_get oc D key =
     bind_io (on_replicas (iter_mut (\<lambda>_. get_step oc D key) 0 (None, 0))) (\<lambda>(best, best_gen).
     case best of None \<Rightarrow> fail_io KeyNotFound | Some val \<Rightarrow> return_io val)"

text \<open>The loop of \<^verbatim>\<open>put_flagged\<close> over the generations of the key.\<close>

definition max_generation :: "bytes \<Rightarrow> 'd replica list \<Rightarrow> u32" where
  "max_generation ks replicas =
     foldl (\<lambda>generation r. case mi_get (rp_index r) ks of
         None \<Rightarrow> generation
       | Some e \<Rightarrow> if generation < ie_generation e then ie_generation e else generation) 0 replicas"

definition store_put_flagged ::
    "bool \<Rightarrow> 'd block_device \<Rightarrow> bytes \<Rightarrow> bytes \<Rightarrow> u32 \<Rightarrow> ('d store, unit) io" where
  "store_put_flagged oc D key val user_flags =
     bind_io (asks_io st_replicas) (\<lambda>replicas.
     bind_io (lift_io (case replicas of [] \<Rightarrow> Panic | r # _ \<Rightarrow> Ok (d_block_size D (rp_dev r)))) (\<lambda>block_size.
     bind_io (lift_io (bind_o (u32_sub oc block_size RECORD_DESCRIPTOR_HEADER_SIZE)
        (\<lambda>a. u32_sub oc a BLOCK_CRC_SIZE))) (\<lambda>limit.
     if limit < word_of_nat (length key) then fail_io KeyTooLong
     else
     let ks = key_str key in
     bind_io (lift_io (u32_add oc (max_generation ks replicas) 1)) (\<lambda>generation.
     bind_io (asks_io (\<lambda>s. op_free_pattern (st_opts s))) (\<lambda>free_pattern.
     on_replicas (iter_mut (\<lambda>_ _. replica_put oc D key val generation user_flags free_pattern) 0 ()))))))"

definition store_put :: "bool \<Rightarrow> 'd block_device \<Rightarrow> bytes \<Rightarrow> bytes \<Rightarrow> ('d store, unit) io" where
  "store_put oc D key val = store_put_flagged oc D key val 0"

text \<open>The body of the loop of \<^verbatim>\<open>delete\<close>, with the loop variable \<^verbatim>\<open>found\<close>.\<close>

definition delete_step ::
    "bool \<Rightarrow> 'd block_device \<Rightarrow> bytes \<Rightarrow> u8 \<Rightarrow> bool \<Rightarrow> ('d replica, bool) io" where
  "delete_step oc D ks free_pattern found =
     bind_io (asks_io rp_index) (\<lambda>index.
     case mi_get index ks of None \<Rightarrow> return_io found
     | Some e \<Rightarrow>
         bind_io (free_record oc D (ie_descriptor_block e) free_pattern) (\<lambda>_.
         bind_io (on_dev (d_flush D)) (\<lambda>_.
         bind_io (modify_io (\<lambda>r. r\<lparr>rp_index := mi_delete ks (rp_index r)\<rparr>)) (\<lambda>_.
         return_io True))))"

definition store_delete :: "bool \<Rightarrow> 'd block_device \<Rightarrow> bytes \<Rightarrow> ('d store, unit) io" where
  "store_delete oc D key =
     bind_io (asks_io (\<lambda>s. op_free_pattern (st_opts s))) (\<lambda>free_pattern.
     bind_io (on_replicas (iter_mut (\<lambda>_. delete_step oc D (key_str key) free_pattern) 0 False)) (\<lambda>found.
     if \<not> found then fail_io KeyNotFound else return_io ()))"

text \<open>\<^verbatim>\<open>close\<close> discards the results of closing the devices.\<close>

fun close_loop :: "'d block_device \<Rightarrow> 'd replica list \<Rightarrow> unit outcome" where
  "close_loop D [] = Ok ()"
| "close_loop D (r # rs) = (case d_close D (rp_dev r) of Panic \<Rightarrow> Panic | _ \<Rightarrow> close_loop D rs)"

definition store_close :: "'d block_device \<Rightarrow> 'd store \<Rightarrow> unit outcome" where
  "store_close D s = close_loop D (st_replicas s)"

definition into_devices :: "'d store \<Rightarrow> 'd list" where
  "into_devices s = map rp_dev (st_replicas s)"

definition store_header :: "'d store \<Rightarrow> storage_header outcome" where
  "store_header s = (case st_replicas s of [] \<Rightarrow> Panic | r # _ \<Rightarrow> Ok (rp_header r))"

definition replica_count :: "'d store \<Rightarrow> nat" where
  "replica_count s = length (st_replicas s)"

text \<open>
  The set of keys that \<^verbatim>\<open>keys\<close> and \<^verbatim>\<open>iterate\<close> collect. The order in which a \<^verbatim>\<open>HashSet\<close> yields its
  elements is the argument \<open>order\<close>.
\<close>

definition key_set :: "'d store \<Rightarrow> bytes set" where
  "key_set s = fold (\<lambda>r S. fold (\<lambda>e S. insert (ie_key e) S) (mi_all_entries (rp_index r)) S) (st_replicas s) {}"

definition store_keys :: "(bytes set \<Rightarrow> bytes list) \<Rightarrow> 'd store \<Rightarrow> bytes list" where
  "store_keys order s = order (key_set s)"

text \<open>The closure \<open>f\<close> of \<^verbatim>\<open>iterate\<close> is a computation on its own captured state.\<close>

fun iterate_loop :: "(bytes \<Rightarrow> ('c, unit) io) \<Rightarrow> bytes list \<Rightarrow> ('c, unit) io" where
  "iterate_loop f [] = return_io ()"
| "iterate_loop f (k # ks) = bind_io (f k) (\<lambda>_. iterate_loop f ks)"

definition store_iterate ::
    "(bytes set \<Rightarrow> bytes list) \<Rightarrow> 'd store \<Rightarrow> (bytes \<Rightarrow> ('c, unit) io) \<Rightarrow> ('c, unit) io" where
  "store_iterate order s f = iterate_loop f (order (key_set s))"

end
