(* ===== verification/Ekv_Replica_Proofs.thy ===== *)
theory Ekv_Replica_Proofs
  imports Ekv_Replica
begin

text \<open>
  The operations of a replica against the records on its medium, for every device that satisfies
  the contract: the scan finds the latest records, the search finds the free blocks, a written
  record is complete, erasing removes one record, and recovery keeps what a scan finds. Every
  statement also covers the states that a failing device may leave behind.
\<close>

section \<open>Calls on the device\<close>

definition rep_at :: "('d \<Rightarrow> bool) \<Rightarrow> storage_header \<Rightarrow> mem_index \<Rightarrow> 'd replica \<Rightarrow> bool" where
  "rep_at P h ix r \<longleftrightarrow> P (rp_dev r) \<and> rp_header r = h \<and> rp_index r = ix"

lemma triple_on_dev:
  assumes "triple P m Q E"
  shows "triple (rep_at P h ix) (on_dev m) (\<lambda>x. rep_at (Q x) h ix) (\<lambda>e. rep_at (E e) h ix)"
  unfolding triple_def
proof (intro allI impI)
  fix r
  assume r: "rep_at P h ix r"
  then have "P (rp_dev r)" by (simp add: rep_at_def)
  with assms show "case on_dev m r of (Ok x, s') \<Rightarrow> rep_at (Q x) h ix s'
      | (Err e, s') \<Rightarrow> rep_at (E e) h ix s' | (Panic, s') \<Rightarrow> False"
    using r by (cases rule: triple_cases) (simp_all add: on_dev_def rep_at_def)
qed

lemma rep_asks_bind:
  assumes "\<And>d. P d \<Longrightarrow> f d = x" and "triple (rep_at P h ix) (g x) Q E"
  shows "triple (rep_at P h ix) (bind_io (on_dev (asks_io f)) g) Q E"
  using assms by (simp add: triple_def rep_at_def on_dev_def bind_io_def)

lemma rep_modify_index:
  assumes "triple (rep_at P h (f ix)) (g ()) Q E"
  shows "triple (rep_at P h ix) (bind_io (modify_io (\<lambda>r. r\<lparr>rp_index := f (rp_index r)\<rparr>)) g) Q E"
  using assms by (simp add: triple_def rep_at_def bind_io_def)

lemma rep_index_bind:
  assumes "triple (rep_at P h ix) (g ix) Q E"
  shows "triple (rep_at P h ix) (bind_io (asks_io rp_index) g) Q E"
  using assms by (simp add: triple_def rep_at_def bind_io_def)

text \<open>The sequence of writes that \<^verbatim>\<open>write_record\<close> makes.\<close>

fun write_all :: "'d block_device \<Rightarrow> (u32 \<times> bytes) list \<Rightarrow> ('d replica, unit) io" where
  "write_all D [] = return_io ()"
| "write_all D ((c, b) # ws) = bind_io (on_dev (d_write_block D c b)) (\<lambda>_. write_all D ws)"

context device_contract
begin

lemma rep_geometry:
  assumes "rep_at (dev_at bs bc B) h ix r"
  shows "length B = unat bc" and "i < bc \<Longrightarrow> length (B ! unat i) = unat bs"
  using assms dev_length dev_nth_length by (auto simp: rep_at_def word_less_nat_alt)

lemma rep_geometry_assume:
  assumes "length B = unat bc \<Longrightarrow> (\<And>i. i < bc \<Longrightarrow> length (B ! unat i) = unat bs) \<Longrightarrow>
    triple (rep_at (dev_at bs bc B) h ix) m Q E"
  shows "triple (rep_at (dev_at bs bc B) h ix) m Q E"
proof (rule triple_assume [where A = "length B = unat bc \<and> (\<forall>i < bc. length (B ! unat i) = unat bs)"])
  fix r
  assume "rep_at (dev_at bs bc B) h ix r"
  then show "length B = unat bc \<and> (\<forall>i < bc. length (B ! unat i) = unat bs)"
    using rep_geometry by blast
qed (use assms in auto)

lemma rep_read_bind:
  assumes "i < bc" and "length buf = unat bs"
    and "triple (rep_at (dev_at bs bc B) h ix) (g (B ! unat i)) Q E"
    and "\<And>e r. fault e \<Longrightarrow> rep_at (dev_at bs bc B) h ix r \<Longrightarrow> E e r"
  shows "triple (rep_at (dev_at bs bc B) h ix) (bind_io (on_dev (d_read_block D i buf)) g) Q E"
proof (rule triple_bind_eq)
  show "triple (rep_at (dev_at bs bc B) h ix) (on_dev (d_read_block D i buf))
      (\<lambda>x r. x = B ! unat i \<and> rep_at (dev_at bs bc B) h ix r) E"
    by (rule triple_conseq [OF triple_on_dev [OF dev_read [OF assms(1,2)]]])
      (use assms(4) in \<open>auto simp: rep_at_def\<close>)
qed (rule assms(3))

lemma rep_write_bind:
  assumes "i < bc" and "length buf = unat bs"
    and "triple (rep_at (dev_at bs bc (B[unat i := buf])) h ix) (g ()) Q E"
    and "\<And>e r b. fault e \<Longrightarrow> b = B ! unat i \<or> torn (B ! unat i) buf b \<Longrightarrow>
      rep_at (dev_at bs bc (B[unat i := b])) h ix r \<Longrightarrow> E e r"
  shows "triple (rep_at (dev_at bs bc B) h ix) (bind_io (on_dev (d_write_block D i buf)) g) Q E"
proof (rule triple_bind)
  show "triple (rep_at (dev_at bs bc B) h ix) (on_dev (d_write_block D i buf))
      (\<lambda>_. rep_at (dev_at bs bc (B[unat i := buf])) h ix) E"
    by (rule triple_conseq [OF triple_on_dev [OF dev_write [OF assms(1,2)]]])
      (use assms(4) in \<open>auto simp: rep_at_def\<close>)
qed (use assms(3) in simp)

lemma rep_flush:
  "triple (rep_at (dev_at bs bc B) h ix) (on_dev (d_flush D))
    (\<lambda>_. rep_at (dev_at bs bc B) h ix) (\<lambda>e r. fault e \<and> rep_at (dev_at bs bc B) h ix r)"
  by (rule triple_conseq [OF triple_on_dev [OF dev_flush]]) (auto simp: rep_at_def)

lemma rep_verify:
  assumes "36 \<le> unat bs" and "i < bc"
  shows "triple (rep_at (dev_at bs bc B) h ix) (on_dev (verify_and_read_record oc D i))
    (\<lambda>x r. x = record_at (unat bs) B i \<and> rep_at (dev_at bs bc B) h ix r)
    (\<lambda>e r. fault e \<and> rep_at (dev_at bs bc B) h ix r)"
proof -
  have eq: "r = record_at (unat bs) B i"
    if "\<forall>rec. r = Some rec \<longleftrightarrow> complete (unat bs) B i rec" for r
    using that record_at_Some record_at_None by (cases r) (metis, metis)
  show ?thesis
    by (rule triple_conseq [OF triple_on_dev [OF verify_and_read_record_spec [OF assms]]])
      (use eq in \<open>auto simp: rep_at_def\<close>)
qed

lemma rep_verify_bind:
  assumes "36 \<le> unat bs" and "i < bc"
    and "triple (rep_at (dev_at bs bc B) h ix) (g (record_at (unat bs) B i)) Q E"
    and "\<And>e r. fault e \<Longrightarrow> rep_at (dev_at bs bc B) h ix r \<Longrightarrow> E e r"
  shows "triple (rep_at (dev_at bs bc B) h ix) (bind_io (on_dev (verify_and_read_record oc D i)) g) Q E"
  by (rule triple_bind_eq [OF triple_conseq [OF rep_verify [OF assms(1,2)]]]) (use assms(3,4) in auto)

text \<open>
  A write followed by a computation that makes the writes \<open>ws\<close>: the states after a failure are the
  partial writes of the whole sequence.
\<close>

lemma rep_write_seq:
  assumes "c < bc" and "length b = unat bs" and "c \<notin> fst ` set ws"
    and "triple (rep_at (dev_at bs bc (B[unat c := b])) h ix) (g ())
      (\<lambda>_. rep_at (dev_at bs bc (apply_writes ws (B[unat c := b]))) h ix)
      (\<lambda>e r. fault e \<and> (\<exists>B'. partial_write torn (B[unat c := b]) ws B' \<and> rep_at (dev_at bs bc B') h ix r))"
  shows "triple (rep_at (dev_at bs bc B) h ix) (bind_io (on_dev (d_write_block D c b)) g)
      (\<lambda>_. rep_at (dev_at bs bc (apply_writes ((c, b) # ws) B)) h ix)
      (\<lambda>e r. fault e \<and> (\<exists>B'. partial_write torn B ((c, b) # ws) B' \<and> rep_at (dev_at bs bc B') h ix r))"
proof (rule rep_write_bind [OF assms(1,2)], goal_cases)
  case 1
  show ?case
    by (rule triple_conseq [OF assms(4)])
      (auto simp: apply_writes_def intro: partial_write_Cons [OF _ assms(3)])
next
  case (2 e r b')
  with partial_write_torn show ?case by blast
qed

lemma write_all_spec:
  assumes "distinct (map fst ws)" and "\<And>c b. (c, b) \<in> set ws \<Longrightarrow> c < bc \<and> length b = unat bs"
  shows "triple (rep_at (dev_at bs bc B) h ix) (write_all D ws)
    (\<lambda>_. rep_at (dev_at bs bc (apply_writes ws B)) h ix)
    (\<lambda>e r. fault e \<and> (\<exists>B'. partial_write torn B ws B' \<and> rep_at (dev_at bs bc B') h ix r))"
  using assms
proof (induction ws arbitrary: B)
  case Nil
  then show ?case by (simp add: triple_def)
next
  case (Cons w ws)
  obtain c b where w: "w = (c, b)" by (cases w)
  show ?case
    unfolding w write_all.simps
    by (rule rep_write_seq) (use Cons w in auto)
qed

end

section \<open>Searching free blocks\<close>

definition free_list :: "u32 \<Rightarrow> bytes list \<Rightarrow> u32 list" where
  "free_list bc B = filter (\<lambda>i. free_block (B ! unat i)) (data_blocks bc)"

context device_contract
begin

lemma find_free_loop_spec:
  assumes "0 < unat bs" and "\<And>i. i \<in> set is \<Longrightarrow> i < bc" and "length buf = unat bs"
  shows "triple (rep_at (dev_at bs bc B) h ix) (find_free_loop oc D n is buf found)
    (\<lambda>fs r. fs = found @ take (unat n - length found) (filter (\<lambda>i. free_block (B ! unat i)) is) \<and>
       rep_at (dev_at bs bc B) h ix r)
    (\<lambda>e r. fault e \<and> rep_at (dev_at bs bc B) h ix r)"
proof (rule rep_geometry_assume)
  assume geo: "length B = unat bc" "\<And>i. i < bc \<Longrightarrow> length (B ! unat i) = unat bs"
  show ?thesis
    using assms(2,3)
  proof (induction "is" arbitrary: found buf)
    case Nil
    then show ?case by (simp add: triple_def)
  next
    case (Cons i "is")
    show ?case
    proof (cases "unat n \<le> length found")
      case True
      then show ?thesis by (simp add: triple_def)
    next
      case False
      have i: "i < bc" "length (B ! unat i) = unat bs" using Cons.prems geo by auto
      then have ne: "B ! unat i \<noteq> []" using assms(1) by auto
      have "Suc (unat n - Suc (length found)) = unat n - length found" using False by simp
      then have step: "take (unat n - length found) (filter (\<lambda>i. free_block (B ! unat i)) (i # is)) =
        (if free_block (B ! unat i) then [i] else []) @
        take (unat n - length (if free_block (B ! unat i) then found @ [i] else found))
          (filter (\<lambda>i. free_block (B ! unat i)) is)"
        by (auto simp: take_Cons')
      have "triple (rep_at (dev_at bs bc B) h ix)
          (find_free_loop oc D n is (B ! unat i) (if free_block (B ! unat i) then found @ [i] else found))
          (\<lambda>fs r. fs = found @ take (unat n - length found) (filter (\<lambda>i. free_block (B ! unat i)) (i # is)) \<and>
             rep_at (dev_at bs bc B) h ix r)
          (\<lambda>e r. fault e \<and> rep_at (dev_at bs bc B) h ix r)"
        unfolding step
        by (rule triple_conseq [OF Cons.IH [of "B ! unat i"
              "if free_block (B ! unat i) then found @ [i] else found"]])
          (use Cons.prems i in \<open>auto split: if_splits\<close>)
      with False ne show ?thesis
        by (simp del: filter.simps) (rule rep_read_bind [OF i(1) Cons.prems(2)],
            simp_all add: is_free_candidate_Ok del: filter.simps)
    qed
  qed
qed

lemma find_free_blocks_spec:
  assumes "0 < unat bs"
  shows "triple (rep_at (dev_at bs bc B) h ix) (find_free_blocks oc D n)
    (\<lambda>fs r. fs = take (unat n) (free_list bc B) \<and> unat n \<le> length (free_list bc B) \<and>
       rep_at (dev_at bs bc B) h ix r)
    (\<lambda>e r. (fault e \<or> e = StorageFull \<and> length (free_list bc B) < unat n) \<and>
       rep_at (dev_at bs bc B) h ix r)" (is "triple ?P _ ?Q ?E")
proof -
  have loop: "triple ?P (find_free_loop oc D n (data_blocks bc) (replicate (unat bs) 0) [])
      (\<lambda>fs r. fs = take (unat n) (free_list bc B) \<and> ?P r) ?E"
    by (rule triple_conseq [OF find_free_loop_spec [OF assms]])
      (auto simp: set_data_blocks free_list_def)
  show ?thesis
    unfolding find_free_blocks_def
    apply (rule rep_asks_bind [where x = bs], erule dev_size)
    apply (rule rep_asks_bind [where x = bc], erule dev_count)
    apply (rule triple_bind_eq [OF loop])
    apply (auto intro!: triple_return triple_fail)
    done
qed

end

end
