(* ===== verification/Ekv_Scan.thy ===== *)
theory Ekv_Scan
  imports Ekv_Replica_Proofs
begin

text \<open>
  The two scans over a replica. The index scan (\<^verbatim>\<open>Replica::build_index\<close>) finds per key the latest
  complete record. Recovery (\<^verbatim>\<open>Replica::recover\<close>) erases every block that is neither free nor part
  of a latest record, keeps what the index scan finds, also when it is interrupted, and leaves one
  record per key.
\<close>

section \<open>The index scan\<close>

definition entry_of :: "complete_record \<Rightarrow> index_entry" where
  "entry_of r = \<lparr>ie_key = key_str (cr_key r), ie_generation = cr_generation r,
     ie_descriptor_block = cr_descriptor_block r, ie_total_size = rd_total_size (cr_header r)\<rparr>"

lemma entry_of_fields [simp]:
  "ie_key (entry_of r) = key_str (cr_key r)" "ie_generation (entry_of r) = cr_generation r"
  "ie_descriptor_block (entry_of r) = cr_descriptor_block r"
  by (simp_all add: entry_of_def)

definition index_for :: "mem_index \<Rightarrow> complete_record list \<Rightarrow> bool" where
  "index_for ix rs \<longleftrightarrow> mi_inv ix \<and>
     (\<forall>k. mi_get ix k = map_option entry_of (newest cr_generation None (filter (has_key k) rs)))"

lemma newest_map:
  "newest g (map_option f b) (map f rs) = map_option f (newest (\<lambda>r. g (f r)) b rs)"
proof (induction rs arbitrary: b)
  case (Cons r rs)
  have "(case map_option f b of None \<Rightarrow> Some (f r) | Some ex \<Rightarrow> if g ex < g (f r) then Some (f r) else Some ex)
      = map_option f (case b of None \<Rightarrow> Some r | Some ex \<Rightarrow> if g (f ex) < g (f r) then Some r else Some ex)"
    by (cases b) simp_all
  with Cons show ?case by simp
qed simp

lemma newest_entries:
  "newest ie_generation None (map snd (filter (\<lambda>p. fst p = k)
      (map (\<lambda>r. (key_str (cr_key r), entry_of r)) rs))) =
   map_option entry_of (newest cr_generation None (filter (has_key k) rs))"
proof -
  have "(\<lambda>r. ie_generation (entry_of r)) = cr_generation" by (simp add: entry_of_def fun_eq_iff)
  then show ?thesis
    using newest_map [of ie_generation entry_of None "filter (has_key k) rs"]
    by (simp add: filter_map comp_def)
qed

lemma index_for_new: "index_for mi_new []"
  by (simp add: index_for_def)

lemma index_for_step:
  assumes "index_for ix rs"
  shows "index_for (if (case mi_get ix (key_str (cr_key r)) of None \<Rightarrow> True
      | Some ex \<Rightarrow> ie_generation ex < cr_generation r) then mi_put (entry_of r) ix else ix) (rs @ [r])"
    (is "index_for ?ix' _")
proof -
  let ?ps = "map (\<lambda>r. (key_str (cr_key r), entry_of r)) rs"
  have get: "mi_get ix k = newest ie_generation None (map snd (filter (\<lambda>p. fst p = k) ?ps))" for k
    using assms newest_entries [of k rs] by (simp add: index_for_def)
  have "mi_inv ?ix' \<and> mi_get ?ix' k = newest ie_generation None
      (map snd (filter (\<lambda>p. fst p = k) (?ps @ [(key_str (cr_key r), entry_of r)])))" for k
  proof (rule idx.keep_newest_step [where t = ix])
    show "mi_inv ix" using assms by (simp add: index_for_def)
  qed (simp_all only: get entry_of_fields)
  then show ?thesis
    using newest_entries [of _ "rs @ [r]"] by (simp add: index_for_def)
qed

text \<open>The table that recovery builds, likewise.\<close>

definition table_for :: "(bytes \<times> complete_record) list \<Rightarrow> complete_record list \<Rightarrow> bool" where
  "table_for t rs \<longleftrightarrow> distinct (map fst t) \<and>
     (\<forall>k. map_of t k = newest cr_generation None (filter (has_key k) rs))"

lemma table_for_step:
  assumes "table_for t rs"
  shows "table_for (if (case map_of t (key_str (cr_key r)) of None \<Rightarrow> True
      | Some ex \<Rightarrow> cr_generation ex < cr_generation r) then AList.update (key_str (cr_key r)) r t else t)
    (rs @ [r])" (is "table_for ?t' _")
proof -
  have f: "map snd (filter (\<lambda>p. fst p = k) (map (\<lambda>r. (key_str (cr_key r), r)) rs)) = filter (has_key k) rs"
    for k rs
    by (simp add: filter_map comp_def)
  let ?ps = "map (\<lambda>r. (key_str (cr_key r), r)) rs"
  have get: "map_of t k = newest cr_generation None (map snd (filter (\<lambda>p. fst p = k) ?ps))" for k
    using assms by (simp only: f) (simp add: table_for_def)
  have "distinct (map fst ?t') \<and> map_of ?t' k = newest cr_generation None
      (map snd (filter (\<lambda>p. fst p = k) (?ps @ [(key_str (cr_key r), r)])))" for k
  proof (rule hm.keep_newest_step [where t = t])
    show "distinct (map fst t)" using assms by (simp add: table_for_def)
  qed (simp_all only: get)
  then show ?thesis
    using f [of _ "rs @ [r]"] by (simp add: table_for_def)
qed

lemma record_at_type: "B ! unat i ! 0 \<noteq> 2 \<Longrightarrow> record_at bs B i = None"
  by (auto simp: record_at_None complete_def desc_ok_def Let_def)

context device_contract
begin

text \<open>One block of a scan, as the index scan and recovery do it.\<close>

lemma rep_scan_step:
  assumes "36 \<le> unat bs" and "i < bc" and "length buf = unat bs"
    and step: "triple (rep_at (dev_at bs bc B) h ix)
      (case record_at (unat bs) B i of None \<Rightarrow> skip (B ! unat i) | Some rec \<Rightarrow> use_it rec (B ! unat i)) Q E"
    and err: "\<And>e r. fault e \<Longrightarrow> rep_at (dev_at bs bc B) h ix r \<Longrightarrow> E e r"
  shows "triple (rep_at (dev_at bs bc B) h ix)
    (bind_io (on_dev (d_read_block D i buf)) (\<lambda>buf.
     bind_io (lift_io (get_byte 0 buf)) (\<lambda>t.
     if t \<noteq> BLOCK_TYPE_RECORD_DESCRIPTOR then skip buf
     else
     bind_io (on_dev (verify_and_read_record oc D i)) (\<lambda>res.
     case res of None \<Rightarrow> skip buf | Some rec \<Rightarrow> use_it rec buf)))) Q E"
proof (rule rep_geometry_assume)
  assume geo: "length B = unat bc" "\<And>i. i < bc \<Longrightarrow> length (B ! unat i) = unat bs"
  have "0 < length (B ! unat i)" using geo(2) [OF assms(2)] assms(1) by linarith
  then have b0: "get_byte 0 (B ! unat i) = Ok (B ! unat i ! 0)" by (rule get_byte_Ok)
  show ?thesis
  proof (rule rep_read_bind [OF assms(2,3)])
    show "triple (rep_at (dev_at bs bc B) h ix)
      (bind_io (lift_io (get_byte 0 (B ! unat i))) (\<lambda>t.
       if t \<noteq> BLOCK_TYPE_RECORD_DESCRIPTOR then skip (B ! unat i)
       else
       bind_io (on_dev (verify_and_read_record oc D i)) (\<lambda>res.
       case res of None \<Rightarrow> skip (B ! unat i) | Some rec \<Rightarrow> use_it rec (B ! unat i)))) Q E"
    proof (cases "B ! unat i ! 0 = 2")
      case True
      then show ?thesis
        by (simp add: b0 layout_simps) (rule rep_verify_bind [OF assms(1,2)], rule step, rule err, assumption+)
    next
      case False
      with step show ?thesis by (simp add: b0 layout_simps record_at_type)
    qed
  qed (rule err)
qed

lemma build_index_loop_spec:
  assumes "36 \<le> unat bs" and "\<And>i. i \<in> set is \<Longrightarrow> i < bc" and "length buf = unat bs"
    and "index_for ix (records_in (unat bs) B seen)"
  shows "triple (rep_at (dev_at bs bc B) h ix) (build_index_loop oc D is buf)
    (\<lambda>_ r. \<exists>ix'. index_for ix' (records_in (unat bs) B (seen @ is)) \<and> rep_at (dev_at bs bc B) h ix' r)
    (\<lambda>e r. fault e \<and> (\<exists>ix'. rep_at (dev_at bs bc B) h ix' r))"
proof (rule rep_geometry_assume)
  assume geo: "length B = unat bc" "\<And>i. i < bc \<Longrightarrow> length (B ! unat i) = unat bs"
  show ?thesis
    using assms(2-)
  proof (induction "is" arbitrary: ix buf seen)
    case Nil
    then show ?case by (auto simp: triple_def)
  next
    case (Cons i "is")
    let ?Q = "\<lambda>_ r. \<exists>ix'. index_for ix' (records_in (unat bs) B (seen @ i # is)) \<and> rep_at (dev_at bs bc B) h ix' r"
    let ?E = "\<lambda>e r. fault e \<and> (\<exists>ix'. rep_at (dev_at bs bc B) h ix' r)"
    have i: "i < bc" "length (B ! unat i) = unat bs" using Cons.prems geo by auto
    have rest: "triple (rep_at (dev_at bs bc B) h ix') (build_index_loop oc D is (B ! unat i)) ?Q ?E"
      if "index_for ix' (records_in (unat bs) B (seen @ [i]))" for ix'
      using Cons.IH [of "B ! unat i" ix' "seen @ [i]"] that Cons.prems i by simp
    have skip: "triple (rep_at (dev_at bs bc B) h ix) (build_index_loop oc D is (B ! unat i)) ?Q ?E"
      if "record_at (unat bs) B i = None"
      using rest [of ix] that Cons.prems(3) by simp
    show ?case
      unfolding build_index_loop.simps
    proof (rule rep_scan_step [OF assms(1) i(1) Cons.prems(2)], goal_cases)
      case 1
      show ?case
      proof (cases "record_at (unat bs) B i")
        case None
        with skip show ?thesis by simp
      next
        case (Some rec)
        then have "complete (unat bs) B i rec" by (simp add: record_at_Some)
        then have e: "\<lparr>ie_key = key_str (cr_key rec), ie_generation = cr_generation rec,
            ie_descriptor_block = i, ie_total_size = rd_total_size (cr_header rec)\<rparr> = entry_of rec"
          by (simp add: entry_of_def complete_descriptor_block)
        have "records_in (unat bs) B (seen @ [i]) = records_in (unat bs) B seen @ [rec]"
          using Some by simp
        note step = rest [unfolded this, OF index_for_step [OF Cons.prems(3)]]
        show ?thesis
          unfolding Some option.case Let_def e
          by (rule rep_index_bind, split if_split, intro conjI impI)
            (use step in \<open>auto intro!: rep_modify_index\<close>)
      qed
    qed blast
  qed
qed

lemma replica_build_index_spec:
  assumes "36 \<le> unat bs"
  shows "triple (rep_at (dev_at bs bc B) h ix) (replica_build_index oc D)
    (\<lambda>_ r. \<exists>ix'. index_for ix' (records_in (unat bs) B (data_blocks bc)) \<and> rep_at (dev_at bs bc B) h ix' r)
    (\<lambda>e r. fault e \<and> (\<exists>ix'. rep_at (dev_at bs bc B) h ix' r))"
  unfolding replica_build_index_def
  apply (rule rep_modify_index [where f = "\<lambda>_. mi_new"])
  apply (rule rep_asks_bind [where x = bc], erule dev_count)
  apply (rule rep_asks_bind [where x = bs], erule dev_size)
  apply (rule build_index_loop_spec [where seen = "[]", simplified, OF assms])
    apply (simp_all add: set_data_blocks index_for_new)
  done

lemma collect_best_spec:
  assumes "36 \<le> unat bs" and "\<And>i. i \<in> set is \<Longrightarrow> i < bc" and "length buf = unat bs"
    and "table_for best (records_in (unat bs) B seen)"
  shows "triple (rep_at (dev_at bs bc B) h ix) (collect_best oc D is buf best)
    (\<lambda>t r. table_for t (records_in (unat bs) B (seen @ is)) \<and> rep_at (dev_at bs bc B) h ix r)
    (\<lambda>e r. fault e \<and> rep_at (dev_at bs bc B) h ix r)"
proof (rule rep_geometry_assume)
  assume geo: "length B = unat bc" "\<And>i. i < bc \<Longrightarrow> length (B ! unat i) = unat bs"
  show ?thesis
    using assms(2-)
  proof (induction "is" arbitrary: best buf seen)
    case Nil
    then show ?case by (auto simp: triple_def)
  next
    case (Cons i "is")
    have i: "i < bc" "length (B ! unat i) = unat bs" using Cons.prems geo by auto
    have rest: "triple (rep_at (dev_at bs bc B) h ix) (collect_best oc D is (B ! unat i) t)
        (\<lambda>t r. table_for t (records_in (unat bs) B (seen @ i # is)) \<and> rep_at (dev_at bs bc B) h ix r)
        (\<lambda>e r. fault e \<and> rep_at (dev_at bs bc B) h ix r)"
      if "table_for t (records_in (unat bs) B (seen @ [i]))" for t
      using Cons.IH [of "B ! unat i" t "seen @ [i]"] that Cons.prems i by simp
    show ?case
      unfolding collect_best.simps
    proof (rule rep_scan_step [OF assms(1) i(1) Cons.prems(2)], goal_cases)
      case 1
      show ?case
      proof (cases "record_at (unat bs) B i")
        case None
        with rest [of best] Cons.prems(3) show ?thesis by simp
      next
        case (Some rec)
        have "records_in (unat bs) B (seen @ [i]) = records_in (unat bs) B seen @ [rec]"
          using Some by simp
        from rest [unfolded this, OF table_for_step [OF Cons.prems(3)]] Some
        show ?thesis by (simp add: Let_def)
      qed
    qed blast
  qed
qed

end

section \<open>Recovery\<close>

lemma mark_valid_set:
  "mark_valid best = {0} \<union> (\<Union>(k, r) \<in> set best. footprint r)"
proof -
  have "fold (\<lambda>(k, rec) valid. set (cr_chunk_blocks rec) \<union> insert (cr_descriptor_block rec) valid) best V
      = V \<union> (\<Union>(k, r) \<in> set best. footprint r)" for V
    by (induction best arbitrary: V) (auto simp: footprint_def)
  then show ?thesis by (simp add: mark_valid_def)
qed

text \<open>The blocks that recovery keeps: the header and the footprints of the latest records.\<close>

definition kept_blocks :: "u32 \<Rightarrow> u32 \<Rightarrow> bytes list \<Rightarrow> u32 set" where
  "kept_blocks bs bc B = {0} \<union> (\<Union>r \<in> ran (latest bs bc B). footprint r)"

lemma mark_valid_table:
  assumes "table_for best (records_in (unat bs) B (data_blocks bc))"
  shows "mark_valid best = kept_blocks bs bc B"
proof -
  have "snd ` set best = ran (map_of best)"
    using assms by (simp add: table_for_def ran_distinct)
  moreover have "map_of best = latest bs bc B"
    using assms by (simp add: table_for_def latest_def fun_eq_iff)
  ultimately show ?thesis
    unfolding mark_valid_set kept_blocks_def by (metis (no_types, lifting) SUP_cong case_prod_beta' image_image)
qed

text \<open>The writes that the erase loop makes on the blocks \<open>is\<close>.\<close>

definition garbage_writes :: "u32 set \<Rightarrow> bytes \<Rightarrow> bytes list \<Rightarrow> u32 list \<Rightarrow> (u32 \<times> bytes) list" where
  "garbage_writes valid free B is =
     map (\<lambda>i. (i, free)) (filter (\<lambda>i. i \<notin> valid \<and> \<not> free_block (B ! unat i)) is)"

lemma garbage_writes_Cons:
  "garbage_writes valid free B (i # is) =
     (if i \<notin> valid \<and> \<not> free_block (B ! unat i) then [(i, free)] else []) @ garbage_writes valid free B is"
  by (simp add: garbage_writes_def)

lemma garbage_writes_elsewhere:
  assumes "i \<notin> set is"
  shows "garbage_writes valid free (B[unat i := b]) is = garbage_writes valid free B is"
    and "i \<notin> fst ` set (garbage_writes valid free B is)"
proof -
  have "B[unat i := b] ! unat j = B ! unat j" if "j \<in> set is" for j
    using that assms by (metis nth_list_update_neq word_unat_eq_iff)
  then have "filter (\<lambda>j. j \<notin> valid \<and> \<not> free_block (B[unat i := b] ! unat j)) is =
      filter (\<lambda>j. j \<notin> valid \<and> \<not> free_block (B ! unat j)) is"
    by (intro filter_cong) simp_all
  then show "garbage_writes valid free (B[unat i := b]) is = garbage_writes valid free B is"
    by (simp add: garbage_writes_def)
  show "i \<notin> fst ` set (garbage_writes valid free B is)"
    using assms by (auto simp: garbage_writes_def)
qed

context device_contract
begin

lemma erase_garbage_spec:
  assumes "0 < unat bs" and "length free = unat bs" and "distinct is" and "\<And>i. i \<in> set is \<Longrightarrow> i < bc"
    and "length buf = unat bs"
  shows "triple (rep_at (dev_at bs bc B) h ix) (erase_garbage D valid free is buf found)
    (\<lambda>_. rep_at (dev_at bs bc (apply_writes (garbage_writes valid free B is) B)) h ix)
    (\<lambda>e r. fault e \<and> (\<exists>B'. partial_write torn B (garbage_writes valid free B is) B' \<and>
       rep_at (dev_at bs bc B') h ix r))"
  using assms(3-)
proof (induction "is" arbitrary: buf found B)
  case Nil
  then show ?case by (simp add: triple_def garbage_writes_def)
next
  case (Cons i "is")
  let ?ws = "\<lambda>B is. garbage_writes valid free B is"
  show ?case
  proof (rule rep_geometry_assume)
    assume geo: "length B = unat bc" "\<And>i. i < bc \<Longrightarrow> length (B ! unat i) = unat bs"
    have i: "i < bc" "length (B ! unat i) = unat bs" "i \<notin> set is" using Cons.prems geo by auto
    then have b0: "get_byte 0 (B ! unat i) = Ok (B ! unat i ! 0)"
      using assms(1) by (intro get_byte_Ok) linarith
    consider "i \<in> valid" | "i \<notin> valid" "free_block (B ! unat i)" | "i \<notin> valid" "\<not> free_block (B ! unat i)" by blast
    then show ?thesis
    proof cases
      case 1
      with Cons show ?thesis by (simp add: garbage_writes_Cons)
    next
      case 2
      have "triple (rep_at (dev_at bs bc B) h ix) (erase_garbage D valid free is (B ! unat i) found)
          (\<lambda>_. rep_at (dev_at bs bc (apply_writes (?ws B is) B)) h ix)
          (\<lambda>e r. fault e \<and> (\<exists>B'. partial_write torn B (?ws B is) B' \<and> rep_at (dev_at bs bc B') h ix r))"
        using Cons i by simp
      then show ?thesis
        using 2 i Cons.prems(3)
        by (simp only: erase_garbage.simps if_False)
          (rule rep_read_bind, auto simp: b0 free_block_def garbage_writes_Cons intro: partial_write_refl)
    next
      case 3
      note same = garbage_writes_elsewhere [OF i(3), of valid free]
      have ws: "?ws B (i # is) = (i, free) # ?ws B is" using 3 by (simp add: garbage_writes_Cons)
      have "triple (rep_at (dev_at bs bc (B[unat i := free])) h ix) (erase_garbage D valid free is (B ! unat i) True)
          (\<lambda>_. rep_at (dev_at bs bc (apply_writes (?ws B is) (B[unat i := free]))) h ix)
          (\<lambda>e r. fault e \<and> (\<exists>B'. partial_write torn (B[unat i := free]) (?ws B is) B' \<and> rep_at (dev_at bs bc B') h ix r))"
        using Cons.IH [of "B ! unat i" "B[unat i := free]" True] Cons.prems i unfolding same(1) by simp
      then have "triple (rep_at (dev_at bs bc B) h ix)
          (bind_io (on_dev (d_write_block D i free)) (\<lambda>_. erase_garbage D valid free is (B ! unat i) True))
          (\<lambda>_. rep_at (dev_at bs bc (apply_writes (?ws B (i # is)) B)) h ix)
          (\<lambda>e r. fault e \<and> (\<exists>B'. partial_write torn B (?ws B (i # is)) B' \<and> rep_at (dev_at bs bc B') h ix r))"
        unfolding ws using i(1) assms(2) same(2) by (intro rep_write_seq)
      with 3 i Cons.prems(3) show ?thesis
        by (simp only: erase_garbage.simps if_False)
          (rule rep_read_bind, auto simp: b0 free_block_def intro: partial_write_refl)
    qed
  qed
qed

lemma replica_recover_spec:
  assumes "36 \<le> unat bs"
  shows "triple (rep_at (dev_at bs bc B) h ix) (replica_recover oc D fp)
    (\<lambda>_. rep_at (dev_at bs bc (apply_writes (garbage_writes (kept_blocks bs bc B) (make_free_buf bs fp)
       B (data_blocks bc)) B)) h ix)
    (\<lambda>e r. fault e \<and> (\<exists>B'. partial_write torn B (garbage_writes (kept_blocks bs bc B) (make_free_buf bs fp)
       B (data_blocks bc)) B' \<and> rep_at (dev_at bs bc B') h ix r))"
    (is "triple ?P _ (\<lambda>_. rep_at (dev_at bs bc (apply_writes ?ws B)) h ix) ?E")
proof -
  let ?z = "replicate (unat bs) (0 :: u8)"
  have best: "triple ?P (collect_best oc D (data_blocks bc) ?z [])
      (\<lambda>t r. mark_valid t = kept_blocks bs bc B \<and> ?P r) ?E"
    by (rule triple_conseq [OF collect_best_spec [where seen = "[]", OF assms]])
      (auto simp: set_data_blocks table_for_def [of "[]"] mark_valid_table intro: partial_write_refl)
  have erase: "triple ?P (erase_garbage D (kept_blocks bs bc B) (make_free_buf bs fp) (data_blocks bc) ?z False)
      (\<lambda>_. rep_at (dev_at bs bc (apply_writes ?ws B)) h ix) ?E"
    by (rule erase_garbage_spec)
      (use assms in \<open>auto simp: make_free_buf_def distinct_data_blocks set_data_blocks\<close>)
  have "distinct (map fst ?ws)"
    by (simp add: garbage_writes_def comp_def distinct_data_blocks)
  then have full: "partial_write torn B ?ws (apply_writes ?ws B)"
    by (rule partial_write_all)
  have flush: "triple (rep_at (dev_at bs bc (apply_writes ?ws B)) h ix)
      (if found then on_dev (d_flush D) else return_io ())
      (\<lambda>_. rep_at (dev_at bs bc (apply_writes ?ws B)) h ix) ?E" for found
    using full by (auto intro!: triple_return triple_conseq [OF rep_flush])
  have tail: "triple (\<lambda>r. mark_valid t = kept_blocks bs bc B \<and> ?P r)
      (let valid = mark_valid t; free = make_free_buf bs fp in
       bind_io (erase_garbage D valid free (data_blocks bc) ?z False) (\<lambda>found.
       if found then on_dev (d_flush D) else return_io ()))
      (\<lambda>_. rep_at (dev_at bs bc (apply_writes ?ws B)) h ix) ?E" for t
  proof (rule triple_assume [where A = "mark_valid t = kept_blocks bs bc B"])
    assume t: "mark_valid t = kept_blocks bs bc B"
    show ?thesis
      unfolding Let_def t
      by (rule triple_pre [OF triple_bind [OF erase flush]]) simp
  qed simp
  show ?thesis
    unfolding replica_recover_def
    apply (rule rep_asks_bind [where x = bs], erule dev_size)
    apply (rule rep_asks_bind [where x = bc], erule dev_count)
    apply (rule triple_bind [OF best tail])
    done
qed

end

section \<open>What recovery keeps and removes\<close>

definition tidy :: "u32 \<Rightarrow> u32 \<Rightarrow> bytes list \<Rightarrow> bool" where
  "tidy bs bc B \<longleftrightarrow> (\<forall>i r. 0 < i \<longrightarrow> i < bc \<longrightarrow> complete (unat bs) B i r \<longrightarrow>
     latest bs bc B (key_str (cr_key r)) = Some r)"

text \<open>A torn erasure leaves the old block or one that cannot belong to a record.\<close>

definition erase_tears :: "(bytes \<Rightarrow> bytes \<Rightarrow> bytes \<Rightarrow> bool) \<Rightarrow> bytes \<Rightarrow> bool" where
  "erase_tears torn free \<longleftrightarrow> (\<forall>x b. torn x free b \<longrightarrow> b = x \<or> \<not> live_block b)"

lemma garbage_partial:
  assumes "partial_write torn B (garbage_writes (kept_blocks bs bc B) free B (data_blocks bc)) B'"
    and "\<not> live_block free" and "erase_tears torn free"
  shows "length B' = length B"
    and "\<And>i. i < length B \<Longrightarrow> B' ! i = B ! i \<or> \<not> live_block (B' ! i)"
    and "\<And>c. unat c < length B \<Longrightarrow> c \<in> kept_blocks bs bc B \<Longrightarrow> B' ! unat c = B ! unat c"
proof -
  show "length B' = length B" using assms(1) by (simp add: partial_write_def)
  show "B' ! i = B ! i \<or> \<not> live_block (B' ! i)" if "i < length B" for i
  proof -
    have "B' ! i = B ! i \<or> B' ! i = free \<or> torn (B ! i) free (B' ! i)"
      using assms(1) that unfolding partial_write_def garbage_writes_def by fastforce
    with assms(2,3) show ?thesis unfolding erase_tears_def by metis
  qed
  show "B' ! unat c = B ! unat c" if "unat c < length B" "c \<in> kept_blocks bs bc B" for c
    using assms(1) that by (auto simp: partial_write_def garbage_writes_def word_unat_eq_iff [symmetric])
qed

lemma recover_keeps_latest:
  assumes "partial_write torn B (garbage_writes (kept_blocks bs bc B) free B (data_blocks bc)) B'"
    and "\<not> live_block free" and "erase_tears torn free"
  shows "latest bs bc B' k = latest bs bc B k"
    and "latest bs bc B k = Some r \<Longrightarrow> complete (unat bs) B' (cr_descriptor_block r) r"
proof -
  note g = garbage_partial [OF assms]
  show keep: "complete (unat bs) B' (cr_descriptor_block r) r" if r: "latest bs bc B k = Some r" for r
  proof (rule complete_frame [OF latest_Some(1) [OF r] g(1)])
    fix c
    assume c: "c \<in> footprint r"
    have "r \<in> ran (latest bs bc B)" using r by (rule ranI)
    with c have "c \<in> kept_blocks bs bc B" by (auto simp: kept_blocks_def)
    with g(3) complete_block_kind(1) [OF latest_Some(1) [OF r] c]
    show "B' ! unat c = B ! unat c" by blast
  qed
  show "latest bs bc B' k = latest bs bc B k"
  proof (rule latest_keep)
    show "complete (unat bs) B i r" if "complete (unat bs) B' i r" for i r
      using that g(1,2) by (rule complete_dead_change)
  qed (rule keep)
qed

lemma recover_tidy:
  fixes bs
  assumes B: "length B = unat bc" and free: "free_block free"
  defines "B' \<equiv> apply_writes (garbage_writes (kept_blocks bs bc B) free B (data_blocks bc)) B"
  shows "tidy bs bc B'"
    and "\<And>i. 0 < i \<Longrightarrow> i < bc \<Longrightarrow> free_block (B' ! unat i) \<or> i \<in> kept_blocks bs bc B"
proof -
  let ?ws = "garbage_writes (kept_blocks bs bc B) free B (data_blocks bc)"
  have dist: "distinct (map fst ?ws)"
    by (simp add: garbage_writes_def comp_def distinct_data_blocks)
  have part: "partial_write (\<lambda>_ _ _. False) B ?ws B'"
    unfolding B'_def using dist by (rule partial_write_all)
  note keep = recover_keeps_latest [OF part free_not_live [OF free]]
  show clean: "free_block (B' ! unat i) \<or> i \<in> kept_blocks bs bc B" if i: "0 < i" "i < bc" for i
  proof (cases "i \<in> kept_blocks bs bc B \<or> free_block (B ! unat i)")
    case True
    then show ?thesis
      using part i B free
      by (auto simp: partial_write_def garbage_writes_def word_less_nat_alt)
  next
    case False
    with i have "(i, free) \<in> set ?ws" by (auto simp: garbage_writes_def set_data_blocks)
    then have "B' ! unat i = free"
      unfolding B'_def using dist i B by (intro apply_writes_nth) (simp_all add: word_less_nat_alt)
    with free show ?thesis by simp
  qed
  show "tidy bs bc B'"
    unfolding tidy_def
  proof (intro allI impI)
    fix i r
    assume i: "0 < i" "i < bc" and r: "complete (unat bs) B' i r"
    have "i \<in> footprint r" using complete_descriptor_block [OF r] by (simp add: footprint_def)
    then have "\<not> free_block (B' ! unat i)" using complete_live [OF r] free_not_live by blast
    with clean [OF i] i(1) obtain k r' where r': "latest bs bc B k = Some r'" "i \<in> footprint r'"
      by (auto simp: kept_blocks_def ran_def)
    have "complete (unat bs) B' (cr_descriptor_block r') r'"
      using r'(1) by (rule keep(2) [rotated]) (simp add: erase_tears_def)
    from footprint_disjoint [OF this r r'(2) \<open>i \<in> footprint r\<close>] have "r = r'" by simp
    moreover have "latest bs bc B' k = latest bs bc B k"
      by (rule keep(1)) (simp add: erase_tears_def)
    ultimately show "latest bs bc B' (key_str (cr_key r)) = Some r"
      using r' latest_Some(2) [OF r'(1)] by simp
  qed
qed

end
