(* ===== verification/Ekv_Write.thy ===== *)
theory Ekv_Write
  imports Ekv_Scan
begin

text \<open>
  Writing and erasing a record on a replica: \<^verbatim>\<open>write_record\<close> makes exactly the writes that encode
  the record, and \<^verbatim>\<open>free_record\<close> overwrites exactly the blocks of a complete record, the descriptor
  first. A failing device leaves a partial write of that sequence.
\<close>

section \<open>Writing a record\<close>

lemma build_chunk_block_Ok:
  assumes "24 + unat (vc_payload_size ch) \<le> unat bs" and "unat (vc_payload_size ch) \<le> length rem"
  shows "build_chunk_block oc bs ch rem =
    Ok (chunk_block_of (unat bs) ch (take (unat (vc_payload_size ch)) rem))"
proof -
  let ?n = "unat (vc_payload_size ch)"
  have m: "marshal_chunk_header ch (replicate (unat bs) 0) =
      Ok (chunk_header_bytes ch @ replicate (unat bs - 20) 0)"
    using assms(1) by (simp add: marshal_chunk_header_Ok)
  have s: "slice_range 0 ?n rem = Ok (take ?n rem)"
    using assms(2) by (simp add: slice_range_Ok)
  have c: "copy_into 20 (take ?n rem) (chunk_header_bytes ch @ replicate (unat bs - 20) 0) =
      Ok ((chunk_header_bytes ch @ take ?n rem) @ replicate (unat bs - 20 - ?n) 0)"
    using assms by (subst copy_into_append) simp_all
  show ?thesis
    using assms
    by (simp add: build_chunk_block_def m s c layout_simps write_block_crc_Ok chunk_block_of_def)
qed

lemma build_descriptor_block_Ok:
  assumes "36 + length key + unat first_size \<le> unat bs" and "unat first_size \<le> length val"
  shows "build_descriptor_block oc bs hdr key val first_size =
    Ok (descriptor_block_of (unat bs) hdr key (take (unat first_size) val))"
proof -
  let ?n = "unat first_size"
  have m: "marshal_descriptor_header hdr (replicate (unat bs) 0) =
      Ok (descriptor_header_bytes hdr @ replicate (unat bs - 32) 0)"
    using assms(1) by (simp add: marshal_descriptor_header_Ok)
  have k: "copy_into 32 key (descriptor_header_bytes hdr @ replicate (unat bs - 32) 0) =
      Ok ((descriptor_header_bytes hdr @ key) @ replicate (unat bs - 32 - length key) 0)"
    using assms(1) by (subst copy_into_append) simp_all
  have s: "slice_range 0 ?n val = Ok (take ?n val)"
    using assms(2) by (simp add: slice_range_Ok)
  have header_size: "unat RECORD_DESCRIPTOR_HEADER_SIZE = 32" by (simp add: layout_simps)
  have c: "copy_into (32 + length key) (take ?n val)
      ((descriptor_header_bytes hdr @ key) @ replicate (unat bs - 32 - length key) 0) =
      Ok (((descriptor_header_bytes hdr @ key) @ take ?n val) @
        replicate (unat bs - 32 - length key - ?n) 0)"
    using assms by (subst copy_into_append) simp_all
  show ?thesis
    using assms
    by (simp only: build_descriptor_block_def m k s c bind_o.simps Let_def header_size)
      (simp add: write_block_crc_Ok descriptor_block_of_def)
qed

lemma unat_min: "unat (min a b :: u32) = min (unat a) (unat b)"
  by (simp add: min_def word_le_nat_alt)

lemma write_chunks_eq:
  assumes "24 \<le> unat bs" and "unat cap = unat bs - 24" and "length rem < 2 ^ 32"
    and "all = pre @ cs" and "ci = length pre"
  shows "write_chunks oc D bs db cap all ci cs rem =
    write_all D (chunk_writes (unat bs) db (word_of_nat (ci + 1)) cs rem)"
  using assms(3-)
proof (induction cs arbitrary: ci pre rem)
  case Nil
  then show ?case by (simp add: fun_eq_iff)
next
  case (Cons c cs)
  let ?n = "min (length rem) (unat bs - 24)"
  let ?p = "min (word_of_nat (length rem)) cap"
  have p: "unat ?p = ?n"
    using Cons.prems(1) assms(2) by (simp add: unat_min unat_of_nat_u32)
  have nxt: "(if ci + 1 < length all then all ! (ci + 1) else NULL_BLOCK_INDEX) =
      (case cs of [] \<Rightarrow> NULL_BLOCK_INDEX | c # _ \<Rightarrow> c)"
    using Cons.prems(2,3) by (cases cs) (simp_all add: nth_append)
  have w: "?p = word_of_nat ?n" unfolding p [symmetric] by simp
  let ?ch = "new_chunk_header db (word_of_nat (ci + 1)) ?n cs"
  have ch: "\<lparr>vc_block_type = BLOCK_TYPE_VALUE_CHUNK, vc_header_size = ucast VALUE_CHUNK_HEADER_SIZE,
      vc_flags = 0, vc_owner_descriptor = db, vc_chunk_index = word_of_nat (ci + 1),
      vc_payload_size = ?p,
      vc_next_chunk = (case cs of [] \<Rightarrow> NULL_BLOCK_INDEX | c # _ \<Rightarrow> c)\<rparr> = ?ch"
    by (simp add: new_chunk_header_def layout_simps w)
  have ps: "unat (vc_payload_size ?ch) = ?n" by (simp add: new_chunk_header_def w [symmetric] p)
  have build: "build_chunk_block oc bs ?ch rem =
      Ok (chunk_block_of (unat bs) ?ch (take (unat bs - 24) rem))"
  proof -
    have "24 + unat (vc_payload_size ?ch) \<le> unat bs" unfolding ps using assms(1) by simp
    moreover have "unat (vc_payload_size ?ch) \<le> length rem" unfolding ps by simp
    moreover have "take ?n rem = take (unat bs - 24) rem" by (simp add: min_def)
    ultimately show ?thesis by (simp only: build_chunk_block_Ok ps)
  qed
  have slice: "slice_range (unat ?p) (length rem) rem = Ok (drop (unat bs - 24) rem)"
    using p by (simp add: slice_range_Ok) (simp add: min_def)
  have "write_chunks oc D bs db cap all (ci + 1) cs (drop (unat bs - 24) rem) =
      write_all D (chunk_writes (unat bs) db (word_of_nat (ci + 1) + 1) cs (drop (unat bs - 24) rem))"
    using Cons.IH [of "drop (unat bs - 24) rem" "pre @ [c]" "ci + 1"] Cons.prems
    by (simp add: add.commute)
  then show ?case
    by (simp only: write_chunks.simps Let_def nxt ch build slice bind_io_lift_Ok chunk_writes.simps
        write_all.simps)
qed

lemma chunk_writes_length:
  "24 \<le> bs \<Longrightarrow> (c, b) \<in> set (chunk_writes bs db idx cs rem) \<Longrightarrow> length b = bs"
proof (induction cs arbitrary: idx rem)
  case (Cons c' cs)
  have "24 + length (take (bs - 24) rem) \<le> bs" using Cons.prems(1) by simp
  with Cons length_chunk_block_of show ?case by auto
qed simp

lemma record_writes_wf:
  assumes "fits_format bs key val" and "(c, b) \<in> set (record_writes bs db cs key gen val uflags)"
  shows "c \<in> set (db # cs)" and "length b = bs"
proof -
  have "c \<in> set (map fst (record_writes bs db cs key gen val uflags))"
    unfolding set_map by (rule image_eqI [OF _ assms(2)]) simp
  then show "c \<in> set (db # cs)" by (simp only: map_fst_record_writes)
  have "36 + length key + length (take (first_part bs key) val) \<le> bs"
    using assms(1) by (auto simp: fits_format_def first_part_def)
  with assms show "length b = bs"
    using length_descriptor_block_of chunk_writes_length [of bs c b]
    by (auto simp: record_writes_def fits_format_def)
qed

lemma ucast_key_len: "n < 2 ^ 16 \<Longrightarrow> (ucast (word_of_nat n :: u32) :: u16) = word_of_nat n"
  by (simp add: word_unat_eq_iff unsigned_ucast_eq unat_of_nat take_bit_nat_eq_self_iff)

context device_contract
begin

lemma write_record_spec:
  fixes gen uflags
  assumes fit: "fits_format (unat bs) key val" and cs: "length cs + 1 < 2 ^ 32"
    and dist: "distinct (db # cs)" and range: "\<And>c. c \<in> set (db # cs) \<Longrightarrow> c < bc"
  defines "ws \<equiv> record_writes (unat bs) db cs key gen val uflags"
  shows "triple (rep_at (dev_at bs bc B) h ix) (write_record oc D db cs key gen val uflags)
    (\<lambda>_. rep_at (dev_at bs bc (apply_writes ws B)) h ix)
    (\<lambda>e r. fault e \<and> (\<exists>B'. partial_write torn B ws B' \<and> rep_at (dev_at bs bc B') h ix r))"
proof -
  let ?n = "first_part (unat bs) key"
  let ?hdr = "new_header (unat bs) key gen val uflags cs"
  have sizes: "36 + length key \<le> unat bs" "length key < 2 ^ 16" "length val < 2 ^ 32"
    using fit by (simp_all add: fits_format_def)
  have k: "unat (word_of_nat (length key) :: u32) = length key"
    using sizes(2) by (intro unat_of_nat_u32) simp
  obtain fc where fc: "first_payload_capacity oc bs (word_of_nat (length key)) = Ok fc" "unat fc = ?n"
    using first_payload_capacity_Ok [of "word_of_nat (length key)" bs] sizes(1)
    by (auto simp: k first_part_def)
  obtain cap where cap: "chunk_payload_capacity oc bs = Ok cap" "unat cap = unat bs - 24"
    using chunk_payload_capacity_Ok [of bs] sizes(1) by auto
  let ?f = "min (word_of_nat (length val)) fc"
  have f: "unat ?f = min (length val) ?n"
    using sizes(3) fc(2) by (simp add: unat_min unat_of_nat_u32)
  have fw: "?f = word_of_nat (min (length val) ?n)" unfolding f [symmetric] by simp
  have add: "u32_add oc 1 (word_of_nat (length cs)) = Ok (1 + word_of_nat (length cs))"
    using cs unat_of_nat_u32 [of "length cs"] by (intro u32_add_Ok) simp
  have hdr: "\<lparr>rd_block_type = BLOCK_TYPE_RECORD_DESCRIPTOR,
      rd_header_size = ucast RECORD_DESCRIPTOR_HEADER_SIZE,
      rd_key_size = ucast (word_of_nat (length key) :: u32), rd_generation = gen,
      rd_total_size = word_of_nat (length val), rd_first_payload_size = ?f,
      rd_chunk_count = 1 + word_of_nat (length cs),
      rd_next_chunk = (case cs of [] \<Rightarrow> NULL_BLOCK_INDEX | c # _ \<Rightarrow> c), rd_flags = 0,
      rd_user_flags = uflags\<rparr> = ?hdr"
    by (simp only: new_header_def fw ucast_key_len [OF sizes(2)]) (simp add: layout_simps)
  have "take (min (length val) ?n) val = take ?n val" by (simp add: min_def)
  moreover have "36 + length key + unat ?f \<le> unat bs" using sizes(1) by (simp add: f first_part_def)
  moreover have "unat ?f \<le> length val" by (simp add: f)
  ultimately have build: "build_descriptor_block oc bs ?hdr key val ?f =
      Ok (descriptor_block_of (unat bs) ?hdr key (take ?n val))"
    by (simp only: build_descriptor_block_Ok f)
  have slice: "slice_range (unat ?f) (length val) val = Ok (drop ?n val)"
    by (simp add: f slice_range_Ok) (simp add: min_def)
  have chunks: "write_chunks oc D bs db cap cs 0 cs (drop ?n val) =
      write_all D (chunk_writes (unat bs) db 1 cs (drop ?n val))"
    using write_chunks_eq [of bs cap "drop ?n val" cs "[]" cs 0 oc D db] sizes cap by simp
  have "triple (rep_at (dev_at bs bc B) h ix) (write_all D ws)
    (\<lambda>_. rep_at (dev_at bs bc (apply_writes ws B)) h ix)
    (\<lambda>e r. fault e \<and> (\<exists>B'. partial_write torn B ws B' \<and> rep_at (dev_at bs bc B') h ix r))"
  proof (rule write_all_spec)
    show "distinct (map fst ws)" using dist by (simp add: ws_def)
    show "c < bc \<and> length b = unat bs" if "(c, b) \<in> set ws" for c b
      using record_writes_wf [OF fit that [unfolded ws_def]] range by simp
  qed
  then show ?thesis
    unfolding write_record_def
    apply (intro rep_asks_bind [where x = bs], erule_tac dev_size)
    apply (simp only: Let_def fc(1) cap(1) add hdr build slice chunks bind_io_lift_Ok)
    apply (simp only: ws_def record_writes_def write_all.simps)
    done
qed

end

section \<open>Erasing a record\<close>

definition erase_writes :: "bytes \<Rightarrow> complete_record \<Rightarrow> (u32 \<times> bytes) list" where
  "erase_writes free r = map (\<lambda>c. (c, free)) (cr_descriptor_block r # cr_chunk_blocks r)"

context device_contract
begin

lemma free_loop_spec:
  assumes "chain (unat bs) B0 db idx nxt cs v" and "24 \<le> unat bs" and "length free = unat bs"
    and "distinct cs" and "set cs \<inter> visited = {}" and "length cbuf = unat bs"
    and "\<And>c. c \<in> set cs \<Longrightarrow> c < bc \<and> B ! unat c = B0 ! unat c \<and> length (B ! unat c) = unat bs"
  shows "triple (rep_at (dev_at bs bc B) h ix) (free_loop oc D bc free nxt visited cbuf)
    (\<lambda>_. rep_at (dev_at bs bc (apply_writes (map (\<lambda>c. (c, free)) cs) B)) h ix)
    (\<lambda>e r. fault e \<and> (\<exists>B'. partial_write torn B (map (\<lambda>c. (c, free)) cs) B' \<and>
       rep_at (dev_at bs bc B') h ix r))"
  using assms
proof (induction arbitrary: B visited cbuf rule: chain.induct)
  case (chain_end idx)
  then show ?case by (subst free_loop.simps) (simp add: triple_def)
next
  case (chain_step nxt idx cs v)
  let ?b = "B ! unat nxt"
  let ?B = "B[unat nxt := free]"
  have b: "nxt < bc" "?b = B0 ! unat nxt" "length ?b = unat bs"
    using chain_step.prems(6) [of nxt] by auto
  have um: "unmarshal_chunk_header oc ?b = Ok (read_chunk_header ?b, True)"
    using chain_step.hyps(3) chain_step.prems(1) b
    by (simp add: unmarshal_chunk_header_Ok chunk_ok_def Let_def)
  have go: "\<not> (nxt = NULL_BLOCK_INDEX \<or> bc \<le> nxt)" "nxt \<notin> visited"
    using chain_step.hyps(1) b(1) chain_step.prems(4) by (auto simp: not_le)
  have same: "?B ! unat c = B ! unat c" if "c \<in> set cs" for c
  proof -
    have "nxt \<noteq> c" using that chain_step.prems(3) by auto
    then show ?thesis by (metis nth_list_update_neq word_unat_eq_iff)
  qed
  have len: "length (?B ! unat c) = unat bs" if "c \<in> set cs" for c
    by (metis same [OF that] chain_step.prems(6) list.set_intros(2) that)
  show ?case
    apply (subst free_loop.simps)
    apply (simp only: go if_False not_False_eq_True)
    apply (rule rep_read_bind [OF b(1) chain_step.prems(5)])
     apply (simp only: um bind_io_lift_Ok prod.case not_True_eq_False if_False Let_def list.map)
     apply (rule rep_write_seq [OF b(1) chain_step.prems(2)])
      using chain_step.prems(3) apply force
     unfolding b(2)
     apply (rule chain_step.IH)
          using chain_step.prems b same len apply auto
    done
qed

lemma free_record_spec:
  fixes fp
  assumes bs: "36 \<le> unat bs" and c: "complete (unat bs) B db r0"
  defines "ws \<equiv> erase_writes (make_free_buf bs fp) r0"
  shows "triple (rep_at (dev_at bs bc B) h ix) (free_record oc D db fp)
    (\<lambda>_. rep_at (dev_at bs bc (apply_writes ws B)) h ix)
    (\<lambda>e r. fault e \<and> (\<exists>B'. partial_write torn B ws B' \<and> rep_at (dev_at bs bc B') h ix r))"
proof (rule rep_geometry_assume)
  assume geo: "length B = unat bc" "\<And>i. i < bc \<Longrightarrow> length (B ! unat i) = unat bs"
  let ?free = "make_free_buf bs fp"
  let ?b = "B ! unat db"
  let ?cs = "cr_chunk_blocks r0"
  let ?B = "B[unat db := ?free]"
  obtain v where ch: "chain (unat bs) B db 1 (rd_next_chunk (read_descriptor_header ?b)) ?cs v"
    and dist: "distinct ?cs"
    using c by (auto simp: complete_def Let_def)
  have range: "d < bc" if "d \<in> footprint r0" for d
    using complete_block_kind(1) [OF c that] geo(1) by (simp add: word_less_nat_alt)
  have db: "cr_descriptor_block r0 = db" "db < bc" "length ?b = unat bs"
    using complete_descriptor_block [OF c] range [of db] geo(2) by (auto simp: footprint_def)
  have notin: "db \<notin> set ?cs"
    using complete_block_kind(3) [OF c] chain_blocks [OF ch, of db] c
    by (auto simp: complete_def desc_ok_def Let_def)
  have um: "unmarshal_descriptor_header oc ?b = Ok (read_descriptor_header ?b, True)"
    using c bs db(3) by (simp add: unmarshal_descriptor_header_Ok complete_def desc_ok_def Let_def)
  have ws: "ws = (db, ?free) # map (\<lambda>c. (c, ?free)) ?cs"
    by (simp add: ws_def erase_writes_def db(1))
  have "?B ! unat d = B ! unat d" if "d \<in> set ?cs" for d
  proof -
    have "db \<noteq> d" using that notin by auto
    then show ?thesis by (metis nth_list_update_neq word_unat_eq_iff)
  qed
  then have loop: "triple (rep_at (dev_at bs bc ?B) h ix)
      (free_loop oc D bc ?free (rd_next_chunk (read_descriptor_header ?b)) {} (replicate (unat bs) 0))
      (\<lambda>_. rep_at (dev_at bs bc (apply_writes (map (\<lambda>c. (c, ?free)) ?cs) ?B)) h ix)
      (\<lambda>e r. fault e \<and> (\<exists>B'. partial_write torn ?B (map (\<lambda>c. (c, ?free)) ?cs) B' \<and>
         rep_at (dev_at bs bc B') h ix r))"
    by (intro free_loop_spec [OF ch])
      (use bs dist range geo(2) in \<open>auto simp: make_free_buf_def footprint_def\<close>)
  show ?thesis
    unfolding free_record_def
    apply (rule rep_asks_bind [where x = bs], erule dev_size)
    apply (rule rep_asks_bind [where x = bc], erule dev_count)
    apply (rule rep_read_bind [OF db(2)], simp)
     apply (simp only: um bind_io_lift_Ok prod.case not_True_eq_False if_False Let_def ws)
     apply (rule rep_write_seq [OF db(2)])
       apply (simp add: make_free_buf_def)
      using notin apply force
     apply (rule loop)
    apply (auto intro: partial_write_refl)
    done
qed

end

end
