(* ===== verification/Ekv_Put.thy ===== *)
theory Ekv_Put
  imports Ekv_Write
begin

text \<open>
  The effect of \<^verbatim>\<open>Replica::put\<close>, of erasing a record and of \<^verbatim>\<open>Replica::get_with_generation\<close> on the
  map from index keys to their latest records. A put that succeeds updates the map at one key. A put
  that fails leaves the map as it was, or updated at that key: it is atomic with respect to a later
  index scan.
\<close>

section \<open>Updates of the map of latest records\<close>

definition index_ok :: "u32 \<Rightarrow> u32 \<Rightarrow> bytes list \<Rightarrow> mem_index \<Rightarrow> bool" where
  "index_ok bs bc B ix \<longleftrightarrow> mi_inv ix \<and> (\<forall>k. mi_get ix k = map_option entry_of (latest bs bc B k))"

lemma index_ok_scan: "index_for ix (records_in (unat bs) B (data_blocks bc)) \<longleftrightarrow> index_ok bs bc B ix"
  by (simp add: index_for_def index_ok_def latest_def)

lemma latest_put:
  assumes "complete (unat bs) B' db new" and "0 < db" and "db < bc" and "has_key ks new"
    and sub: "\<And>i r. complete (unat bs) B' i r \<Longrightarrow> complete (unat bs) B i r \<or> r = new"
    and keep: "\<And>i r. complete (unat bs) B i r \<Longrightarrow> \<not> has_key ks r \<Longrightarrow> complete (unat bs) B' i r"
    and newer: "\<And>i r. 0 < i \<Longrightarrow> i < bc \<Longrightarrow> complete (unat bs) B i r \<Longrightarrow> has_key ks r \<Longrightarrow>
      cr_generation r < cr_generation new"
  shows "latest bs bc B' = (latest bs bc B)(ks \<mapsto> new)"
proof
  fix k
  show "latest bs bc B' k = ((latest bs bc B)(ks \<mapsto> new)) k"
  proof (cases "k = ks")
    case True
    have "latest bs bc B' ks = Some new"
      using assms(1-4) by (rule latest_dominant) (use sub newer in blast)
    with True show ?thesis by simp
  next
    case False
    have "latest bs bc B' k = latest bs bc B k"
      by (rule latest_cong) (use False assms(4) sub keep in blast)
    with False show ?thesis by simp
  qed
qed

lemma tidy_put:
  assumes "latest bs bc B' = (latest bs bc B)(ks \<mapsto> new)" and "tidy bs bc B" and "has_key ks new"
    and sub: "\<And>i r. complete (unat bs) B' i r \<Longrightarrow>
      complete (unat bs) B i r \<and> latest bs bc B ks \<noteq> Some r \<or> r = new"
  shows "tidy bs bc B'"
  unfolding tidy_def
proof (intro allI impI)
  fix i r
  assume i: "0 < i" "i < bc" "complete (unat bs) B' i r"
  from sub [OF i(3)] show "latest bs bc B' (key_str (cr_key r)) = Some r"
  proof
    assume r: "complete (unat bs) B i r \<and> latest bs bc B ks \<noteq> Some r"
    with assms(2) i have "latest bs bc B (key_str (cr_key r)) = Some r" by (simp add: tidy_def)
    with r assms(1) show ?thesis by (cases "key_str (cr_key r) = ks") auto
  qed (use assms(1,3) in simp)
qed

lemma latest_delete:
  assumes "tidy bs bc B" and "latest bs bc B ks = Some r0"
    and change: "\<And>i r. complete (unat bs) B' i r \<longleftrightarrow> complete (unat bs) B i r \<and> i \<noteq> cr_descriptor_block r0"
  shows "latest bs bc B' = (latest bs bc B)(ks := None)" and "tidy bs bc B'"
proof -
  note r0 = latest_Some [OF assms(2)]
  show l: "latest bs bc B' = (latest bs bc B)(ks := None)"
  proof
    fix k
    show "latest bs bc B' k = ((latest bs bc B)(ks := None)) k"
    proof (cases "k = ks")
      case True
      have "\<not> has_key ks r" if r: "0 < i" "i < bc" "complete (unat bs) B' i r" for i r
      proof
        assume "has_key ks r"
        with assms(1,2) r change have "r = r0" by (auto simp: tidy_def)
        with r change show False using complete_descriptor_block by blast
      qed
      then have "latest bs bc B' ks = None" by (auto simp: latest_None)
      with True show ?thesis by simp
    next
      case False
      have "latest bs bc B' k = latest bs bc B k"
      proof (rule latest_cong)
        fix i r
        assume i: "0 < i" "i < bc" "has_key k r"
        have "i \<noteq> cr_descriptor_block r0" if "complete (unat bs) B i r"
          using that r0(1,2) False i(3) complete_deterministic by blast
        then show "complete (unat bs) B' i r \<longleftrightarrow> complete (unat bs) B i r"
          using change by blast
      qed
      with False show ?thesis by simp
    qed
  qed
  show "tidy bs bc B'"
    unfolding tidy_def
  proof (intro allI impI)
    fix i r
    assume i: "0 < i" "i < bc" "complete (unat bs) B' i r"
    then have r: "complete (unat bs) B i r" "i \<noteq> cr_descriptor_block r0" using change by auto
    with i assms(1) have "latest bs bc B (key_str (cr_key r)) = Some r" by (simp add: tidy_def)
    moreover have "key_str (cr_key r) \<noteq> ks"
      using calculation assms(2) r complete_descriptor_block [OF r(1)] by auto
    ultimately show "latest bs bc B' (key_str (cr_key r)) = Some r" using l by simp
  qed
qed

section \<open>Erasing\<close>

lemma erase_writes_blocks:
  assumes "complete (unat bs) B db r0"
  shows "distinct (map fst (erase_writes free r0))" and "fst ` set (erase_writes free r0) = footprint r0"
proof -
  obtain v where ch: "chain (unat bs) B db 1 (rd_next_chunk (read_descriptor_header (B ! unat db)))
      (cr_chunk_blocks r0) v" and "distinct (cr_chunk_blocks r0)" and "cr_descriptor_block r0 = db"
    using assms by (auto simp: complete_def Let_def)
  moreover have "db \<notin> set (cr_chunk_blocks r0)"
    using chain_blocks [OF ch, of db] assms by (auto simp: complete_def desc_ok_def Let_def)
  ultimately show "distinct (map fst (erase_writes free r0))"
    by (simp add: erase_writes_def comp_def)
  show "fst ` set (erase_writes free r0) = footprint r0"
    by (auto simp: erase_writes_def footprint_def image_image)
qed

text \<open>An interrupted erasure changes only blocks of the record, and makes no live block.\<close>

lemma erase_partial:
  assumes "partial_write torn B (erase_writes free r0) B'" and "\<not> live_block free" and "erase_tears torn free"
    and "i < length B"
  shows "B' ! i = B ! i \<or> i \<in> unat ` footprint r0 \<and> \<not> live_block (B' ! i)"
proof -
  consider "B' ! i = B ! i" | c where "c \<in> footprint r0" "i = unat c"
      "B' ! i = free \<or> torn (B ! i) free (B' ! i)"
    using assms(1,4) unfolding partial_write_def erase_writes_def footprint_def by fastforce
  then show ?thesis
  proof cases
    case (2 c)
    with assms(2,3) show ?thesis unfolding erase_tears_def by blast
  qed simp
qed

lemma erase_effect:
  assumes "complete (unat bs) B db r0" and "\<not> live_block free"
  shows "complete (unat bs) (apply_writes (erase_writes free r0) B) i r \<longleftrightarrow>
    complete (unat bs) B i r \<and> i \<noteq> db"
proof (rule complete_remove)
  note d = erase_writes_blocks [OF assms(1), of free]
  have "(cr_descriptor_block r0, free) \<in> set (erase_writes free r0)" by (simp add: erase_writes_def)
  then have "apply_writes (erase_writes free r0) B ! unat db = free"
    using apply_writes_nth [OF d(1)] complete_block_kind(1) [OF assms(1), of db]
      complete_descriptor_block [OF assms(1)] by (auto simp: footprint_def)
  with assms(2) show "\<not> live_block (apply_writes (erase_writes free r0) B ! unat db)" by simp
  fix i
  assume "i < length B"
  then show "apply_writes (erase_writes free r0) B ! i = B ! i \<or>
      i \<in> unat ` footprint r0 \<and> \<not> live_block (apply_writes (erase_writes free r0) B ! i)"
    using erase_partial [OF partial_write_all [OF d(1)] assms(2), of "\<lambda>_ _ _. False"]
    by (simp add: erase_tears_def)
qed (use assms in simp_all)

lemma erase_partial_effect:
  assumes part: "partial_write torn B (erase_writes free r0) B'" and "\<not> live_block free"
    and "erase_tears torn free" and old: "complete (unat bs) B db r0"
  shows "complete (unat bs) B' i r \<Longrightarrow> complete (unat bs) B i r"
    and "complete (unat bs) B i r \<Longrightarrow> i \<noteq> db \<Longrightarrow> complete (unat bs) B' i r"
proof -
  note p = erase_partial [OF assms(1-3)]
  have len: "length B' = length B" using part by (simp add: partial_write_def)
  show "complete (unat bs) B i r" if "complete (unat bs) B' i r"
    using that len by (rule complete_dead_change) (use p in blast)
  show "complete (unat bs) B' i r" if c: "complete (unat bs) B i r" "i \<noteq> db"
  proof (rule complete_frame [OF c(1) len])
    fix x
    assume x: "x \<in> footprint r"
    then have "x \<notin> footprint r0" using footprint_disjoint [OF old c(1)] c(2) by blast
    with p [OF complete_block_kind(1) [OF c(1) x]] show "B' ! unat x = B ! unat x" by auto
  qed
qed

section \<open>Writing a new record into free blocks\<close>

definition put_blocks :: "u32 \<Rightarrow> u32 \<Rightarrow> bytes list \<Rightarrow> bytes \<Rightarrow> bytes \<Rightarrow> u32 list" where
  "put_blocks bs bc B key val = take (1 + extra_blocks (unat bs) key val) (free_list bc B)"

definition put_writes ::
    "u32 \<Rightarrow> u32 \<Rightarrow> bytes list \<Rightarrow> bytes \<Rightarrow> u32 \<Rightarrow> bytes \<Rightarrow> u32 \<Rightarrow> (u32 \<times> bytes) list" where
  "put_writes bs bc B key gen val uflags = (let bl = put_blocks bs bc B key val in
     record_writes (unat bs) (hd bl) (tl bl) key gen val uflags)"

definition put_record ::
    "u32 \<Rightarrow> u32 \<Rightarrow> bytes list \<Rightarrow> bytes \<Rightarrow> u32 \<Rightarrow> bytes \<Rightarrow> u32 \<Rightarrow> complete_record" where
  "put_record bs bc B key gen val uflags = (let bl = put_blocks bs bc B key val in
     new_record (unat bs) (hd bl) (tl bl) key gen val uflags)"

text \<open>There is room for the record: enough blocks are free.\<close>

definition has_room :: "u32 \<Rightarrow> u32 \<Rightarrow> bytes list \<Rightarrow> bytes \<Rightarrow> bytes \<Rightarrow> bool" where
  "has_room bs bc B key val \<longleftrightarrow> 1 + extra_blocks (unat bs) key val \<le> length (free_list bc B)"

text \<open>The checksum detects every torn block of the writes \<open>ws\<close>.\<close>

definition tears_detected ::
    "(bytes \<Rightarrow> bytes \<Rightarrow> bytes \<Rightarrow> bool) \<Rightarrow> bytes list \<Rightarrow> (u32 \<times> bytes) list \<Rightarrow> bool" where
  "tears_detected torn B ws \<longleftrightarrow>
     (\<forall>(c, b) \<in> set ws. \<forall>b'. torn (B ! unat c) b b' \<longrightarrow> b' = b \<or> \<not> live_block b')"

lemma put_record_fields [simp]:
  "cr_key (put_record bs bc B key gen val uflags) = key"
  "cr_generation (put_record bs bc B key gen val uflags) = gen"
  "cr_value (put_record bs bc B key gen val uflags) = val"
  "cr_descriptor_block (put_record bs bc B key gen val uflags) = hd (put_blocks bs bc B key val)"
  "cr_chunk_blocks (put_record bs bc B key gen val uflags) = tl (put_blocks bs bc B key val)"
  "rd_total_size (cr_header (put_record bs bc B key gen val uflags)) = word_of_nat (length val)"
  "rd_user_flags (cr_header (put_record bs bc B key gen val uflags)) = uflags"
  by (simp_all add: put_record_def new_record_def new_header_def Let_def)

lemma put_blocks_facts:
  assumes "has_room bs bc B key val"
  shows "put_blocks bs bc B key val = hd (put_blocks bs bc B key val) # tl (put_blocks bs bc B key val)"
    and "length (put_blocks bs bc B key val) = 1 + extra_blocks (unat bs) key val"
    and "distinct (put_blocks bs bc B key val)"
    and "\<And>c. c \<in> set (put_blocks bs bc B key val) \<Longrightarrow> 0 < c \<and> c < bc \<and> free_block (B ! unat c)"
proof -
  show len: "length (put_blocks bs bc B key val) = 1 + extra_blocks (unat bs) key val"
    using assms by (simp add: put_blocks_def has_room_def)
  then show "put_blocks bs bc B key val = hd (put_blocks bs bc B key val) # tl (put_blocks bs bc B key val)"
    by (cases "put_blocks bs bc B key val") simp_all
  show "distinct (put_blocks bs bc B key val)"
    by (simp add: put_blocks_def free_list_def distinct_data_blocks)
  show "0 < c \<and> c < bc \<and> free_block (B ! unat c)" if "c \<in> set (put_blocks bs bc B key val)" for c
    using in_set_takeD [OF that [unfolded put_blocks_def]] by (simp add: free_list_def set_data_blocks)
qed

lemma put_descriptor_block:
  assumes "has_room bs bc B key val"
  shows "0 < hd (put_blocks bs bc B key val)" and "hd (put_blocks bs bc B key val) < bc"
proof -
  have "put_blocks bs bc B key val \<noteq> []" using put_blocks_facts(2) [OF assms] by auto
  then have "hd (put_blocks bs bc B key val) \<in> set (put_blocks bs bc B key val)" by (rule hd_in_set)
  from put_blocks_facts(4) [OF assms this]
  show "0 < hd (put_blocks bs bc B key val)" and "hd (put_blocks bs bc B key val) < bc" by simp_all
qed

lemma footprint_put_record:
  "has_room bs bc B key val \<Longrightarrow>
   footprint (put_record bs bc B key gen val uflags) = set (put_blocks bs bc B key val)"
  unfolding put_record_def Let_def footprint_new_record by (simp only: put_blocks_facts(1) [symmetric])

lemma put_writes_blocks:
  assumes "has_room bs bc B key val"
  shows "map fst (put_writes bs bc B key gen val uflags) = put_blocks bs bc B key val"
  unfolding put_writes_def Let_def map_fst_record_writes by (simp only: put_blocks_facts(1) [OF assms, symmetric])

lemma put_complete:
  assumes "length B = unat bc" and "fits_format (unat bs) key val" and "has_room bs bc B key val"
  shows "complete (unat bs) (apply_writes (put_writes bs bc B key gen val uflags) B)
    (hd (put_blocks bs bc B key val)) (put_record bs bc B key gen val uflags)"
proof -
  note pb = put_blocks_facts [OF assms(3)]
  let ?bl = "put_blocks bs bc B key val"
  let ?ws = "put_writes bs bc B key gen val uflags"
  have set: "set (hd ?bl # tl ?bl) = set ?bl" by (simp only: pb(1) [symmetric])
  show ?thesis
    unfolding put_record_def Let_def
  proof (rule new_record_complete [OF assms(2)])
    show "length (tl ?bl) = extra_blocks (unat bs) key val" using pb(2) by simp
    show "distinct (hd ?bl # tl ?bl)" using pb(3) by (simp only: pb(1) [symmetric])
    show "unat c < length (apply_writes ?ws B)" if "c \<in> set (hd ?bl # tl ?bl)" for c
      using that pb(4) [of c] assms(1) unfolding set by (simp add: word_less_nat_alt)
    show "length (apply_writes ?ws B) < 2 ^ 32" using assms(1) unat_u32_less [of bc] by simp
    fix c b
    assume cb: "(c, b) \<in> set (record_writes (unat bs) (hd ?bl) (tl ?bl) key gen val uflags)"
    then have ws: "(c, b) \<in> set ?ws" by (simp add: put_writes_def Let_def)
    have "c \<in> set ?bl" using record_writes_wf(1) [OF assms(2) cb] unfolding set .
    with pb(4) [of c] assms(1) have "unat c < length B" by (simp add: word_less_nat_alt)
    with ws pb(3) show "apply_writes ?ws B ! unat c = b"
      by (intro apply_writes_nth) (simp_all only: put_writes_blocks [OF assms(3)])
  qed
qed

lemma put_written:
  assumes "length B = unat bc" and "fits_format (unat bs) key val" and "has_room bs bc B key val"
  shows "complete (unat bs) (apply_writes (put_writes bs bc B key gen val uflags) B) i r \<longleftrightarrow>
    complete (unat bs) B i r \<or>
    i = hd (put_blocks bs bc B key val) \<and> r = put_record bs bc B key gen val uflags"
proof (rule complete_add [OF _ put_complete [OF assms]], unfold footprint_put_record [OF assms(3)])
  fix i
  assume "i \<notin> unat ` set (put_blocks bs bc B key val)"
  then show "apply_writes (put_writes bs bc B key gen val uflags) B ! i = B ! i"
    by (intro apply_writes_other) (simp only: put_writes_blocks [OF assms(3)] not_False_eq_True)
qed (use put_blocks_facts(4) [OF assms(3)] free_not_live in auto)

lemma put_partial:
  assumes "length B = unat bc" and "fits_format (unat bs) key val" and "has_room bs bc B key val"
    and part: "partial_write torn B (put_writes bs bc B key gen val uflags) B'"
    and "tears_detected torn B (put_writes bs bc B key gen val uflags)"
  shows "complete (unat bs) B i r \<Longrightarrow> complete (unat bs) B' i r"
    and "complete (unat bs) B' i r \<Longrightarrow> complete (unat bs) B i r \<or>
      i = hd (put_blocks bs bc B key val) \<and> r = put_record bs bc B key gen val uflags"
proof -
  let ?ws = "put_writes bs bc B key gen val uflags"
  note fp = footprint_put_record [OF assms(3)] and pw = put_writes_blocks [OF assms(3)]
  have len: "length (apply_writes ?ws B) = length B" "length B' = length B"
    using part by (simp_all add: partial_write_def)
  have same: "apply_writes ?ws B ! i = B ! i" if "i \<notin> unat ` footprint (put_record bs bc B key gen val uflags)" for i
    using that unfolding fp by (intro apply_writes_other) (simp only: pw not_False_eq_True)
  have free: "\<not> live_block (B ! unat c)" if "c \<in> footprint (put_record bs bc B key gen val uflags)" for c
    using that put_blocks_facts(4) [OF assms(3)] free_not_live unfolding fp by blast
  have step: "B' ! i = B ! i \<or> i \<in> unat ` footprint (put_record bs bc B key gen val uflags) \<and>
      (B' ! i = apply_writes ?ws B ! i \<or> \<not> live_block (B' ! i))" if i: "i < length B" for i
  proof (cases "B' ! i = B ! i")
    case False
    with part i obtain c b where cb: "(c, b) \<in> set ?ws" "i = unat c"
        "B' ! i = b \<or> torn (B ! i) b (B' ! i)"
      unfolding partial_write_def by blast
    have "apply_writes ?ws B ! i = b"
      using cb i put_blocks_facts(3) [OF assms(3)] unfolding cb(2)
      by (intro apply_writes_nth) (simp_all only: pw)
    moreover have "c \<in> set (map fst ?ws)" unfolding set_map by (rule image_eqI [OF _ cb(1)]) simp
    moreover have "B' ! i = b \<or> \<not> live_block (B' ! i)"
      using cb assms(5) unfolding tears_detected_def by fast
    ultimately show ?thesis using cb(2) unfolding fp pw by auto
  qed simp
  note p = complete_partial_add [OF len put_complete [OF assms(1-3)] same free step]
  show "complete (unat bs) B i r \<Longrightarrow> complete (unat bs) B' i r" by (rule p(1))
  show "complete (unat bs) B' i r \<Longrightarrow> complete (unat bs) B i r \<or>
      i = hd (put_blocks bs bc B key val) \<and> r = put_record bs bc B key gen val uflags" by (rule p(2))
qed

section \<open>The map after a put\<close>

lemma partial_write_Nil: "partial_write torn B [] B' \<longleftrightarrow> B' = B"
  by (auto simp: partial_write_def intro: nth_equalityI)

text \<open>The blocks of the old record of the key, erased after the new one has been written.\<close>

definition old_erasure :: "u32 \<Rightarrow> u32 \<Rightarrow> bytes list \<Rightarrow> bytes \<Rightarrow> bytes \<Rightarrow> (u32 \<times> bytes) list" where
  "old_erasure bs bc B free ks =
     (case latest bs bc B ks of None \<Rightarrow> [] | Some r0 \<Rightarrow> erase_writes free r0)"

definition put_medium ::
    "u32 \<Rightarrow> u32 \<Rightarrow> bytes list \<Rightarrow> bytes \<Rightarrow> bytes \<Rightarrow> u32 \<Rightarrow> bytes \<Rightarrow> u32 \<Rightarrow> bytes list" where
  "put_medium bs bc B free key gen val uflags =
     apply_writes (old_erasure bs bc B free (key_str key))
       (apply_writes (put_writes bs bc B key gen val uflags) B)"

lemma put_newer:
  assumes "\<And>r0. latest bs bc B ks = Some r0 \<Longrightarrow> cr_generation r0 < gen"
    and "0 < i" "i < bc" "complete (unat bs) B i r" "has_key ks r"
  shows "cr_generation r < gen"
proof -
  obtain r0 where r0: "latest bs bc B ks = Some r0"
    using assms(2-) by (cases "latest bs bc B ks") (auto simp: latest_None)
  from latest_Some(5) [OF r0 assms(2-)] assms(1) [OF r0] show ?thesis by simp
qed

text \<open>Once the new record is written, no erasure of the old one matters.\<close>

lemma put_erasing:
  assumes "length B = unat bc" and "fits_format (unat bs) key val" and "has_room bs bc B key val"
    and newer: "\<And>r0. latest bs bc B (key_str key) = Some r0 \<Longrightarrow> cr_generation r0 < gen"
    and free: "\<not> live_block free" "erase_tears torn free"
    and part: "partial_write torn (apply_writes (put_writes bs bc B key gen val uflags) B)
      (old_erasure bs bc B free (key_str key)) B'"
  shows "latest bs bc B' = (latest bs bc B)(key_str key \<mapsto> put_record bs bc B key gen val uflags)"
proof -
  let ?B1 = "apply_writes (put_writes bs bc B key gen val uflags) B"
  let ?new = "put_record bs bc B key gen val uflags"
  let ?db = "hd (put_blocks bs bc B key val)"
  note w = put_written [OF assms(1-3), of gen uflags]
  note db = put_descriptor_block [OF assms(3)]
  have sub: "complete (unat bs) ?B1 i r" if "complete (unat bs) B' i r" for i r
  proof (cases "latest bs bc B (key_str key)")
    case None
    with part that show ?thesis by (simp add: old_erasure_def partial_write_Nil)
  next
    case (Some r0)
    have "complete (unat bs) ?B1 (cr_descriptor_block r0) r0"
      using w latest_Some(1) [OF Some] by simp
    with Some part that show ?thesis
      by - (rule erase_partial_effect(1) [OF _ free], auto simp: old_erasure_def)
  qed
  have keep: "complete (unat bs) B' i r" if c: "complete (unat bs) ?B1 i r"
    and "latest bs bc B (key_str key) \<noteq> Some r" for i r
  proof (cases "latest bs bc B (key_str key)")
    case None
    with part c show ?thesis by (simp add: old_erasure_def partial_write_Nil)
  next
    case (Some r0)
    have old: "complete (unat bs) ?B1 (cr_descriptor_block r0) r0"
      using w latest_Some(1) [OF Some] by simp
    have "i \<noteq> cr_descriptor_block r0" using c old that(2) Some complete_deterministic by blast
    with Some part c old show ?thesis
      by - (rule erase_partial_effect(2) [OF _ free], auto simp: old_erasure_def)
  qed
  show ?thesis
  proof (rule latest_put [OF _ db])
    show "complete (unat bs) B' ?db ?new"
    proof (rule keep)
      show "complete (unat bs) ?B1 ?db ?new" by (rule put_complete [OF assms(1-3)])
      show "latest bs bc B (key_str key) \<noteq> Some ?new" using newer [of ?new] by auto
    qed
    show "complete (unat bs) B i r \<or> r = ?new" if "complete (unat bs) B' i r" for i r
      using sub [OF that] w by blast
    show "complete (unat bs) B' i r" if "complete (unat bs) B i r" "\<not> has_key (key_str key) r" for i r
    proof (rule keep)
      show "complete (unat bs) ?B1 i r" using that(1) w by simp
      show "latest bs bc B (key_str key) \<noteq> Some r" using that(2) latest_Some(2) by blast
    qed
    show "cr_generation r < cr_generation ?new"
      if "0 < i" "i < bc" "complete (unat bs) B i r" "has_key (key_str key) r" for i r
      using put_newer [OF newer that] by simp
  qed simp
qed

lemma put_medium_effect:
  assumes "length B = unat bc" and "fits_format (unat bs) key val" and "has_room bs bc B key val"
    and newer: "\<And>r0. latest bs bc B (key_str key) = Some r0 \<Longrightarrow> cr_generation r0 < gen"
    and free: "\<not> live_block free"
  shows "latest bs bc (put_medium bs bc B free key gen val uflags) =
      (latest bs bc B)(key_str key \<mapsto> put_record bs bc B key gen val uflags)"
    and "tidy bs bc B \<Longrightarrow> tidy bs bc (put_medium bs bc B free key gen val uflags)"
    and "length (put_medium bs bc B free key gen val uflags) = length B"
proof -
  let ?B1 = "apply_writes (put_writes bs bc B key gen val uflags) B"
  let ?es = "old_erasure bs bc B free (key_str key)"
  let ?new = "put_record bs bc B key gen val uflags"
  note w = put_written [OF assms(1-3), of gen uflags]
  have old: "complete (unat bs) ?B1 (cr_descriptor_block r0) r0" if "latest bs bc B (key_str key) = Some r0" for r0
    using w latest_Some(1) [OF that] by simp
  have "distinct (map fst ?es)"
  proof (cases "latest bs bc B (key_str key)")
    case (Some r0)
    with erase_writes_blocks(1) [OF old [OF Some]] show ?thesis by (simp only: old_erasure_def option.case)
  qed (simp add: old_erasure_def)
  then have part: "partial_write (\<lambda>_ _ _. False) ?B1 ?es (put_medium bs bc B free key gen val uflags)"
    unfolding put_medium_def by (rule partial_write_all)
  show l: "latest bs bc (put_medium bs bc B free key gen val uflags) = (latest bs bc B)(key_str key \<mapsto> ?new)"
    using newer by (intro put_erasing [OF assms(1-3) _ free _ part]) (auto simp: erase_tears_def)
  show "tidy bs bc (put_medium bs bc B free key gen val uflags)" if t: "tidy bs bc B"
  proof (rule tidy_put [OF l t])
    fix i r
    assume c: "complete (unat bs) (put_medium bs bc B free key gen val uflags) i r"
    show "complete (unat bs) B i r \<and> latest bs bc B (key_str key) \<noteq> Some r \<or> r = ?new"
    proof (cases "latest bs bc B (key_str key)")
      case None
      with c have "complete (unat bs) ?B1 i r" by (simp add: put_medium_def old_erasure_def)
      then show ?thesis unfolding w None by blast
    next
      case (Some r0)
      with c have "complete (unat bs) ?B1 i r \<and> i \<noteq> cr_descriptor_block r0"
        using erase_effect [OF old [OF Some] free] by (simp add: put_medium_def old_erasure_def)
      then have "complete (unat bs) B i r \<or> r = ?new" and "i \<noteq> cr_descriptor_block r0"
        unfolding w by blast+
      moreover have "r \<noteq> r0" if "complete (unat bs) B i r"
        using complete_descriptor_block [OF that] calculation(2) by blast
      ultimately show ?thesis using Some by auto
    qed
  qed simp
qed (simp add: put_medium_def)

text \<open>An interrupted write of the new record: the old map, or the new one.\<close>

lemma put_interrupted:
  assumes "length B = unat bc" and "fits_format (unat bs) key val" and "has_room bs bc B key val"
    and newer: "\<And>r0. latest bs bc B (key_str key) = Some r0 \<Longrightarrow> cr_generation r0 < gen"
    and part: "partial_write torn B (put_writes bs bc B key gen val uflags) B'"
    and tears: "tears_detected torn B (put_writes bs bc B key gen val uflags)"
  shows "latest bs bc B' = latest bs bc B \<or>
    latest bs bc B' = (latest bs bc B)(key_str key \<mapsto> put_record bs bc B key gen val uflags)"
proof (cases "complete (unat bs) B' (hd (put_blocks bs bc B key val)) (put_record bs bc B key gen val uflags)")
  case True
  note db = put_descriptor_block [OF assms(3)]
  have "latest bs bc B' = (latest bs bc B)(key_str key \<mapsto> put_record bs bc B key gen val uflags)"
  proof (rule latest_put [OF True db])
    show "complete (unat bs) B i r \<or> r = put_record bs bc B key gen val uflags"
      if "complete (unat bs) B' i r" for i r
      using put_partial(2) [OF assms(1-3) part tears that] by blast
    show "complete (unat bs) B' i r" if "complete (unat bs) B i r" for i r
      using that by (rule put_partial(1) [OF assms(1-3) part tears])
  qed (use put_newer [OF newer] in simp_all)
  then show ?thesis ..
next
  case False
  have "complete (unat bs) B' i r \<longleftrightarrow> complete (unat bs) B i r" for i r
    using False put_partial [OF assms(1-3) part tears] by blast
  then have "latest bs bc B' = latest bs bc B" by (intro ext latest_cong) simp
  then show ?thesis ..
qed

section \<open>The operations\<close>

definition put_failed ::
    "(bytes list \<Rightarrow> mem_index \<Rightarrow> 'd replica \<Rightarrow> bool) \<Rightarrow> (bytes \<Rightarrow> bytes \<Rightarrow> bytes \<Rightarrow> bool) \<Rightarrow> u32 \<Rightarrow> u32 \<Rightarrow>
     bytes list \<Rightarrow> mem_index \<Rightarrow> bytes \<Rightarrow> bytes \<Rightarrow> u32 \<Rightarrow> bytes \<Rightarrow> u32 \<Rightarrow> 'd replica \<Rightarrow> bool" where
  "put_failed at torn bs bc B ix free key gen val uflags r \<longleftrightarrow>
     at B ix r \<or>
     has_room bs bc B key val \<and>
     ((\<exists>B'. partial_write torn B (put_writes bs bc B key gen val uflags) B' \<and> at B' ix r) \<or>
      (\<exists>B'. partial_write torn (apply_writes (put_writes bs bc B key gen val uflags) B)
           (old_erasure bs bc B free (key_str key)) B' \<and>
         at B' (mi_put (entry_of (put_record bs bc B key gen val uflags)) ix) r))"

context device_contract
begin

text \<open>Writing and flushing the new record.\<close>

lemma put_write_flush:
  fixes gen uflags key val
  defines "ws \<equiv> \<lambda>bs bc B. put_writes bs bc B key gen val uflags"
  assumes fit: "fits_format (unat bs) key val" and room: "has_room bs bc B key val"
    and late: "\<And>e r B'. fault e \<Longrightarrow> partial_write torn B (ws bs bc B) B' \<Longrightarrow> rep_at (dev_at bs bc B') h ix r \<Longrightarrow> E e r"
  shows "triple (rep_at (dev_at bs bc B) h ix)
      (write_record oc D (hd (put_blocks bs bc B key val)) (tl (put_blocks bs bc B key val)) key gen val uflags)
      (\<lambda>_. rep_at (dev_at bs bc (apply_writes (ws bs bc B) B)) h ix) E" (is "triple _ (write_record _ _ (hd ?bl) _ _ _ _ _) _ _")
    and "triple (rep_at (dev_at bs bc (apply_writes (ws bs bc B) B)) h ix) (on_dev (d_flush D))
      (\<lambda>_. rep_at (dev_at bs bc (apply_writes (ws bs bc B) B)) h ix) E"
proof -
  note pb = put_blocks_facts [OF room]
  have set: "set (hd ?bl # tl ?bl) = set ?bl" "distinct (hd ?bl # tl ?bl)"
    using pb(3) by (simp_all only: pb(1) [symmetric])
  have "length (tl ?bl) + 1 < 2 ^ 32"
    using distinct_blocks_length [of ?bl "unat bc"] pb unat_u32_less [of bc]
    by (auto simp: word_less_nat_alt)
  then show "triple (rep_at (dev_at bs bc B) h ix) (write_record oc D (hd ?bl) (tl ?bl) key gen val uflags)
      (\<lambda>_. rep_at (dev_at bs bc (apply_writes (ws bs bc B) B)) h ix) E"
    by (intro triple_conseq [OF write_record_spec [OF fit _ set(2)]])
      (use pb(4) set(1) late in \<open>auto simp: ws_def put_writes_def Let_def\<close>)
  have "distinct (map fst (ws bs bc B))" using put_writes_blocks [OF room] pb(3) by (simp add: ws_def)
  then have "partial_write torn B (ws bs bc B) (apply_writes (ws bs bc B) B)" by (rule partial_write_all)
  then show "triple (rep_at (dev_at bs bc (apply_writes (ws bs bc B) B)) h ix) (on_dev (d_flush D))
      (\<lambda>_. rep_at (dev_at bs bc (apply_writes (ws bs bc B) B)) h ix) E"
    by (intro triple_conseq [OF rep_flush]) (use late in auto)
qed

text \<open>
  The part of \<^verbatim>\<open>put\<close> up to the update of the index, whatever the index holds; the rest is left to the
  premise \<open>rest\<close>.
\<close>

lemma replica_put_front:
  fixes gen uflags fp
  defines "rec \<equiv> \<lambda>bs bc B key val. put_record bs bc B key gen val uflags"
    and "ws \<equiv> \<lambda>bs bc B key val. put_writes bs bc B key gen val uflags"
  assumes fit: "fits_format (unat bs) key val"
    and full: "\<And>r. \<not> has_room bs bc B key val \<Longrightarrow> rep_at (dev_at bs bc B) h ix r \<Longrightarrow> E StorageFull r"
    and early: "\<And>e r. fault e \<Longrightarrow> rep_at (dev_at bs bc B) h ix r \<Longrightarrow> E e r"
    and late: "\<And>e r B'. fault e \<Longrightarrow> has_room bs bc B key val \<Longrightarrow> partial_write torn B (ws bs bc B key val) B' \<Longrightarrow>
      rep_at (dev_at bs bc B') h ix r \<Longrightarrow> E e r"
    and rest: "has_room bs bc B key val \<Longrightarrow>
      triple (rep_at (dev_at bs bc (apply_writes (ws bs bc B key val) B)) h (mi_put (entry_of (rec bs bc B key val)) ix))
        (case map_option ie_descriptor_block (mi_get ix (key_str key)) of None \<Rightarrow> return_io ()
         | Some old_block \<Rightarrow> bind_io (free_record oc D old_block fp) (\<lambda>_. on_dev (d_flush D))) Q E"
  shows "triple (rep_at (dev_at bs bc B) h ix) (replica_put oc D key val gen uflags fp) Q E"
    (is "triple ?P _ _ _")
proof -
  have bs: "36 \<le> unat bs" using fit by (simp add: fits_format_def)
  obtain n where n: "needed_blocks oc key val bs = Ok n" "unat n = 1 + extra_blocks (unat bs) key val"
    using fit by (rule needed_blocks_Ok)
  let ?bl = "put_blocks bs bc B key val"
  let ?B1 = "apply_writes (ws bs bc B key val) B"
  let ?old = "map_option ie_descriptor_block (mi_get ix (key_str key))"
  have entry: "\<lparr>ie_key = key_str key, ie_generation = gen, ie_descriptor_block = hd ?bl,
      ie_total_size = word_of_nat (length val)\<rparr> = entry_of (rec bs bc B key val)"
    by (simp add: entry_of_def rec_def)
  have found: "triple ?P (find_free_blocks oc D n) (\<lambda>fs r. fs = ?bl \<and> (has_room bs bc B key val \<and> ?P r)) E"
    by (rule triple_conseq [OF find_free_blocks_spec])
      (use bs full early in \<open>auto simp: put_blocks_def has_room_def n(2)\<close>)
  have tail: "triple ?P
      (bind_io (lift_io (case ?bl of [] \<Rightarrow> Panic | b # bs \<Rightarrow> Ok (b, bs))) (\<lambda>(db, cs).
       bind_io (write_record oc D db cs key gen val uflags) (\<lambda>_.
       bind_io (on_dev (d_flush D)) (\<lambda>_.
       bind_io (modify_io (\<lambda>r. r\<lparr>rp_index := mi_put
           \<lparr>ie_key = key_str key, ie_generation = gen, ie_descriptor_block = db,
            ie_total_size = word_of_nat (length val)\<rparr> (rp_index r)\<rparr>)) (\<lambda>_.
       case ?old of None \<Rightarrow> return_io ()
       | Some old_block \<Rightarrow>
           bind_io (free_record oc D old_block fp) (\<lambda>_. on_dev (d_flush D))))))) Q E"
    if room: "has_room bs bc B key val"
  proof -
    have split: "(case ?bl of [] \<Rightarrow> Panic | b # bs \<Rightarrow> Ok (b, bs)) = Ok (hd ?bl, tl ?bl)"
      using put_blocks_facts(1) [OF room] by (cases ?bl) simp_all
    have wr: "triple ?P (write_record oc D (hd ?bl) (tl ?bl) key gen val uflags) (\<lambda>_. rep_at (dev_at bs bc ?B1) h ix) E"
      unfolding ws_def by (rule put_write_flush(1) [OF fit room]) (use late [OF _ room] in \<open>simp add: ws_def\<close>)
    have flush: "triple (rep_at (dev_at bs bc ?B1) h ix) (on_dev (d_flush D)) (\<lambda>_. rep_at (dev_at bs bc ?B1) h ix) E"
      unfolding ws_def by (rule put_write_flush(2) [OF fit room]) (use late [OF _ room] in \<open>simp add: ws_def\<close>)
    show ?thesis
      unfolding split bind_io_lift_Ok prod.case entry
      by (rule triple_bind [OF wr], rule triple_bind [OF flush], rule rep_modify_index, rule rest [OF room])
  qed
  show ?thesis
    unfolding replica_put_def
    apply (rule rep_index_bind)
    apply (simp only: Let_def)
    apply (rule rep_asks_bind [where x = bs], erule dev_size)
    apply (simp only: n(1) bind_io_lift_Ok)
    apply (rule triple_bind_eq [OF found])
    apply (rule triple_assume [where A = "has_room bs bc B key val"], simp)
    apply (rule triple_pre [OF tail], assumption, simp)
    done
qed

lemma replica_put_spec:
  fixes gen uflags fp
  assumes fit: "fits_format (unat bs) key val" and ix: "index_ok bs bc B ix"
  defines "free \<equiv> make_free_buf bs fp"
  shows "triple (rep_at (dev_at bs bc B) h ix) (replica_put oc D key val gen uflags fp)
    (\<lambda>_ r. has_room bs bc B key val \<and> rep_at (dev_at bs bc (put_medium bs bc B free key gen val uflags)) h
       (mi_put (entry_of (put_record bs bc B key gen val uflags)) ix) r)
    (\<lambda>e r. e = StorageFull \<and> \<not> has_room bs bc B key val \<and> rep_at (dev_at bs bc B) h ix r \<or>
       fault e \<and> put_failed (\<lambda>B ix. rep_at (dev_at bs bc B) h ix) torn bs bc B ix free key gen val uflags r)"
    (is "triple ?P _ ?Q ?E")
proof (rule rep_geometry_assume)
  assume geo: "length B = unat bc" "\<And>i. i < bc \<Longrightarrow> length (B ! unat i) = unat bs"
  have bs: "36 \<le> unat bs" using fit by (simp add: fits_format_def)
  let ?B1 = "apply_writes (put_writes bs bc B key gen val uflags) B"
  let ?ix = "mi_put (entry_of (put_record bs bc B key gen val uflags)) ix"
  have old: "map_option ie_descriptor_block (mi_get ix (key_str key)) =
      map_option cr_descriptor_block (latest bs bc B (key_str key))"
    using ix by (simp add: index_ok_def option.map_comp comp_def)
  show ?thesis
  proof (rule replica_put_front [OF fit], goal_cases)
    case room: 4
    show ?case
    proof (cases "latest bs bc B (key_str key)")
      case None
      with old room show ?thesis
        by (auto intro!: triple_return simp: put_medium_def old_erasure_def)
    next
      case (Some r0)
      have c: "complete (unat bs) ?B1 (cr_descriptor_block r0) r0"
        using put_written [OF geo(1) fit room] latest_Some(1) [OF Some] by simp
      let ?es = "erase_writes free r0"
      have es: "old_erasure bs bc B free (key_str key) = ?es" using Some by (simp add: old_erasure_def)
      have free: "triple (rep_at (dev_at bs bc ?B1) h ?ix) (free_record oc D (cr_descriptor_block r0) fp)
          (\<lambda>_. rep_at (dev_at bs bc (apply_writes ?es ?B1)) h ?ix) ?E"
        by (rule triple_conseq [OF free_record_spec [OF bs c, of bc h ?ix oc fp, folded free_def]])
          (use room es in \<open>auto simp: put_failed_def\<close>)
      have "partial_write torn ?B1 ?es (apply_writes ?es ?B1)"
        using erase_writes_blocks(1) [OF c] by (rule partial_write_all)
      then have flush: "triple (rep_at (dev_at bs bc (apply_writes ?es ?B1)) h ?ix) (on_dev (d_flush D)) ?Q ?E"
        by (intro triple_conseq [OF rep_flush])
          (use room es in \<open>auto simp: put_failed_def put_medium_def\<close>)
      show ?thesis
        unfolding old Some option.map option.case by (rule triple_bind [OF free flush])
    qed
  qed (auto simp: put_failed_def)
qed

lemma get_with_generation_spec:
  assumes "36 \<le> unat bs" and "\<And>e. mi_get ix (key_str key) = Some e \<Longrightarrow> ie_descriptor_block e < bc"
  shows "triple (rep_at (dev_at bs bc B) h ix) (get_with_generation oc D key)
    (\<lambda>res r. rep_at (dev_at bs bc B) h ix r \<and>
       (case mi_get ix (key_str key) of None \<Rightarrow> res = None
        | Some e \<Rightarrow> (\<exists>err. fault err \<and> res = Some (Inl err)) \<or>
            res = Some (case record_at (unat bs) B (ie_descriptor_block e) of None \<Rightarrow> Inl CorruptRecord
              | Some rec \<Rightarrow> Inr (ie_generation e, cr_value rec))))
    (\<lambda>e r. False)"
proof (cases "mi_get ix (key_str key)")
  case None
  then show ?thesis
    unfolding get_with_generation_def by (intro rep_index_bind) (auto intro: triple_return)
next
  case (Some e)
  let ?d = "ie_descriptor_block e"
  note v = rep_verify [OF assms(1) assms(2) [OF Some], of B h ix oc]
  show ?thesis
    unfolding get_with_generation_def
  proof (rule rep_index_bind, unfold Some option.case, unfold triple_def, intro allI impI, goal_cases)
    case (1 r)
    from v 1 show ?case
    proof (cases rule: triple_cases)
      case (Ok x r')
      then show ?thesis by (cases "record_at (unat bs) B ?d") simp_all
    next
      case (Err err r')
      then show ?thesis by simp
    qed
  qed
qed

end

end
