(* ===== verification/Ekv_Store_Proofs.thy ===== *)
theory Ekv_Store_Proofs
  imports Ekv_Store Ekv_Put
begin

text \<open>
  The methods of the store on a list of replicas, each with its own medium. The state of a store is
  described by the list of the media; the effect of a method is the effect on each of them.
\<close>

section \<open>Loops over the replicas\<close>

fun steps :: "('x \<Rightarrow> 'a \<Rightarrow> 'a \<Rightarrow> bool) \<Rightarrow> 'x list \<Rightarrow> 'a \<Rightarrow> 'a \<Rightarrow> bool" where
  "steps G [] a b \<longleftrightarrow> b = a"
| "steps G (x # xs) a c \<longleftrightarrow> (\<exists>b. G x a b \<and> steps G xs b c)"

text \<open>The state when the body fails on one element: those before it are done, those after it not.\<close>

definition stopped_at ::
    "('x \<Rightarrow> 's \<Rightarrow> bool) \<Rightarrow> ('x \<Rightarrow> 's \<Rightarrow> bool) \<Rightarrow> ('x \<Rightarrow> 's \<Rightarrow> bool) \<Rightarrow> 'x list \<Rightarrow> 's list \<Rightarrow> bool" where
  "stopped_at Q E P xs ss \<longleftrightarrow> (\<exists>ys x zs us s vs. xs = ys @ x # zs \<and> ss = us @ s # vs \<and>
     list_all2 Q ys us \<and> E x s \<and> list_all2 P zs vs)"

lemma triple_iter_mut_enum:
  assumes "\<And>a x. x \<in> set xs \<Longrightarrow> triple (P x) (f (fst x) a) (\<lambda>b s. G x a b \<and> Q x s) (E x)"
    and "map fst xs = [i..<i + length xs]"
  shows "triple (list_all2 P xs) (iter_mut f i a)
    (\<lambda>b ss. steps G xs a b \<and> list_all2 Q xs ss)
    (\<lambda>e ss. stopped_at Q (\<lambda>x. E x e) P xs ss)"
  using assms
proof (induction xs arbitrary: i a)
  case Nil
  then show ?case by (simp add: triple_def)
next
  case (Cons x xs)
  show ?case
    unfolding triple_def
  proof (intro allI impI)
    fix ss
    assume "list_all2 P (x # xs) ss"
    then obtain s ss1 where ss: "ss = s # ss1" "P x s" "list_all2 P xs ss1"
      by (auto simp: list_all2_Cons1)
    have "fst x # map fst xs = i # [Suc i..<Suc i + length xs]"
      using Cons.prems(2) upt_conv_Cons [of i "i + Suc (length xs)"] by simp
    then have i: "fst x = i" "map fst xs = [Suc i..<Suc i + length xs]" by simp_all
    have body: "triple (P x) (f i a) (\<lambda>b s. G x a b \<and> Q x s) (E x)"
      using Cons.prems(1) [of x a] i(1) by simp
    show "case iter_mut f i a ss of
        (Ok b, ss') \<Rightarrow> steps G (x # xs) a b \<and> list_all2 Q (x # xs) ss'
      | (Err e, ss') \<Rightarrow> stopped_at Q (\<lambda>x. E x e) P (x # xs) ss' | (Panic, ss') \<Rightarrow> False"
      using body ss(2)
    proof (cases rule: triple_cases)
      case (Err e s')
      with ss show ?thesis
        by (cases x) (auto simp: stopped_at_def intro!: exI [of _ "[]"])
    next
      case (Ok b s')
      have IH: "triple (list_all2 P xs) (iter_mut f (Suc i) b)
          (\<lambda>b' ss. steps G xs b b' \<and> list_all2 Q xs ss)
          (\<lambda>e ss. stopped_at Q (\<lambda>x. E x e) P xs ss)"
        using Cons.IH [OF Cons.prems(1) i(2)] by simp
      from IH ss(3) show ?thesis
      proof (cases rule: triple_cases)
        case (Ok c ss')
        with \<open>f i a s = (outcome.Ok b, s')\<close> \<open>G x a b \<and> Q x s'\<close> ss show ?thesis by auto
      next
        case (Err e ss')
        from \<open>stopped_at Q (\<lambda>x. E x e) P xs ss'\<close> obtain ys y zs us u vs where
          "xs = ys @ y # zs" "ss' = us @ u # vs" "list_all2 Q ys us" "E y e u" "list_all2 P zs vs"
          unfolding stopped_at_def by blast
        with \<open>G x a b \<and> Q x s'\<close> have "stopped_at Q (\<lambda>x. E x e) P (x # xs) (s' # ss')"
          unfolding stopped_at_def
          by (intro exI [of _ "x # ys"] exI [of _ y] exI [of _ zs] exI [of _ "s' # us"] exI [of _ u]
              exI [of _ vs]) simp
        with \<open>f i a s = (outcome.Ok b, s')\<close> \<open>iter_mut f (Suc i) b ss1 = (outcome.Err e, ss')\<close> ss
        show ?thesis by simp
      qed
    qed
  qed
qed

lemma steps_snd: "steps (\<lambda>x. G (snd x)) xs a b \<longleftrightarrow> steps G (map snd xs) a b"
  by (induction xs arbitrary: a) simp_all

lemma stopped_at_snd:
  assumes "stopped_at (\<lambda>x. Q (snd x)) (\<lambda>x. E (snd x)) (\<lambda>x. P (snd x)) xs ss"
  shows "stopped_at Q E P (map snd xs) ss"
proof -
  from assms obtain ys x zs us s vs where "xs = ys @ x # zs" "ss = us @ s # vs"
    "list_all2 (\<lambda>x. Q (snd x)) ys us" "E (snd x) s" "list_all2 (\<lambda>x. P (snd x)) zs vs"
    unfolding stopped_at_def by blast
  then show ?thesis
    unfolding stopped_at_def
    by (intro exI [of _ "map snd ys"] exI [of _ "snd x"] exI [of _ "map snd zs"] exI [of _ us]
        exI [of _ s] exI [of _ vs]) (simp add: list_all2_map1)
qed

text \<open>When the body does not depend on the number of the element.\<close>

lemma triple_iter_mut:
  assumes "\<And>i a x. x \<in> set xs \<Longrightarrow> triple (P x) (f i a) (\<lambda>b s. G x a b \<and> Q x s) (E x)"
  shows "triple (list_all2 P xs) (iter_mut f i a)
    (\<lambda>b ss. steps G xs a b \<and> list_all2 Q xs ss)
    (\<lambda>e ss. stopped_at Q (\<lambda>x. E x e) P xs ss)"
proof -
  let ?xs = "List.enumerate i xs"
  have "triple (list_all2 (\<lambda>x. P (snd x)) ?xs) (iter_mut f i a)
    (\<lambda>b ss. steps (\<lambda>x. G (snd x)) ?xs a b \<and> list_all2 (\<lambda>x. Q (snd x)) ?xs ss)
    (\<lambda>e ss. stopped_at (\<lambda>x. Q (snd x)) (\<lambda>x. E (snd x) e) (\<lambda>x. P (snd x)) ?xs ss)"
    by (rule triple_iter_mut_enum) (use assms in \<open>auto simp: in_set_enumerate_eq\<close>)
  then show ?thesis
    by (rule triple_conseq)
      (auto simp: steps_snd list_all2_map1 [symmetric, where f = snd] dest!: stopped_at_snd)
qed

lemma list_all2_conj_left:
  "list_all2 (\<lambda>x y. A x \<and> P x y) xs ys \<longleftrightarrow> (\<forall>x \<in> set xs. A x) \<and> list_all2 P xs ys"
  by (induction xs arbitrary: ys) (auto simp: list_all2_Cons1)

lemma triple_on_replicas:
  fixes m :: "('d replica list, 'a) io"
  assumes "triple P m Q E"
  shows "triple (\<lambda>s. P (st_replicas s) \<and> st_opts s = op) (on_replicas m)
    (\<lambda>x s. Q x (st_replicas s) \<and> st_opts s = op) (\<lambda>e s. E e (st_replicas s) \<and> st_opts s = op)"
  unfolding triple_def
proof (intro allI impI)
  fix s :: "'d store"
  assume s: "P (st_replicas s) \<and> st_opts s = op"
  then have "P (st_replicas s)" ..
  with assms show "case on_replicas m s of (Ok x, s') \<Rightarrow> Q x (st_replicas s') \<and> st_opts s' = op
      | (Err e, s') \<Rightarrow> E e (st_replicas s') \<and> st_opts s' = op | (Panic, s') \<Rightarrow> False"
    using s by (cases rule: triple_cases) (simp_all add: on_replicas_def)
qed

section \<open>The state of a store\<close>

text \<open>A replica whose index agrees with its medium, as \<^verbatim>\<open>build_index\<close> leaves it.\<close>

definition rep_ok :: "(bytes list \<Rightarrow> 'd \<Rightarrow> bool) \<Rightarrow> u32 \<Rightarrow> u32 \<Rightarrow> bytes list \<Rightarrow> 'd replica \<Rightarrow> bool" where
  "rep_ok dev bs bc B r \<longleftrightarrow> (\<exists>h ix. rep_at (dev B) h ix r \<and> index_ok bs bc B ix)"

definition store_ok ::
    "(bytes list \<Rightarrow> 'd \<Rightarrow> bool) \<Rightarrow> u32 \<Rightarrow> u32 \<Rightarrow> options \<Rightarrow> bytes list list \<Rightarrow> 'd store \<Rightarrow> bool" where
  "store_ok dev bs bc op Bs s \<longleftrightarrow> list_all2 (rep_ok dev bs bc) Bs (st_replicas s) \<and> st_opts s = op"

text \<open>Opened but without an index: after \<^verbatim>\<open>open\<close>, before \<^verbatim>\<open>recover\<close> and \<^verbatim>\<open>build_index\<close>.\<close>

definition store_media ::
    "(bytes list \<Rightarrow> 'd \<Rightarrow> bool) \<Rightarrow> options \<Rightarrow> bytes list list \<Rightarrow> 'd store \<Rightarrow> bool" where
  "store_media dev op Bs s \<longleftrightarrow>
     list_all2 (\<lambda>B r. dev B (rp_dev r)) Bs (st_replicas s) \<and> st_opts s = op"

lemma rep_ok_cases:
  assumes "\<And>h ix. index_ok bs bc B ix \<Longrightarrow> triple (rep_at (dev B) h ix) m Q E"
  shows "triple (rep_ok dev bs bc B) m Q E"
  unfolding triple_def
proof (intro allI impI)
  fix r
  assume "rep_ok dev bs bc B r"
  then obtain h ix where "rep_at (dev B) h ix r" "index_ok bs bc B ix"
    by (auto simp: rep_ok_def)
  with assms show "case m r of (Ok x, s') \<Rightarrow> Q x s' | (Err e, s') \<Rightarrow> E e s' | (Panic, s') \<Rightarrow> False"
    by (auto simp: triple_def)
qed

text \<open>The state once every replica's part is known, and the index-free state it implies.\<close>

lemma index_ok_get:
  assumes "index_ok bs bc B ix"
  shows "mi_get ix k = map_option entry_of (latest bs bc B k)" and "mi_inv ix"
  using assms by (simp_all add: index_ok_def)

lemma index_ok_put:
  "index_ok bs bc B ix \<Longrightarrow> latest bs bc B' = (latest bs bc B)(key_str (cr_key r) \<mapsto> r) \<Longrightarrow>
   index_ok bs bc B' (mi_put (entry_of r) ix)"
  by (simp add: index_ok_def)

lemma index_ok_delete:
  "index_ok bs bc B ix \<Longrightarrow> latest bs bc B' = (latest bs bc B)(ks := None) \<Longrightarrow>
   index_ok bs bc B' (mi_delete ks ix)"
  by (simp add: index_ok_def)

section \<open>get\<close>

text \<open>One step of the search for the highest generation, when the replica's latest record is \<open>x\<close>.\<close>

definition get_update :: "complete_record option \<Rightarrow> bytes option \<times> u32 \<Rightarrow> bytes option \<times> u32" where
  "get_update x = (\<lambda>(best, g). case x of None \<Rightarrow> (best, g)
     | Some r \<Rightarrow> if best = None \<or> g < cr_generation r then (Some (cr_value r), cr_generation r) else (best, g))"

lemma get_update_newest:
  "foldl (\<lambda>a x. get_update x a) (case b of None \<Rightarrow> (None, 0) | Some r \<Rightarrow> (Some (cr_value r), cr_generation r)) xs =
   (case newest cr_generation b (List.map_filter id xs) of None \<Rightarrow> (None, 0)
    | Some r \<Rightarrow> (Some (cr_value r), cr_generation r))"
proof (induction xs arbitrary: b)
  case Nil
  then show ?case by (simp add: List.map_filter_simps)
next
  case (Cons x xs)
  show ?case
  proof (cases x)
    case None
    with Cons [of b] show ?thesis
      by (simp add: get_update_def List.map_filter_simps case_prod_beta)
  next
    case (Some r)
    have "get_update x (case b of None \<Rightarrow> (None, 0) | Some r \<Rightarrow> (Some (cr_value r), cr_generation r)) =
      (case (case b of None \<Rightarrow> Some r | Some ex \<Rightarrow> if cr_generation ex < cr_generation r then Some r else Some ex)
       of None \<Rightarrow> (None, 0) | Some r \<Rightarrow> (Some (cr_value r), cr_generation r))"
      using Some by (cases b) (simp_all add: get_update_def)
    with Some Cons show ?thesis
      by (simp add: List.map_filter_simps del: option.case_distrib)
  qed
qed

lemma steps_get:
  assumes "steps (\<lambda>x a b. b = get_update (lat x) a \<or> b = a \<and> F x) xs a c"
  shows "\<exists>ys. list_all2 (\<lambda>x y. y = lat x \<or> y = None \<and> F x) xs ys \<and> c = foldl (\<lambda>a y. get_update y a) a ys"
  using assms
proof (induction xs arbitrary: a)
  case (Cons x xs)
  from Cons.prems obtain b where b: "b = get_update (lat x) a \<or> b = a \<and> F x"
    and "steps (\<lambda>x a b. b = get_update (lat x) a \<or> b = a \<and> F x) xs b c"
    unfolding steps.simps by blast
  from Cons.IH [OF this(2)] obtain ys where
    "list_all2 (\<lambda>x y. y = lat x \<or> y = None \<and> F x) xs ys" "c = foldl (\<lambda>a y. get_update y a) b ys"
    by blast
  note b and this
  moreover have "get_update None a = a" by (simp add: get_update_def case_prod_beta)
  ultimately show ?case
    by (elim disjE) (intro exI [of _ "lat x # ys"], simp, intro exI [of _ "None # ys"], simp)
qed simp

text \<open>
  The whole of \<^verbatim>\<open>get\<close>, from what one step does on each replica: the step on the replica described by
  \<open>x\<close> sees its latest record \<open>lat x\<close>, or nothing if \<open>F x\<close> allows a failure.
\<close>

lemma triple_store_get:
  assumes "\<And>a x. x \<in> set xs \<Longrightarrow> triple (P x) (get_step oc D key a)
    (\<lambda>b r. (b = get_update (lat x) a \<or> b = a \<and> F x) \<and> Q x r) (\<lambda>_ _. False)"
  defines "seen \<equiv> list_all2 (\<lambda>x y. y = lat x \<or> y = None \<and> F x) xs"
  shows "triple (\<lambda>s. list_all2 P xs (st_replicas s) \<and> st_opts s = op) (store_get oc D key)
    (\<lambda>v s. (list_all2 Q xs (st_replicas s) \<and> st_opts s = op) \<and>
       (\<exists>ys r. seen ys \<and> newest cr_generation None (List.map_filter id ys) = Some r \<and> v = cr_value r))
    (\<lambda>e s. e = KeyNotFound \<and> (list_all2 Q xs (st_replicas s) \<and> st_opts s = op) \<and>
       (\<exists>ys. seen ys \<and> List.map_filter id ys = []))"
proof -
  let ?R = "\<lambda>ys. case newest cr_generation None (List.map_filter id ys) of None \<Rightarrow> (None, 0)
    | Some r \<Rightarrow> (Some (cr_value r), cr_generation r)"
  have loop: "triple (list_all2 P xs) (iter_mut (\<lambda>_. get_step oc D key) 0 (None, 0))
      (\<lambda>b ss. (\<exists>ys. seen ys \<and> b = ?R ys) \<and> list_all2 Q xs ss) (\<lambda>e s. False)"
  proof (rule triple_conseq [OF triple_iter_mut [where P = P and Q = Q and E = "\<lambda>_ _ _. False"
        and G = "\<lambda>x a b. b = get_update (lat x) a \<or> b = a \<and> F x" and xs = xs]], goal_cases)
    case (1 i a x)
    then show ?case by (rule assms(1))
  next
    case (3 b ss)
    from steps_get [OF conjunct1 [OF 3]]
    obtain ys where "seen ys" "b = foldl (\<lambda>a y. get_update y a) (None, 0) ys"
      unfolding seen_def by blast
    with 3 get_update_newest [of None ys] show ?case by auto
  qed (auto simp: stopped_at_def)
  have all: "triple (\<lambda>s. list_all2 P xs (st_replicas s) \<and> st_opts s = op)
      (on_replicas (iter_mut (\<lambda>_. get_step oc D key) 0 (None, 0)))
      (\<lambda>b s. (\<exists>ys. seen ys \<and> b = ?R ys) \<and> list_all2 Q xs (st_replicas s) \<and> st_opts s = op)
      (\<lambda>e s. e = KeyNotFound \<and> (list_all2 Q xs (st_replicas s) \<and> st_opts s = op) \<and>
         (\<exists>ys. seen ys \<and> List.map_filter id ys = []))"
    by (rule triple_conseq [OF triple_on_replicas [OF loop]]) auto
  show ?thesis
    unfolding store_get_def
    by (rule triple_bind [OF all])
      (auto simp: triple_def split: option.splits prod.splits, metis newest_None not_None_eq)
qed

context device_contract
begin

lemma get_step_spec:
  assumes "36 \<le> unat bs"
  shows "triple (rep_ok (dev_at bs bc) bs bc B) (get_step oc D key a)
    (\<lambda>b r. (b = get_update (latest bs bc B (key_str key)) a \<or> b = a \<and> (\<exists>e. fault e)) \<and>
       rep_ok (dev_at bs bc) bs bc B r)
    (\<lambda>e r. False)"
proof (rule rep_ok_cases)
  fix h ix
  assume ix: "index_ok bs bc B ix"
  let ?x = "latest bs bc B (key_str key)"
  have dom: "ie_descriptor_block e < bc" if "mi_get ix (key_str key) = Some e" for e
    using that index_ok_get(1) [OF ix] latest_Some(4) by auto
  have get: "triple (rep_at (dev_at bs bc B) h ix) (get_with_generation oc D key)
      (\<lambda>res r. rep_at (dev_at bs bc B) h ix r \<and>
        (res = map_option (\<lambda>r. Inr (cr_generation r, cr_value r)) ?x \<or>
         (\<exists>err. fault err \<and> res = Some (Inl err))))
      (\<lambda>e r. False)"
  proof (rule triple_conseq [OF get_with_generation_spec [where B = B and h = h and ix = ix and key = key and oc = oc, OF assms dom]],
      goal_cases)
    case (3 res r)
    show ?case
    proof (cases ?x)
      case None
      with 3 index_ok_get(1) [OF ix] show ?thesis by simp
    next
      case (Some rec)
      then have "record_at (unat bs) B (cr_descriptor_block rec) = Some rec"
        using latest_Some(1) [OF Some] by (simp add: record_at_Some)
      with 3 Some index_ok_get(1) [OF ix] show ?thesis by auto
    qed
  qed auto
  obtain best g where a: "a = (best, g)" by (cases a)
  show "triple (rep_at (dev_at bs bc B) h ix) (get_step oc D key a)
    (\<lambda>b r. (b = get_update ?x a \<or> b = a \<and> (\<exists>e. fault e)) \<and> rep_ok (dev_at bs bc) bs bc B r)
    (\<lambda>e r. False)"
    unfolding get_step_def a prod.case
  proof (rule triple_bind [OF get], goal_cases)
    case (1 res)
    then show ?case
      using ix
      by (cases ?x) (auto simp: triple_def get_update_def rep_ok_def split: option.split sum.split)
  qed
qed

text \<open>
  \<^verbatim>\<open>get\<close> returns the value of the highest generation among the latest records of the replicas; a
  replica whose device fails is skipped.
\<close>

lemma store_get_spec:
  fixes bc
  assumes "36 \<le> unat bs"
  defines "seen \<equiv> \<lambda>Bs key xs. list_all2 (\<lambda>B x. x = latest bs bc B (key_str key) \<or> x = None \<and> (\<exists>e. fault e)) Bs xs"
  shows "triple (store_ok (dev_at bs bc) bs bc op Bs) (store_get oc D key)
    (\<lambda>v s. store_ok (dev_at bs bc) bs bc op Bs s \<and>
       (\<exists>xs r. seen Bs key xs \<and> newest cr_generation None (List.map_filter id xs) = Some r \<and> v = cr_value r))
    (\<lambda>e s. e = KeyNotFound \<and> store_ok (dev_at bs bc) bs bc op Bs s \<and>
       (\<exists>xs. seen Bs key xs \<and> List.map_filter id xs = []))"
  unfolding seen_def store_ok_def by (rule triple_store_get) (rule get_step_spec [OF assms(1)])

end

section \<open>put\<close>

definition top_generation :: "u32 \<Rightarrow> u32 \<Rightarrow> bytes list list \<Rightarrow> bytes \<Rightarrow> u32" where
  "top_generation bs bc Bs ks =
     foldl (\<lambda>g B. case latest bs bc B ks of None \<Rightarrow> g
       | Some r \<Rightarrow> if g < cr_generation r then cr_generation r else g) 0 Bs"

lemma max_generation_eq:
  assumes "list_all2 (rep_ok dev bs bc) Bs rs"
  shows "max_generation ks rs = top_generation bs bc Bs ks"
proof -
  have "foldl (\<lambda>generation r. case mi_get (rp_index r) ks of None \<Rightarrow> generation
       | Some e \<Rightarrow> if generation < ie_generation e then ie_generation e else generation) g rs =
    foldl (\<lambda>g B. case latest bs bc B ks of None \<Rightarrow> g
       | Some r \<Rightarrow> if g < cr_generation r then cr_generation r else g) g Bs" for g
    using assms
  proof (induction Bs rs arbitrary: g rule: list_all2_induct)
    case (Cons B Bs r rs)
    then have "mi_get (rp_index r) ks = map_option entry_of (latest bs bc B ks)"
      by (auto simp: rep_ok_def rep_at_def index_ok_def)
    with Cons show ?case by (cases "latest bs bc B ks") simp_all
  qed simp
  then show ?thesis by (simp add: max_generation_def top_generation_def)
qed

lemma top_generation_bound:
  assumes "B \<in> set Bs" and "latest bs bc B ks = Some r"
  shows "cr_generation r \<le> top_generation bs bc Bs ks"
proof -
  let ?f = "\<lambda>g B. case latest bs bc B ks of None \<Rightarrow> g
       | Some r \<Rightarrow> if g < cr_generation r then cr_generation r else g"
  have mono: "g \<le> foldl ?f g Bs" for g Bs
  proof (induction Bs arbitrary: g)
    case (Cons B Bs)
    have "g \<le> ?f g B" by (auto split: option.split)
    also have "\<dots> \<le> foldl ?f (?f g B) Bs" by (rule Cons)
    finally show ?case by simp
  qed simp
  have "cr_generation r \<le> foldl ?f g Bs" for g
    using assms(1)
  proof (induction Bs arbitrary: g)
    case (Cons B' Bs)
    show ?case
    proof (cases "B' = B")
      case True
      then have "cr_generation r \<le> ?f g B'" using assms(2) by (simp add: not_less)
      also have "\<dots> \<le> foldl ?f (?f g B') Bs" by (rule mono)
      finally show ?thesis by simp
    next
      case False
      with Cons show ?thesis by simp
    qed
  qed simp
  then show ?thesis by (simp add: top_generation_def)
qed

text \<open>A fill byte that makes an erased block free, as the documentation of the options demands.\<close>

definition free_byte :: "u8 \<Rightarrow> bool" where
  "free_byte fp \<longleftrightarrow> fp = 0x00 \<or> fp = 0xFF"

lemma free_byte_block:
  "free_byte fp \<Longrightarrow> 0 < unat bs \<Longrightarrow> free_block (make_free_buf bs fp)"
  by (auto simp: free_byte_def free_block_def make_free_buf_def)

text \<open>What is left of the replicas when a put stops at one of them.\<close>

definition put_stopped ::
    "(bytes list \<Rightarrow> 'd \<Rightarrow> bool) \<Rightarrow> (error \<Rightarrow> bool) \<Rightarrow> (bytes \<Rightarrow> bytes \<Rightarrow> bytes \<Rightarrow> bool) \<Rightarrow> u32 \<Rightarrow> u32 \<Rightarrow>
     bytes \<Rightarrow> bytes \<Rightarrow> u32 \<Rightarrow> bytes \<Rightarrow> u32 \<Rightarrow> error \<Rightarrow> bytes list list \<Rightarrow> 'd replica list \<Rightarrow> bool" where
  "put_stopped dev fault torn bs bc free key gen val uflags e =
     stopped_at
       (\<lambda>B r. has_room bs bc B key val \<and> rep_ok dev bs bc (put_medium bs bc B free key gen val uflags) r)
       (\<lambda>B r. e = StorageFull \<and> \<not> has_room bs bc B key val \<and> rep_ok dev bs bc B r \<or>
          fault e \<and> (\<exists>h ix. put_failed (\<lambda>B. rep_at (dev B) h) torn bs bc B ix free key gen val uflags r))
       (rep_ok dev bs bc)"

lemma key_limit:
  assumes "36 \<le> unat bs"
  shows "bind_o (u32_sub oc bs RECORD_DESCRIPTOR_HEADER_SIZE) (\<lambda>a. u32_sub oc a BLOCK_CRC_SIZE) = Ok (bs - 36)"
    and "n < 2 ^ 32 \<Longrightarrow> bs - 36 < word_of_nat n \<longleftrightarrow> unat bs < 36 + n"
proof -
  have le: "32 \<le> bs" "4 \<le> bs - 32" "36 \<le> bs"
    using assms by (simp_all add: word_le_nat_alt unat_sub)
  then show "bind_o (u32_sub oc bs RECORD_DESCRIPTOR_HEADER_SIZE) (\<lambda>a. u32_sub oc a BLOCK_CRC_SIZE) = Ok (bs - 36)"
    by (simp add: u32_sub_Ok layout_simps)
  have "unat (bs - 36) = unat bs - 36" by (simp add: unat_sub [OF le(3)])
  then show "bs - 36 < word_of_nat n \<longleftrightarrow> unat bs < 36 + n" if "n < 2 ^ 32"
    using assms that by (auto simp: word_less_nat_alt unat_of_nat_u32)
qed

context device_contract
begin

lemma replica_put_ok:
  fixes gen uflags fp
  assumes fit: "fits_format (unat bs) key val" and fp: "free_byte fp"
    and newer: "\<And>r. latest bs bc B (key_str key) = Some r \<Longrightarrow> cr_generation r < gen"
  defines "free \<equiv> make_free_buf bs fp"
  shows "triple (rep_ok (dev_at bs bc) bs bc B) (replica_put oc D key val gen uflags fp)
    (\<lambda>_ r. has_room bs bc B key val \<and>
       rep_ok (dev_at bs bc) bs bc (put_medium bs bc B free key gen val uflags) r)
    (\<lambda>e r. e = StorageFull \<and> \<not> has_room bs bc B key val \<and> rep_ok (dev_at bs bc) bs bc B r \<or>
       fault e \<and> (\<exists>h ix. put_failed (\<lambda>B ix. rep_at (dev_at bs bc B) h ix) torn bs bc B ix free key gen val uflags r))"
proof (rule rep_ok_cases, rule rep_geometry_assume)
  fix h ix
  assume ix: "index_ok bs bc B ix" and len: "length B = unat bc"
  have "\<not> live_block free"
    using free_byte_block [OF fp, of bs] fit free_not_live by (simp add: free_def fits_format_def)
  note eff = put_medium_effect [OF len fit _ newer this]
  show "triple (rep_at (dev_at bs bc B) h ix) (replica_put oc D key val gen uflags fp)
    (\<lambda>_ r. has_room bs bc B key val \<and>
       rep_ok (dev_at bs bc) bs bc (put_medium bs bc B free key gen val uflags) r)
    (\<lambda>e r. e = StorageFull \<and> \<not> has_room bs bc B key val \<and> rep_ok (dev_at bs bc) bs bc B r \<or>
       fault e \<and> (\<exists>h ix. put_failed (\<lambda>B ix. rep_at (dev_at bs bc B) h ix) torn bs bc B ix free key gen val uflags r))"
  proof (rule triple_conseq [OF replica_put_spec [OF fit ix, of h oc gen uflags fp, folded free_def]], goal_cases)
    case (2 x r)
    then have room: "has_room bs bc B key val" ..
    have "index_ok bs bc (put_medium bs bc B free key gen val uflags)
        (mi_put (entry_of (put_record bs bc B key gen val uflags)) ix)"
      by (rule index_ok_put [OF ix]) (simp add: eff(1) [OF room])
    with 2 show ?case by (auto simp: rep_ok_def)
  qed (use ix in \<open>auto simp: rep_ok_def\<close>)
qed

lemma store_put_flagged_spec:
  fixes uflags Bs
  assumes bs: "36 \<le> unat bs" and sizes: "length key < 2 ^ 32" "36 + length key \<le> unat bs \<Longrightarrow> length key < 2 ^ 16" "length val < 2 ^ 32"
    and Bs: "Bs \<noteq> []"
    and gen: "unat (top_generation bs bc Bs (key_str key)) + 1 < 2 ^ 32" and fp: "free_byte (op_free_pattern op)"
  defines "free \<equiv> make_free_buf bs (op_free_pattern op)" and "g \<equiv> top_generation bs bc Bs (key_str key) + 1"
  shows "triple (store_ok (dev_at bs bc) bs bc op Bs) (store_put_flagged oc D key val uflags)
    (\<lambda>_ s. 36 + length key \<le> unat bs \<and> (\<forall>B \<in> set Bs. has_room bs bc B key val) \<and>
       store_ok (dev_at bs bc) bs bc op (map (\<lambda>B. put_medium bs bc B free key g val uflags) Bs) s)
    (\<lambda>e s. e = KeyTooLong \<and> unat bs < 36 + length key \<and> store_ok (dev_at bs bc) bs bc op Bs s \<or>
       36 + length key \<le> unat bs \<and> st_opts s = op \<and>
       put_stopped (dev_at bs bc) fault torn bs bc free key g val uflags e Bs (st_replicas s))"
    (is "triple ?P _ ?Q ?E")
proof -
  note limit = key_limit(1) [OF bs, of oc] key_limit(2) [OF bs sizes(1)]
  let ?put = "on_replicas (iter_mut (\<lambda>_ _. replica_put oc D key val g uflags (op_free_pattern op)) 0 ())"
  have put: "triple ?P ?put ?Q ?E" if key: "36 + length key \<le> unat bs"
  proof -
    have fit: "fits_format (unat bs) key val" using key sizes by (simp add: fits_format_def)
    have add: "unat g = unat (top_generation bs bc Bs (key_str key)) + 1"
      unfolding g_def using gen by (subst unat_u32_add) simp_all
    have newer: "cr_generation r < g" if "B \<in> set Bs" "latest bs bc B (key_str key) = Some r" for B r
      using top_generation_bound [OF that] add by (simp add: word_le_nat_alt word_less_nat_alt)
    let ?ok = "rep_ok (dev_at bs bc) bs bc"
    have body: "triple (?ok B) (replica_put oc D key val g uflags (op_free_pattern op))
        (\<lambda>b r. True \<and> (has_room bs bc B key val \<and> ?ok (put_medium bs bc B free key g val uflags) r))
        (\<lambda>e r. e = StorageFull \<and> \<not> has_room bs bc B key val \<and> ?ok B r \<or> fault e \<and>
          (\<exists>h ix. put_failed (\<lambda>B. rep_at (dev_at bs bc B) h) torn bs bc B ix free key g val uflags r))"
      if "B \<in> set Bs" for B
      by (rule triple_conseq [OF replica_put_ok [OF fit fp newer [OF that]]]) (auto simp: free_def)
    have "triple (list_all2 ?ok Bs) (iter_mut (\<lambda>_ _. replica_put oc D key val g uflags (op_free_pattern op)) 0 ())
        (\<lambda>b ss. steps (\<lambda>_ _ _. True) Bs () b \<and>
           list_all2 (\<lambda>B r. has_room bs bc B key val \<and> ?ok (put_medium bs bc B free key g val uflags) r) Bs ss)
        (\<lambda>e ss. put_stopped (dev_at bs bc) fault torn bs bc free key g val uflags e Bs ss)"
      unfolding put_stopped_def by (rule triple_iter_mut) (rule body)
    from triple_on_replicas [OF this, of op] show ?thesis
      by (rule triple_conseq)
        (use key in \<open>auto simp: store_ok_def list_all2_map1 list_all2_conj_left\<close>)
  qed
  have asks: "d_block_size D (rp_dev (hd (st_replicas s))) = bs \<and> st_replicas s \<noteq> [] \<and>
      max_generation (key_str key) (st_replicas s) = top_generation bs bc Bs (key_str key) \<and> st_opts s = op"
    if "?P s" for s
    using that Bs max_generation_eq [of "dev_at bs bc" bs bc Bs "st_replicas s" "key_str key"]
    by (cases Bs; cases "st_replicas s") (auto simp: store_ok_def rep_ok_def rep_at_def dev_size)
  have start: "store_put_flagged oc D key val uflags s =
      (if unat bs < 36 + length key then fail_io KeyTooLong s else ?put s)" if P: "?P s" for s
  proof -
    obtain r rs where rs: "st_replicas s = r # rs" "d_block_size D (rp_dev r) = bs"
      using asks [OF P] by (cases "st_replicas s") auto
    have "u32_add oc (max_generation (key_str key) (r # rs)) 1 = Ok g"
      using asks [OF P] gen unfolding rs g_def by (intro trans [OF u32_add_Ok]) simp_all
    then show ?thesis
      using asks [OF P] rs unfolding store_put_flagged_def
      by (simp add: bind_io_def limit Let_def)
  qed
  show ?thesis
  proof (cases "unat bs < 36 + length key")
    case True
    with start show ?thesis by (auto simp: triple_def)
  next
    case False
    with start show ?thesis by (intro triple_prog [OF put]) auto
  qed
qed

end

section \<open>delete\<close>

definition delete_medium :: "u32 \<Rightarrow> u32 \<Rightarrow> bytes list \<Rightarrow> bytes \<Rightarrow> bytes \<Rightarrow> bytes list" where
  "delete_medium bs bc B free ks = apply_writes (old_erasure bs bc B free ks) B"

lemma delete_medium_effect:
  assumes "tidy bs bc B" and "\<not> live_block free"
  shows "latest bs bc (delete_medium bs bc B free ks) = (latest bs bc B)(ks := None)"
    and "tidy bs bc (delete_medium bs bc B free ks)"
    and "length (delete_medium bs bc B free ks) = length B"
proof -
  have "latest bs bc (delete_medium bs bc B free ks) = (latest bs bc B)(ks := None) \<and>
    tidy bs bc (delete_medium bs bc B free ks)"
  proof (cases "latest bs bc B ks")
    case None
    then show ?thesis using assms(1) by (simp add: delete_medium_def old_erasure_def fun_upd_idem)
  next
    case (Some r0)
    note latest_delete [OF assms(1) Some erase_effect [OF latest_Some(1) [OF Some] assms(2)]]
    with Some show ?thesis by (simp add: delete_medium_def old_erasure_def)
  qed
  then show "latest bs bc (delete_medium bs bc B free ks) = (latest bs bc B)(ks := None)"
    and "tidy bs bc (delete_medium bs bc B free ks)" by simp_all
qed (simp add: delete_medium_def)

definition delete_failed ::
    "(bytes list \<Rightarrow> 'd \<Rightarrow> bool) \<Rightarrow> (bytes \<Rightarrow> bytes \<Rightarrow> bytes \<Rightarrow> bool) \<Rightarrow> u32 \<Rightarrow> u32 \<Rightarrow> bytes list \<Rightarrow> bytes \<Rightarrow> bytes \<Rightarrow>
     'd replica \<Rightarrow> bool" where
  "delete_failed dev torn bs bc B free ks r \<longleftrightarrow>
     (\<exists>h ix B'. partial_write torn B (old_erasure bs bc B free ks) B' \<and> index_ok bs bc B ix \<and>
       rep_at (dev B') h ix r)"

context device_contract
begin

lemma delete_step_raw:
  fixes fp
  assumes bs: "36 \<le> unat bs" and ix: "index_ok bs bc B ix"
  defines "free \<equiv> make_free_buf bs fp"
  shows "triple (rep_at (dev_at bs bc B) h ix) (delete_step oc D ks fp found)
    (\<lambda>b r. (b \<longleftrightarrow> found \<or> latest bs bc B ks \<noteq> None) \<and> rep_at (dev_at bs bc (delete_medium bs bc B free ks)) h
       (if latest bs bc B ks = None then ix else mi_delete ks ix) r)
    (\<lambda>e r. fault e \<and> delete_failed (dev_at bs bc) torn bs bc B free ks r)"
    (is "triple _ _ ?Q ?E")
  unfolding delete_step_def
proof (rule rep_index_bind, cases "latest bs bc B ks")
  case None
  then have "mi_get ix ks = None" using index_ok_get(1) [OF ix] by simp
  with None show "triple (rep_at (dev_at bs bc B) h ix)
      (case mi_get ix ks of None \<Rightarrow> return_io found
       | Some e \<Rightarrow> bind_io (free_record oc D (ie_descriptor_block e) fp) (\<lambda>_.
         bind_io (on_dev (d_flush D)) (\<lambda>_.
         bind_io (modify_io (\<lambda>r. r\<lparr>rp_index := mi_delete ks (rp_index r)\<rparr>)) (\<lambda>_. return_io True)))) ?Q ?E"
    by (auto intro!: triple_return simp: delete_medium_def old_erasure_def)
next
  case (Some r0)
  then have get: "mi_get ix ks = Some (entry_of r0)" using index_ok_get(1) [OF ix] by simp
  let ?es = "erase_writes free r0"
  let ?B = "apply_writes ?es B"
  have es: "old_erasure bs bc B free ks = ?es" "delete_medium bs bc B free ks = ?B"
    using Some by (simp_all add: old_erasure_def delete_medium_def)
  note c = latest_Some(1) [OF Some]
  have erase: "triple (rep_at (dev_at bs bc B) h ix) (free_record oc D (cr_descriptor_block r0) fp)
      (\<lambda>_. rep_at (dev_at bs bc ?B) h ix) ?E"
    by (rule triple_conseq [OF free_record_spec [OF bs c, of bc h ix oc fp, folded free_def]])
      (use ix es in \<open>auto simp: delete_failed_def\<close>)
  have "partial_write torn B ?es ?B"
    using erase_writes_blocks(1) [OF c] by (rule partial_write_all)
  then have flush: "triple (rep_at (dev_at bs bc ?B) h ix) (on_dev (d_flush D))
      (\<lambda>_. rep_at (dev_at bs bc ?B) h ix) ?E"
    by (intro triple_conseq [OF rep_flush]) (use ix es in \<open>auto simp: delete_failed_def\<close>)
  have last: "triple (rep_at (dev_at bs bc ?B) h (mi_delete ks ix)) (return_io True) ?Q ?E"
    using es Some by (auto intro!: triple_return)
  show "triple (rep_at (dev_at bs bc B) h ix)
      (case mi_get ix ks of None \<Rightarrow> return_io found
       | Some e \<Rightarrow> bind_io (free_record oc D (ie_descriptor_block e) fp) (\<lambda>_.
         bind_io (on_dev (d_flush D)) (\<lambda>_.
         bind_io (modify_io (\<lambda>r. r\<lparr>rp_index := mi_delete ks (rp_index r)\<rparr>)) (\<lambda>_. return_io True)))) ?Q ?E"
    unfolding get option.case entry_of_fields
    by (rule triple_bind [OF erase], rule triple_bind [OF flush], rule rep_modify_index, rule last)
qed

lemma delete_step_spec:
  fixes fp
  assumes bs: "36 \<le> unat bs" and fp: "free_byte fp" and t: "tidy bs bc B"
  defines "free \<equiv> make_free_buf bs fp"
  shows "triple (rep_ok (dev_at bs bc) bs bc B) (delete_step oc D ks fp found)
    (\<lambda>b r. (b \<longleftrightarrow> found \<or> latest bs bc B ks \<noteq> None) \<and>
       rep_ok (dev_at bs bc) bs bc (delete_medium bs bc B free ks) r)
    (\<lambda>e r. fault e \<and> delete_failed (dev_at bs bc) torn bs bc B free ks r)"
    (is "triple _ _ ?Q ?E")
proof (rule rep_ok_cases)
  fix h ix
  assume ix: "index_ok bs bc B ix"
  have "\<not> live_block free"
    using free_byte_block [OF fp, of bs] bs free_not_live by (simp add: free_def)
  note eff = delete_medium_effect(1) [OF t this, of ks]
  then have new: "index_ok bs bc (delete_medium bs bc B free ks) (if latest bs bc B ks = None then ix else mi_delete ks ix)"
    using ix index_ok_delete [OF ix eff] by (auto simp: index_ok_def fun_upd_idem)
  show "triple (rep_at (dev_at bs bc B) h ix) (delete_step oc D ks fp found) ?Q ?E"
    by (rule triple_conseq [OF delete_step_raw [OF bs ix, of h oc ks fp found, folded free_def]])
      (use new in \<open>auto simp: rep_ok_def\<close>)
qed

lemma steps_found:
  "steps (\<lambda>B a b. b \<longleftrightarrow> a \<or> p B) Bs a c \<Longrightarrow> c \<longleftrightarrow> a \<or> (\<exists>B \<in> set Bs. p B)"
  by (induction Bs arbitrary: a) auto

lemma store_delete_spec:
  fixes Bs
  assumes bs: "36 \<le> unat bs" and fp: "free_byte (op_free_pattern op)"
    and tidy: "\<And>B. B \<in> set Bs \<Longrightarrow> tidy bs bc B"
  defines "free \<equiv> make_free_buf bs (op_free_pattern op)"
  shows "triple (store_ok (dev_at bs bc) bs bc op Bs) (store_delete oc D key)
    (\<lambda>_ s. (\<exists>B \<in> set Bs. latest bs bc B (key_str key) \<noteq> None) \<and>
       store_ok (dev_at bs bc) bs bc op (map (\<lambda>B. delete_medium bs bc B free (key_str key)) Bs) s)
    (\<lambda>e s. e = KeyNotFound \<and> (\<forall>B \<in> set Bs. latest bs bc B (key_str key) = None) \<and>
         store_ok (dev_at bs bc) bs bc op Bs s \<or>
       fault e \<and> st_opts s = op \<and>
         stopped_at (\<lambda>B. rep_ok (dev_at bs bc) bs bc (delete_medium bs bc B free (key_str key)))
           (\<lambda>B. delete_failed (dev_at bs bc) torn bs bc B free (key_str key)) (rep_ok (dev_at bs bc) bs bc)
           Bs (st_replicas s))"
    (is "triple ?P _ ?Q ?E")
proof -
  let ?ks = "key_str key"
  let ?ok = "rep_ok (dev_at bs bc) bs bc"
  have "triple (list_all2 ?ok Bs) (iter_mut (\<lambda>_. delete_step oc D ?ks (op_free_pattern op)) 0 False)
      (\<lambda>b ss. steps (\<lambda>B a b. b \<longleftrightarrow> a \<or> latest bs bc B ?ks \<noteq> None) Bs False b \<and>
         list_all2 (\<lambda>B. ?ok (delete_medium bs bc B free ?ks)) Bs ss)
      (\<lambda>e ss. stopped_at (\<lambda>B. ?ok (delete_medium bs bc B free ?ks))
         (\<lambda>B r. fault e \<and> delete_failed (dev_at bs bc) torn bs bc B free ?ks r) ?ok Bs ss)"
    by (rule triple_iter_mut) (rule delete_step_spec [OF bs fp tidy, folded free_def])
  note loop = triple_on_replicas [OF this, of op]
  have all: "triple ?P (on_replicas (iter_mut (\<lambda>_. delete_step oc D ?ks (op_free_pattern op)) 0 False))
      (\<lambda>b s. (b \<longleftrightarrow> (\<exists>B \<in> set Bs. latest bs bc B ?ks \<noteq> None)) \<and>
         store_ok (dev_at bs bc) bs bc op (map (\<lambda>B. delete_medium bs bc B free ?ks) Bs) s) ?E"
    by (rule triple_conseq [OF loop])
      (auto simp: store_ok_def list_all2_map1 stopped_at_def dest: steps_found)
  have none: "map (\<lambda>B. delete_medium bs bc B free ?ks) Bs = Bs"
    if "\<forall>B \<in> set Bs. latest bs bc B ?ks = None"
    using that by (intro map_idI) (simp add: delete_medium_def old_erasure_def)
  have tail: "triple (\<lambda>s. (b \<longleftrightarrow> (\<exists>B \<in> set Bs. latest bs bc B ?ks \<noteq> None)) \<and>
         store_ok (dev_at bs bc) bs bc op (map (\<lambda>B. delete_medium bs bc B free ?ks) Bs) s)
      (if \<not> b then fail_io KeyNotFound else return_io ()) ?Q ?E" for b
    using none by (auto simp: triple_def)
  show ?thesis
    unfolding store_delete_def
    by (rule triple_asks_bind [where x = "op_free_pattern op"], simp add: store_ok_def)
      (rule triple_bind [OF all tail])
qed

end

end
