(* ===== verification/Ekv_Lifecycle.thy ===== *)
theory Ekv_Lifecycle
  imports Ekv_Store_Proofs
begin

text \<open>
  The life of a store before its first read or write: \<^verbatim>\<open>format\<close> writes the storage headers, \<^verbatim>\<open>open\<close>
  accepts the devices whose header is valid and whose geometry agrees, \<^verbatim>\<open>recover\<close> erases what belongs
  to no latest record, and \<^verbatim>\<open>build_index\<close> makes the index agree with the medium.
\<close>

section \<open>The storage header on the medium\<close>

definition header_for :: "u32 \<Rightarrow> u32 \<Rightarrow> options \<Rightarrow> nat \<Rightarrow> storage_header" where
  "header_for bs bc op i =
     \<lparr>sh_block_type = 1, sh_magic = MAGIC, sh_version_major = 1, sh_version_minor = 0,
      sh_block_size = bs, sh_block_count = bc, sh_replica_id = op_replica_id op + word_of_nat i,
      sh_format_seq = op_format_seq op, sh_flags = 0\<rparr>"

definition header_block :: "u32 \<Rightarrow> storage_header \<Rightarrow> bytes" where
  "header_block bs h = seal (storage_header_bytes h @ replicate (unat bs - 28) 0)"

lemma header_block_facts:
  assumes "32 \<le> unat bs"
  shows "length (header_block bs h) = unat bs" and "crc_ok (header_block bs h)"
    and "read_storage_header (header_block bs h) = h" and "header_block bs h ! 0 = sh_block_type h"
proof -
  show "length (header_block bs h) = unat bs" "crc_ok (header_block bs h)"
    using assms by (simp_all add: header_block_def)
  show r: "read_storage_header (header_block bs h) = h"
    using assms by (simp add: header_block_def read_header_seal)
  show "header_block bs h ! 0 = sh_block_type h"
    using arg_cong [OF r, of sh_block_type] by (simp add: read_storage_header_def)
qed

text \<open>What \<^verbatim>\<open>open\<close> demands of block 0, and the error it gives otherwise.\<close>

definition header_error :: "u32 \<Rightarrow> u32 \<Rightarrow> bytes \<Rightarrow> error option" where
  "header_error bs bc b =
     (if b ! 0 \<noteq> 1 then Some InvalidHeader
      else if \<not> crc_ok b then Some CrcMismatch
      else let h = read_storage_header b in
        if sh_magic h \<noteq> MAGIC \<or> sh_block_size h \<noteq> bs \<or> sh_block_count h \<noteq> bc then Some InvalidHeader
        else None)"

lemma header_error_formatted:
  "32 \<le> unat bs \<Longrightarrow> header_error bs bc (header_block bs (header_for bs bc op i)) = None"
  by (simp add: header_error_def header_block_facts header_for_def)

lemma header_not_live:
  "header_error bs bc b = None \<Longrightarrow> \<not> live_block b"
  by (auto simp: header_error_def live_block_def split: if_splits)

section \<open>format\<close>

text \<open>A device with its geometry: block size, number of blocks, blocks.\<close>

type_synonym medium = "u32 \<times> u32 \<times> bytes list"

definition medium_at :: "(u32 \<Rightarrow> u32 \<Rightarrow> bytes list \<Rightarrow> 'd \<Rightarrow> bool) \<Rightarrow> medium \<Rightarrow> 'd \<Rightarrow> bool" where
  "medium_at dev = (\<lambda>(bs, bc, B). dev bs bc B)"

definition formatted :: "options \<Rightarrow> nat \<times> medium \<Rightarrow> medium" where
  "formatted op = (\<lambda>(i, bs, bc, B). (bs, bc, B[0 := header_block bs (header_for bs bc op i)]))"

text \<open>Block 0 of a device after a failed write.\<close>

definition format_failed ::
    "(u32 \<Rightarrow> u32 \<Rightarrow> bytes list \<Rightarrow> 'd \<Rightarrow> bool) \<Rightarrow> (bytes \<Rightarrow> bytes \<Rightarrow> bytes \<Rightarrow> bool) \<Rightarrow> options \<Rightarrow> nat \<times> medium \<Rightarrow> 'd \<Rightarrow> bool" where
  "format_failed dev torn op = (\<lambda>(i, bs, bc, B) d. let hb = header_block bs (header_for bs bc op i) in
     \<exists>b. (b = B ! 0 \<or> b = hb \<or> torn (B ! 0) hb b) \<and> dev bs bc (B[0 := b]) d)"

lemma stopped_at_mono:
  assumes "stopped_at Q E P xs ss" and "\<And>x s. Q x s \<Longrightarrow> Q' x s" and "\<And>x s. E x s \<Longrightarrow> E' x s"
    and "\<And>x s. P x s \<Longrightarrow> P' x s"
  shows "stopped_at Q' E' P' xs ss"
  using assms unfolding stopped_at_def by (blast intro: list_all2_mono)

lemma stopped_at_all: "stopped_at P P P xs ss \<Longrightarrow> list_all2 P xs ss"
  by (auto simp: stopped_at_def intro: list_all2_appendI)

lemma stopped_at_faults: "stopped_at Q (\<lambda>x s. F \<and> E x s) P xs ss \<Longrightarrow> F"
  by (auto simp: stopped_at_def)

context device_contract
begin

lemma format_device_small:
  assumes "unat bs < 32"
  shows "triple (dev_at bs bc B) (format_device oc D op i) (\<lambda>_ _. False)
    (\<lambda>e d. e = InvalidBlockSize \<and> dev_at bs bc B d)"
  unfolding format_device_def
  by (rule triple_asks_bind [where x = bs], erule dev_size)
    (use assms in \<open>auto simp: layout_simps word_less_nat_alt triple_def\<close>)

lemma format_device_spec:
  fixes op i
  assumes bs: "32 \<le> unat bs" and bc: "0 < bc" and id: "unat (op_replica_id op) + i < 2 ^ 32"
  defines "hb \<equiv> header_block bs (header_for bs bc op i)"
  shows "triple (dev_at bs bc B) (format_device oc D op i)
    (\<lambda>_. dev_at bs bc (B[0 := hb]))
    (\<lambda>e d. fault e \<and> (\<exists>b. (b = B ! 0 \<or> b = hb \<or> torn (B ! 0) hb b) \<and> dev_at bs bc (B[0 := b]) d))"
    (is "triple _ _ _ ?E")
proof -
  have add: "u32_add oc (op_replica_id op) (word_of_nat i) = Ok (op_replica_id op + word_of_nat i)"
    using id by (simp add: u32_add_Ok unat_of_nat_u32)
  have buf: "bind_o (marshal_storage_header (header_for bs bc op i) (replicate (unat bs) 0)) (write_block_crc oc) = Ok hb"
    using bs by (simp add: marshal_storage_header_Ok write_block_crc_Ok hb_def header_block_def)
  have len: "length hb = unat bs" using bs by (simp add: hb_def header_block_facts)
  have store: "triple (dev_at bs bc B) (d_write_block D 0 hb) (\<lambda>_. dev_at bs bc (B[0 := hb])) ?E"
    by (rule triple_conseq [OF dev_write [OF bc len]]) auto
  have flush: "triple (dev_at bs bc (B[0 := hb])) (d_flush D) (\<lambda>_. dev_at bs bc (B[0 := hb])) ?E"
    by (rule triple_conseq [OF dev_flush]) auto
  have "triple (dev_at bs bc B) (bind_io (d_write_block D 0 hb) (\<lambda>_. d_flush D))
      (\<lambda>_. dev_at bs bc (B[0 := hb])) ?E"
    by (rule triple_bind [OF store flush])
  then show ?thesis
    unfolding format_device_def
    apply (intro triple_asks_bind [where x = bs] dev_size)
     apply assumption
    apply (subst if_not_P)
     apply (use bs in \<open>simp add: layout_simps word_less_nat_alt\<close>)
    apply (rule triple_asks_bind [where x = bc], erule dev_count)
    apply (simp add: add buf [unfolded header_for_def MAGIC_def] layout_simps bind_io_def)
    done
qed


lemma format_store_spec:
  fixes ms op
  assumes ms: "ms \<noteq> []" and bc: "\<forall>(bs, bc, B) \<in> set ms. 0 < bc"
    and id: "unat (op_replica_id op) + length ms \<le> 2 ^ 32"
  defines "small \<equiv> \<lambda>x. unat (fst (snd x)) < 32" and "xs \<equiv> List.enumerate 0 ms"
  shows "triple (list_all2 (medium_at dev_at) ms) (format_store oc D op)
    (\<lambda>_ ds. (\<forall>x \<in> set xs. \<not> small x) \<and> list_all2 (medium_at dev_at) (map (formatted op) xs) ds)
    (\<lambda>e ds. stopped_at (\<lambda>x. medium_at dev_at (formatted op x))
       (\<lambda>x d. e = InvalidBlockSize \<and> small x \<and> medium_at dev_at (snd x) d \<or>
          fault e \<and> format_failed dev_at torn op x d) (\<lambda>x. medium_at dev_at (snd x)) xs ds)"
proof -
  let ?P = "\<lambda>x. medium_at dev_at (snd x)"
  let ?Q = "\<lambda>x. medium_at dev_at (formatted op x)"
  let ?E = "\<lambda>x e d. e = InvalidBlockSize \<and> small x \<and> medium_at dev_at (snd x) d \<or>
          fault e \<and> format_failed dev_at torn op x d"
  have body: "triple (?P x) (format_device oc D op (fst x)) (\<lambda>b d. True \<and> (\<not> small x \<and> ?Q x d)) (?E x)"
    if x: "x \<in> set xs" for x
  proof -
    obtain i bs bc B where eq: "x = (i, bs, bc, B)" by (metis prod_cases4)
    with x have i: "i < length ms" "ms ! i = (bs, bc, B)" by (auto simp: xs_def in_set_enumerate_eq)
    with bc nth_mem [OF i(1)] id have *: "0 < bc" "unat (op_replica_id op) + i < 2 ^ 32" by auto
    show ?thesis
    proof (cases "unat bs < 32")
      case True
      from format_device_small [OF this] show ?thesis
        by (rule triple_conseq) (use True in \<open>auto simp: eq medium_at_def small_def\<close>)
    next
      case False
      then have "32 \<le> unat bs" by simp
      from format_device_spec [OF this *, of B oc] show ?thesis
        unfolding eq fst_conv by (rule triple_conseq) (use False in
          \<open>auto simp: medium_at_def small_def formatted_def format_failed_def Let_def\<close>)
    qed
  qed
  have "triple (list_all2 ?P xs) (iter_mut (\<lambda>i _. format_device oc D op i) 0 ())
      (\<lambda>b ss. steps (\<lambda>_ _ _. True) xs () b \<and> list_all2 (\<lambda>x d. \<not> small x \<and> ?Q x d) xs ss)
      (\<lambda>e ss. stopped_at (\<lambda>x d. \<not> small x \<and> ?Q x d) (\<lambda>x. ?E x e) ?P xs ss)"
    by (rule triple_iter_mut_enum) (use body in \<open>auto simp: xs_def\<close>)
  then have loop: "triple (list_all2 ?P xs) (iter_mut (\<lambda>i _. format_device oc D op i) 0 ())
      (\<lambda>_ ds. (\<forall>x \<in> set xs. \<not> small x) \<and> list_all2 (medium_at dev_at) (map (formatted op) xs) ds)
      (\<lambda>e ds. stopped_at ?Q (\<lambda>x. ?E x e) ?P xs ds)"
    by (rule triple_conseq)
      (auto simp: list_all2_map1 list_all2_conj_left elim!: stopped_at_mono)
  have "list_all2 ?P xs ds" if "list_all2 (medium_at dev_at) ms ds" for ds
    using that by (simp add: xs_def list_all2_map1 [symmetric, where f = snd])
  note loop = triple_pre [OF loop this]
  show ?thesis
    by (rule triple_prog [OF loop]) (use ms in \<open>auto simp: format_store_def list_all2_Cons1 neq_Nil_conv\<close>)
qed

section \<open>open\<close>

text \<open>The result of \<^verbatim>\<open>open_replica_header\<close>, and that reading leaves the medium alone.\<close>

lemma open_replica_header_small:
  assumes "unat bs < 32"
  shows "triple (dev_at bs bc B) (open_replica_header oc D) (\<lambda>_ _. False)
    (\<lambda>e d. e = InvalidBlockSize \<and> dev_at bs bc B d)"
  unfolding open_replica_header_def
  by (rule triple_asks_bind [where x = bs], erule dev_size)
    (use assms in \<open>auto simp: layout_simps word_less_nat_alt triple_def\<close>)

lemma open_replica_header_spec:
  assumes bs: "32 \<le> unat bs" and bc: "0 < bc"
  shows "triple (dev_at bs bc B) (open_replica_header oc D)
    (\<lambda>h d. header_error bs bc (B ! 0) = None \<and> h = read_storage_header (B ! 0) \<and> dev_at bs bc B d)
    (\<lambda>e d. (fault e \<or> header_error bs bc (B ! 0) = Some e) \<and> dev_at bs bc B d)"
    (is "triple _ _ ?Q ?E")
proof (rule triple_assume [where A = "length (B ! 0) = unat bs"])
  show "length (B ! 0) = unat bs" if "dev_at bs bc B d" for d
    using dev_nth_length [OF that, of 0] bc by (simp add: word_less_nat_alt)
  assume len: "length (B ! 0) = unat bs"
  have val: "get_byte 0 (B ! 0) = Ok (B ! 0 ! 0)"
    "unmarshal_storage_header oc (B ! 0) = Ok (read_storage_header (B ! 0), crc_ok (B ! 0))"
    using bs len by (auto simp: get_byte_Ok unmarshal_storage_header_Ok)
  have read: "triple (dev_at bs bc B) (d_read_block D 0 (replicate (unat bs) 0))
      (\<lambda>b d. b = B ! 0 \<and> dev_at bs bc B d) ?E"
    by (rule triple_conseq [OF dev_read [OF bc]]) auto
  show ?thesis
    unfolding open_replica_header_def
    apply (rule triple_asks_bind [where x = bs], erule dev_size)
    apply (subst if_not_P)
     apply (use bs in \<open>simp add: layout_simps word_less_nat_alt\<close>)
    apply (rule triple_bind_eq [OF read])
    using bc apply (auto simp: val triple_def bind_io_def header_error_def layout_simps dev_count word_less_1)
    done
qed


end

text \<open>The first error that opening the devices runs into; \<open>g\<close> is the geometry of the first device.\<close>

fun open_error :: "(u32 \<times> u32) option \<Rightarrow> medium list \<Rightarrow> error option" where
  "open_error g [] = None"
| "open_error g ((bs, bc, B) # ms) =
     (if unat bs < 32 then Some InvalidBlockSize
      else case header_error bs bc (B ! 0) of
        Some e \<Rightarrow> Some e
      | None \<Rightarrow> if g = None \<or> g = Some (bs, bc) then open_error (Some (bs, bc)) ms
          else Some ReplicaMismatch)"

definition opened_at :: "(u32 \<Rightarrow> u32 \<Rightarrow> bytes list \<Rightarrow> 'd \<Rightarrow> bool) \<Rightarrow> medium \<Rightarrow> 'd replica \<Rightarrow> bool" where
  "opened_at dev = (\<lambda>(bs, bc, B). rep_at (dev bs bc B) (read_storage_header (B ! 0)) mi_new)"

context device_contract
begin

lemma open_loop_spec:
  assumes "list_all2 (medium_at dev_at) ms devs" and "\<And>bs bc B. (bs, bc, B) \<in> set ms \<Longrightarrow> 0 < bc"
    and "g = (if i = 0 then None else Some (block_size, block_count))"
  shows "case open_loop oc D i block_size block_count rs devs of
      Ok rs' \<Rightarrow> open_error g ms = None \<and> (\<exists>rs2. rs' = rs @ rs2 \<and> list_all2 (opened_at dev_at) ms rs2)
    | Err e \<Rightarrow> fault e \<or> open_error g ms = Some e
    | Panic \<Rightarrow> False"
  using assms
proof (induction ms devs arbitrary: g i block_size block_count rs rule: list_all2_induct)
  case (Cons m ms dev devs)
  obtain bs bc B where m: "m = (bs, bc, B)" by (metis prod_cases3)
  then have dev: "dev_at bs bc B dev" and bc: "0 < bc"
    using Cons.hyps(1) Cons.prems(1) [of bs bc B] by (simp_all add: medium_at_def)
  show ?case
  proof (cases "unat bs < 32")
    case True
    from open_replica_header_small [OF this, of bc B oc] dev show ?thesis
      by (cases rule: triple_cases) (use True m in auto)
  next
    case False
    then have "32 \<le> unat bs" by simp
    from open_replica_header_spec [OF this bc, of B oc] dev show ?thesis
    proof (cases rule: triple_cases)
      case (Err e d')
      then show ?thesis using False m by auto
    next
      case (Ok h d')
      then have d': "dev_at bs bc B d'" and hd: "header_error bs bc (B ! 0) = None" "h = read_storage_header (B ! 0)"
        by auto
      let ?r = "\<lparr>rp_dev = d', rp_header = h, rp_index = mi_new\<rparr>"
      have r: "opened_at dev_at m ?r" using d' hd m by (simp add: opened_at_def rep_at_def)
      have geo: "d_block_size D d' = bs" "d_block_count D d' = bc"
        using d' by (simp_all add: dev_size dev_count)
      have IH: "case open_loop oc D (Suc i) bs bc (rs @ [?r]) devs of
          Ok rs' \<Rightarrow> open_error (Some (bs, bc)) ms = None \<and>
            (\<exists>rs2. rs' = (rs @ [?r]) @ rs2 \<and> list_all2 (opened_at dev_at) ms rs2)
        | Err e \<Rightarrow> fault e \<or> open_error (Some (bs, bc)) ms = Some e
        | Panic \<Rightarrow> False"
        by (rule Cons.IH) (use Cons.prems(1) in auto)
      let ?same = "g = None \<or> g = Some (bs, bc)"
      have err: "open_error g (m # ms) = (if ?same then open_error (Some (bs, bc)) ms else Some ReplicaMismatch)"
        using False hd m by simp
      have loop: "open_loop oc D i block_size block_count rs (dev # devs) =
          (if ?same then open_loop oc D (Suc i) bs bc (rs @ [?r]) devs else outcome.Err ReplicaMismatch)"
        using Ok(1) geo Cons.prems(2) by auto
      show ?thesis
      proof (cases ?same)
        case True
        with IH r show ?thesis
          unfolding err loop
          by (cases "open_loop oc D (Suc i) bs bc (rs @ [?r]) devs") (auto simp: list_all2_Cons1)
      next
        case False
        then show ?thesis unfolding err loop by (simp only: if_False outcome.case)
          simp
      qed
    qed
  qed
qed simp

lemma open_store_spec:
  assumes "list_all2 (medium_at dev_at) ms devs" and "ms \<noteq> []" and "\<And>bs bc B. (bs, bc, B) \<in> set ms \<Longrightarrow> 0 < bc"
  shows "case open_store oc D devs op of
      Ok s \<Rightarrow> open_error None ms = None \<and> list_all2 (opened_at dev_at) ms (st_replicas s) \<and> st_opts s = op
    | Err e \<Rightarrow> fault e \<or> open_error None ms = Some e
    | Panic \<Rightarrow> False"
proof -
  have "devs \<noteq> []" using assms(1,2) by auto
  moreover have "case open_loop oc D 0 0 0 [] devs of
      Ok rs' \<Rightarrow> open_error None ms = None \<and> (\<exists>rs2. rs' = [] @ rs2 \<and> list_all2 (opened_at dev_at) ms rs2)
    | Err e \<Rightarrow> fault e \<or> open_error None ms = Some e
    | Panic \<Rightarrow> False"
    by (rule open_loop_spec [OF assms(1)]) (use assms(3) in auto)
  ultimately show ?thesis
    by (cases "open_loop oc D 0 0 0 [] devs") (auto simp: open_store_def)
qed

section \<open>build_index and recover\<close>

lemma store_build_index_spec:
  assumes "36 \<le> unat bs"
  shows "triple (store_media (dev_at bs bc) op Bs) (store_build_index oc D)
    (\<lambda>_. store_ok (dev_at bs bc) bs bc op Bs)
    (\<lambda>e s. fault e \<and> store_media (dev_at bs bc) op Bs s)"
proof -
  let ?P = "\<lambda>B (r :: 'd replica). dev_at bs bc B (rp_dev r)"
  have body: "triple (?P B) (replica_build_index oc D)
      (\<lambda>b r. True \<and> rep_ok (dev_at bs bc) bs bc B r) (\<lambda>e r. fault e \<and> ?P B r)" for B
    unfolding triple_def
  proof (intro allI impI)
    fix r
    assume "?P B r"
    then have r: "rep_at (dev_at bs bc B) (rp_header r) (rp_index r) r" by (simp add: rep_at_def)
    from replica_build_index_spec [OF assms, where oc = oc] r
    show "case replica_build_index oc D r of (Ok x, r') \<Rightarrow> True \<and> rep_ok (dev_at bs bc) bs bc B r'
        | (Err e, r') \<Rightarrow> fault e \<and> ?P B r' | (Panic, r') \<Rightarrow> False"
      by (cases rule: triple_cases) (auto simp: rep_ok_def index_ok_scan rep_at_def)
  qed
  have "triple (list_all2 ?P Bs) (iter_mut (\<lambda>_ _. replica_build_index oc D) 0 ())
      (\<lambda>b ss. steps (\<lambda>_ _ _. True) Bs () b \<and> list_all2 (rep_ok (dev_at bs bc) bs bc) Bs ss)
      (\<lambda>e ss. stopped_at (rep_ok (dev_at bs bc) bs bc) (\<lambda>B r. fault e \<and> ?P B r) ?P Bs ss)"
    by (rule triple_iter_mut) (rule body)
  from triple_on_replicas [OF this, of op] show ?thesis
    unfolding store_build_index_def
    by (rule triple_conseq)
      (auto simp: store_media_def store_ok_def dest: stopped_at_faults
        intro!: stopped_at_all elim!: stopped_at_mono, auto simp: rep_ok_def rep_at_def)
qed

end

definition recover_writes :: "u32 \<Rightarrow> u32 \<Rightarrow> bytes list \<Rightarrow> bytes \<Rightarrow> (u32 \<times> bytes) list" where
  "recover_writes bs bc B free = garbage_writes (kept_blocks bs bc B) free B (data_blocks bc)"

definition recover_medium :: "u32 \<Rightarrow> u32 \<Rightarrow> bytes list \<Rightarrow> bytes \<Rightarrow> bytes list" where
  "recover_medium bs bc B free = apply_writes (recover_writes bs bc B free) B"

context device_contract
begin

lemma store_recover_spec:
  fixes op
  assumes "36 \<le> unat bs"
  defines "free \<equiv> make_free_buf bs (op_free_pattern op)"
  shows "triple (store_media (dev_at bs bc) op Bs) (store_recover oc D)
    (\<lambda>_. store_media (dev_at bs bc) op (map (\<lambda>B. recover_medium bs bc B free) Bs))
    (\<lambda>e s. fault e \<and> st_opts s = op \<and>
       stopped_at (\<lambda>B r. dev_at bs bc (recover_medium bs bc B free) (rp_dev r))
         (\<lambda>B r. \<exists>B'. partial_write torn B (recover_writes bs bc B free) B' \<and> dev_at bs bc B' (rp_dev r))
         (\<lambda>B r. dev_at bs bc B (rp_dev r)) Bs (st_replicas s))"
proof -
  let ?P = "\<lambda>B (r :: 'd replica). dev_at bs bc B (rp_dev r)"
  let ?Q = "\<lambda>B (r :: 'd replica). dev_at bs bc (recover_medium bs bc B free) (rp_dev r)"
  let ?E = "\<lambda>B (r :: 'd replica). \<exists>B'. partial_write torn B (recover_writes bs bc B free) B' \<and> dev_at bs bc B' (rp_dev r)"
  have body: "triple (?P B) (replica_recover oc D (op_free_pattern op))
      (\<lambda>b r. True \<and> ?Q B r) (\<lambda>e r. fault e \<and> ?E B r)" for B
    unfolding triple_def
  proof (intro allI impI)
    fix r
    assume "?P B r"
    then have r: "rep_at (dev_at bs bc B) (rp_header r) (rp_index r) r" by (simp add: rep_at_def)
    from replica_recover_spec [OF assms(1), where oc = oc and fp = "op_free_pattern op"] r
    show "case replica_recover oc D (op_free_pattern op) r of (Ok x, r') \<Rightarrow> True \<and> ?Q B r'
        | (Err e, r') \<Rightarrow> fault e \<and> ?E B r' | (Panic, r') \<Rightarrow> False"
      by (cases rule: triple_cases)
        (auto simp: rep_at_def recover_medium_def recover_writes_def free_def)
  qed
  have "triple (list_all2 ?P Bs) (iter_mut (\<lambda>_ _. replica_recover oc D (op_free_pattern op)) 0 ())
      (\<lambda>b ss. steps (\<lambda>_ _ _. True) Bs () b \<and> list_all2 ?Q Bs ss)
      (\<lambda>e ss. stopped_at ?Q (\<lambda>B r. fault e \<and> ?E B r) ?P Bs ss)"
    by (rule triple_iter_mut) (rule body)
  note loop = triple_on_replicas [OF this, of op]
  show ?thesis
    unfolding store_recover_def
    by (rule triple_asks_bind [where x = "op_free_pattern op"], simp add: store_media_def,
        rule triple_conseq [OF loop])
      (auto simp: store_media_def list_all2_map1 dest: stopped_at_faults elim!: stopped_at_mono)
qed

end

end
