(* ===== verification/Ekv_Lockstep.thy ===== *)
theory Ekv_Lockstep
  imports Ekv_Lifecycle
begin

text \<open>
  Replicas with the same data. Storage headers differ between the replicas, the data blocks need not:
  on replicas whose data blocks agree, every operation makes the same writes, so they stay in
  agreement, and an operation that runs out of space does so on the first replica.
\<close>

section \<open>Media with the same data blocks\<close>

definition same_data :: "bytes list \<Rightarrow> bytes list \<Rightarrow> bool" where
  "same_data B B' \<longleftrightarrow> length B = length B' \<and> (\<forall>i. 0 < i \<longrightarrow> i < length B \<longrightarrow> B ! i = B' ! i) \<and>
     \<not> live_block (B ! 0) \<and> \<not> live_block (B' ! 0)"

lemma same_data_sym: "same_data B B' \<Longrightarrow> same_data B' B"
  by (auto simp: same_data_def)

lemma same_data_refl: "\<not> live_block (B ! 0) \<Longrightarrow> same_data B B"
  by (simp add: same_data_def)

lemma same_data_nth: "same_data B B' \<Longrightarrow> 0 < i \<Longrightarrow> i < bc \<Longrightarrow> length B = unat bc \<Longrightarrow> B ! unat i = B' ! unat i"
  unfolding same_data_def by (simp add: word_less_nat_alt)

lemma complete_same_data:
  assumes "same_data B B'"
  shows "complete bs B i r \<longleftrightarrow> complete bs B' i r"
proof -
  have "complete bs B' i r" if "same_data B B'" "complete bs B i r" for B B'
    using that(2) by (rule complete_dead_change) (use that(1) in \<open>auto simp: same_data_def\<close>, metis gr_zeroI)
  with assms same_data_sym show ?thesis by blast
qed

lemma latest_same_data: "same_data B B' \<Longrightarrow> latest bs bc B = latest bs bc B'"
  by (rule ext, rule latest_cong) (simp add: complete_same_data)

lemma free_list_same_data:
  assumes "same_data B B'" and "length B = unat bc"
  shows "free_list bc B = free_list bc B'"
  unfolding free_list_def
  by (rule filter_cong) (use same_data_nth [OF assms(1) _ _ assms(2)] in \<open>auto simp: set_data_blocks\<close>)

lemma put_same_data:
  assumes "same_data B B'" and "length B = unat bc"
  shows "has_room bs bc B key val \<longleftrightarrow> has_room bs bc B' key val"
    and "put_writes bs bc B key gen val uflags = put_writes bs bc B' key gen val uflags"
    and "put_record bs bc B key gen val uflags = put_record bs bc B' key gen val uflags"
    and "old_erasure bs bc B free ks = old_erasure bs bc B' free ks"
  by (simp_all add: has_room_def put_writes_def put_record_def put_blocks_def old_erasure_def
      free_list_same_data [OF assms] latest_same_data [OF assms(1)])

lemma same_data_apply_writes:
  assumes "same_data B B'" and "0 \<notin> fst ` set ws"
  shows "same_data (apply_writes ws B) (apply_writes ws B')"
  using assms
proof (induction ws arbitrary: B B')
  case (Cons w ws)
  obtain c b where w: "w = (c, b)" by (cases w)
  then have "0 < unat c" using Cons.prems(2) by (auto simp: unat_gt_0)
  then have "same_data (B[unat c := b]) (B'[unat c := b])"
    using Cons.prems(1) unfolding same_data_def
    by (auto, metis nth_list_update_eq nth_list_update_neq)
  with Cons w show ?case by simp
qed simp

lemma put_blocks_nonzero: "0 \<notin> set (put_blocks bs bc B key val)"
  by (auto simp: put_blocks_def free_list_def set_data_blocks dest: in_set_takeD)

lemma footprint_nonzero:
  assumes "complete bs B db r" and "\<not> live_block (B ! 0)"
  shows "0 \<notin> footprint r"
  using complete_live [OF assms(1)] assms(2) by force

lemma old_erasure_nonzero:
  assumes "\<not> live_block (B ! 0)"
  shows "0 \<notin> fst ` set (old_erasure bs bc B free ks)"
proof (cases "latest bs bc B ks")
  case (Some r0)
  note c = latest_Some(1) [OF Some]
  from erase_writes_blocks(2) [OF c] footprint_nonzero [OF c assms] Some show ?thesis
    by (simp add: old_erasure_def)
qed (simp add: old_erasure_def)

lemma put_writes_nonzero:
  assumes "has_room bs bc B key val"
  shows "0 \<notin> fst ` set (put_writes bs bc B key gen val uflags)"
  using arg_cong [OF put_writes_blocks [OF assms, of gen uflags], of set] put_blocks_nonzero by simp

lemma apply_writes_block0: "0 \<notin> fst ` set ws \<Longrightarrow> apply_writes ws B ! 0 = B ! 0"
  by (rule apply_writes_other) (force simp: unat_eq_zero)

lemma put_medium_block0:
  assumes "has_room bs bc B key val" and "\<not> live_block (B ! 0)"
  shows "put_medium bs bc B free key gen val uflags ! 0 = B ! 0"
  unfolding put_medium_def
  by (simp only: apply_writes_block0 old_erasure_nonzero [OF assms(2)] put_writes_nonzero [OF assms(1)]
      not_False_eq_True)

lemma delete_medium_block0:
  "\<not> live_block (B ! 0) \<Longrightarrow> delete_medium bs bc B free ks ! 0 = B ! 0"
  unfolding delete_medium_def by (simp only: apply_writes_block0 old_erasure_nonzero not_False_eq_True)

lemma put_medium_same_data:
  assumes "same_data B B'" and "length B = unat bc" and "has_room bs bc B key val"
  shows "same_data (put_medium bs bc B free key gen val uflags) (put_medium bs bc B' free key gen val uflags)"
proof -
  have "0 \<notin> fst ` set (old_erasure bs bc B free (key_str key))"
    using assms(1) by (intro old_erasure_nonzero) (simp add: same_data_def)
  then show ?thesis
    unfolding put_medium_def put_same_data [OF assms(1,2), symmetric]
    using assms(1) put_writes_nonzero [OF assms(3)] by (intro same_data_apply_writes)
qed

lemma delete_medium_same_data:
  assumes "same_data B B'"
  shows "same_data (delete_medium bs bc B free ks) (delete_medium bs bc B' free ks)"
proof -
  have "0 \<notin> fst ` set (old_erasure bs bc B free ks)"
    using assms by (intro old_erasure_nonzero) (simp add: same_data_def)
  moreover have "old_erasure bs bc B' free ks = old_erasure bs bc B free ks"
    using latest_same_data [OF assms] by (simp add: old_erasure_def)
  ultimately show ?thesis
    unfolding delete_medium_def using assms by (simp add: same_data_apply_writes)
qed

section \<open>Stores in lockstep\<close>

definition lockstep :: "bytes list list \<Rightarrow> bool" where
  "lockstep Bs \<longleftrightarrow> Bs \<noteq> [] \<and> (\<forall>B \<in> set Bs. same_data (hd Bs) B)"

lemma lockstep_map:
  assumes "lockstep Bs" and "\<And>B. B \<in> set Bs \<Longrightarrow> same_data (f (hd Bs)) (f B)"
  shows "lockstep (map f Bs)"
  using assms by (auto simp: lockstep_def hd_map)

lemma stopped_at_first:
  assumes "stopped_at Q E P xs ss" and "\<And>x y s t. x \<in> set xs \<Longrightarrow> y \<in> set xs \<Longrightarrow> E x s \<Longrightarrow> \<not> Q y t"
  shows "\<exists>s ss'. ss = s # ss' \<and> E (hd xs) s \<and> list_all2 P (tl xs) ss'"
proof -
  from assms(1) obtain ys x zs us s vs where split: "xs = ys @ x # zs" "ss = us @ s # vs"
    "list_all2 Q ys us" "E x s" "list_all2 P zs vs"
    unfolding stopped_at_def by blast
  have "ys = []"
  proof (cases ys)
    case (Cons y ys')
    with split obtain u where "Q y u" by (auto simp: list_all2_Cons1)
    with assms(2) [of x y s u] split Cons show ?thesis by simp
  qed
  with split show ?thesis by simp
qed

text \<open>The map from keys to values that a medium holds.\<close>

definition contents :: "u32 \<Rightarrow> u32 \<Rightarrow> bytes list \<Rightarrow> bytes \<rightharpoonup> bytes" where
  "contents bs bc B = (\<lambda>k. map_option cr_value (latest bs bc B k))"

lemma contents_put:
  "latest bs bc B' = (latest bs bc B)(ks \<mapsto> r) \<Longrightarrow> contents bs bc B' = (contents bs bc B)(ks \<mapsto> cr_value r)"
  by (auto simp: contents_def fun_eq_iff)

lemma contents_delete:
  "latest bs bc B' = (latest bs bc B)(ks := None) \<Longrightarrow> contents bs bc B' = (contents bs bc B)(ks := None)"
  by (auto simp: contents_def fun_eq_iff)

text \<open>Every generation on the medium is at most \<open>n\<close>.\<close>

definition gen_bound :: "u32 \<Rightarrow> u32 \<Rightarrow> nat \<Rightarrow> bytes list \<Rightarrow> bool" where
  "gen_bound bs bc n B \<longleftrightarrow> (\<forall>k r. latest bs bc B k = Some r \<longrightarrow> unat (cr_generation r) \<le> n)"

lemma top_generation_le:
  assumes "\<And>B. B \<in> set Bs \<Longrightarrow> gen_bound bs bc n B"
  shows "unat (top_generation bs bc Bs ks) \<le> n"
proof -
  have "unat (foldl (\<lambda>g B. case latest bs bc B ks of None \<Rightarrow> g
       | Some r \<Rightarrow> if g < cr_generation r then cr_generation r else g) g Bs) \<le> n" if "unat g \<le> n" for g
    using assms that
  proof (induction Bs arbitrary: g)
    case (Cons B Bs)
    have "gen_bound bs bc n B" using Cons.prems(1) by simp
    then have "unat (case latest bs bc B ks of None \<Rightarrow> g
       | Some r \<Rightarrow> if g < cr_generation r then cr_generation r else g) \<le> n"
      using Cons.prems(2) by (auto simp: gen_bound_def split: option.split)
    with Cons.IH Cons.prems(1) show ?case by simp
  qed simp
  then show ?thesis by (simp add: top_generation_def)
qed

end
