(* ===== verification/Ekv_Kv.thy ===== *)
theory Ekv_Kv
  imports Ekv_Lockstep
begin

text \<open>
  The contract of a key-value store towards its clients: a map from keys to values that \<^verbatim>\<open>get\<close> reads
  and \<^verbatim>\<open>put\<close> and \<^verbatim>\<open>delete\<close> update. The store on reliable devices satisfies it; keys are compared as the
  index compares them, after \<^verbatim>\<open>from_utf8_lossy\<close>.
\<close>

section \<open>Sequences of calls\<close>

datatype kv_op = Put bytes bytes | Get bytes | Delete bytes

datatype kv_reply = Done | Found bytes | Failed error | Panicked

text \<open>What a client sees of one call on a store with the operations \<open>g\<close>, \<open>p\<close> and \<open>d\<close>.\<close>

fun reply :: "('a \<Rightarrow> kv_reply) \<Rightarrow> 'a outcome \<times> 's \<Rightarrow> kv_reply \<times> 's" where
  "reply f (Ok x, s) = (f x, s)"
| "reply f (Err e, s) = (Failed e, s)"
| "reply f (Panic, s) = (Panicked, s)"

fun kv_call ::
    "(bytes \<Rightarrow> ('s, bytes) io) \<Rightarrow> (bytes \<Rightarrow> bytes \<Rightarrow> ('s, unit) io) \<Rightarrow> (bytes \<Rightarrow> ('s, unit) io) \<Rightarrow>
     kv_op \<Rightarrow> 's \<Rightarrow> kv_reply \<times> 's" where
  "kv_call g p d (Put k v) s = reply (\<lambda>_. Done) (p k v s)"
| "kv_call g p d (Get k) s = reply Found (g k s)"
| "kv_call g p d (Delete k) s = reply (\<lambda>_. Done) (d k s)"

fun kv_calls ::
    "(bytes \<Rightarrow> ('s, bytes) io) \<Rightarrow> (bytes \<Rightarrow> bytes \<Rightarrow> ('s, unit) io) \<Rightarrow> (bytes \<Rightarrow> ('s, unit) io) \<Rightarrow>
     kv_op list \<Rightarrow> 's \<Rightarrow> kv_reply list \<times> 's" where
  "kv_calls g p d [] s = ([], s)"
| "kv_calls g p d (c # cs) s =
     (case kv_call g p d c s of (r, s1) \<Rightarrow> (case kv_calls g p d cs s1 of (rs, s2) \<Rightarrow> (r # rs, s2)))"

text \<open>
  The map as a state machine: the replies that a call may get, and the map after it. \<open>long\<close> tells the
  keys that are too long for the store.
\<close>

inductive kv_step :: "(bytes \<Rightarrow> bool) \<Rightarrow> (bytes \<rightharpoonup> bytes) \<Rightarrow> kv_op \<Rightarrow> kv_reply \<Rightarrow> (bytes \<rightharpoonup> bytes) \<Rightarrow> bool" where
  put_done: "\<not> long k \<Longrightarrow> kv_step long m (Put k v) Done (m(key_str k \<mapsto> v))"
| put_too_long: "long k \<Longrightarrow> kv_step long m (Put k v) (Failed KeyTooLong) m"
| put_full: "\<not> long k \<Longrightarrow> kv_step long m (Put k v) (Failed StorageFull) m"
| get_found: "m (key_str k) = Some v \<Longrightarrow> kv_step long m (Get k) (Found v) m"
| get_missing: "m (key_str k) = None \<Longrightarrow> kv_step long m (Get k) (Failed KeyNotFound) m"
| delete_done: "m (key_str k) = Some v \<Longrightarrow> kv_step long m (Delete k) Done (m(key_str k := None))"
| delete_missing: "m (key_str k) = None \<Longrightarrow> kv_step long m (Delete k) (Failed KeyNotFound) m"

fun kv_trace :: "(bytes \<Rightarrow> bool) \<Rightarrow> (bytes \<rightharpoonup> bytes) \<Rightarrow> kv_op list \<Rightarrow> kv_reply list \<Rightarrow> (bytes \<rightharpoonup> bytes) \<Rightarrow> bool" where
  "kv_trace long m [] rs m' \<longleftrightarrow> rs = [] \<and> m' = m"
| "kv_trace long m (c # cs) rs m' \<longleftrightarrow> (\<exists>r rs' m1. rs = r # rs' \<and> kv_step long m c r m1 \<and> kv_trace long m1 cs rs' m')"

inductive_simps kv_step_Put: "kv_step long m (Put k v) r m'"
inductive_simps kv_step_Get: "kv_step long m (Get k) r m'"
inductive_simps kv_step_Delete: "kv_step long m (Delete k) r m'"

lemma kv_step_no_panic: "\<not> kv_step long m c Panicked m'"
  by (cases c) (simp_all add: kv_step_Put kv_step_Get kv_step_Delete)

lemma kv_trace_no_panic: "kv_trace long m cs rs m' \<Longrightarrow> length rs = length cs \<and> Panicked \<notin> set rs"
  by (induction cs arbitrary: m rs) (auto simp: kv_step_no_panic)

text \<open>A call that does not touch a key leaves it alone.\<close>

fun op_key :: "kv_op \<Rightarrow> bytes" where
  "op_key (Put k v) = k"
| "op_key (Get k) = k"
| "op_key (Delete k) = k"

section \<open>The contract\<close>

text \<open>
  \<open>holds n m s\<close>: the store \<open>s\<close> holds the map \<open>m\<close>, and no record has a generation above \<open>n\<close>. A put uses
  up one generation; the contract ends where the 32-bit counter does.
\<close>

locale kv_contract =
  fixes holds :: "nat \<Rightarrow> (bytes \<rightharpoonup> bytes) \<Rightarrow> 's \<Rightarrow> bool"
    and legal :: "bytes \<Rightarrow> bytes \<Rightarrow> bool"
    and long :: "bytes \<Rightarrow> bool"
    and getf :: "bytes \<Rightarrow> ('s, bytes) io"
    and putf :: "bytes \<Rightarrow> bytes \<Rightarrow> ('s, unit) io"
    and delf :: "bytes \<Rightarrow> ('s, unit) io"
  assumes get_law: "triple (holds n m) (getf k)
      (\<lambda>v s. m (key_str k) = Some v \<and> holds n m s)
      (\<lambda>e s. e = KeyNotFound \<and> m (key_str k) = None \<and> holds n m s)"
    and put_law: "legal k v \<Longrightarrow> n + 1 < 2 ^ 32 \<Longrightarrow> triple (holds n m) (putf k v)
      (\<lambda>_ s. \<not> long k \<and> holds (n + 1) (m(key_str k \<mapsto> v)) s)
      (\<lambda>e s. (e = KeyTooLong \<and> long k \<or> e = StorageFull \<and> \<not> long k) \<and> holds n m s)"
    and delete_law: "triple (holds n m) (delf k)
      (\<lambda>_ s. m (key_str k) \<noteq> None \<and> holds n (m(key_str k := None)) s)
      (\<lambda>e s. e = KeyNotFound \<and> m (key_str k) = None \<and> holds n m s)"
    and holds_mono: "holds n m s \<Longrightarrow> n \<le> n' \<Longrightarrow> holds n' m s"
begin

lemma holds_Suc: "holds n m s \<Longrightarrow> holds (Suc n) m s"
  by (erule holds_mono) simp

lemma call_refines:
  assumes "holds n m s" and "\<And>k v. c = Put k v \<Longrightarrow> legal k v" and n: "n + 1 < 2 ^ 32"
  shows "\<exists>r s' m'. kv_call getf putf delf c s = (r, s') \<and> kv_step long m c r m' \<and> holds (n + 1) m' s'"
proof (cases c)
  case (Put k v)
  from put_law [OF assms(2) [OF Put] n] assms(1) show ?thesis
    by (cases rule: triple_cases) (use Put in \<open>auto simp: kv_step_Put intro: holds_Suc\<close>)
next
  case (Get k)
  from get_law [of n m k] assms(1) show ?thesis
    by (cases rule: triple_cases) (use Get in \<open>auto simp: kv_step_Get intro: holds_Suc\<close>)
next
  case (Delete k)
  from delete_law [of n m k] assms(1) show ?thesis
    by (cases rule: triple_cases) (use Delete in \<open>auto simp: kv_step_Delete intro: holds_Suc\<close>)
qed

lemma calls_refine:
  assumes "holds n m s" and "\<And>k v. Put k v \<in> set cs \<Longrightarrow> legal k v" and "n + length cs < 2 ^ 32"
  shows "\<exists>rs s' m'. kv_calls getf putf delf cs s = (rs, s') \<and> kv_trace long m cs rs m' \<and> holds (n + length cs) m' s'"
  using assms
proof (induction cs arbitrary: n m s)
  case (Cons c cs)
  have "\<exists>r s' m'. kv_call getf putf delf c s = (r, s') \<and> kv_step long m c r m' \<and> holds (n + 1) m' s'"
    by (rule call_refines [OF Cons.prems(1)]) (use Cons.prems(2,3) in auto)
  then obtain r s1 m1 where 1: "kv_call getf putf delf c s = (r, s1)" "kv_step long m c r m1" "holds (n + 1) m1 s1"
    by blast
  with Cons.IH [of "n + 1" m1 s1] Cons.prems(2,3) obtain rs s2 m2 where
    "kv_calls getf putf delf cs s1 = (rs, s2)" "kv_trace long m1 cs rs m2" "holds (n + 1 + length cs) m2 s2"
    by auto
  with 1 show ?case by auto
qed simp

end

section \<open>The store on reliable devices\<close>

locale reliable_device = device_contract +
  assumes no_fault: "\<not> fault e"

text \<open>The media of a store that holds \<open>m\<close>: formatted, without garbage, and in lockstep.\<close>

definition kv_media :: "u32 \<Rightarrow> u32 \<Rightarrow> options \<Rightarrow> nat \<Rightarrow> (bytes \<rightharpoonup> bytes) \<Rightarrow> bytes list list \<Rightarrow> bool" where
  "kv_media bs bc op n m Bs \<longleftrightarrow>
     36 \<le> unat bs \<and> 0 < bc \<and> free_byte (op_free_pattern op) \<and> lockstep Bs \<and>
     (\<forall>B \<in> set Bs. length B = unat bc \<and> header_error bs bc (B ! 0) = None \<and> tidy bs bc B \<and>
       gen_bound bs bc n B) \<and>
     contents bs bc (hd Bs) = m"

definition store_holds ::
    "(u32 \<Rightarrow> u32 \<Rightarrow> bytes list \<Rightarrow> 'd \<Rightarrow> bool) \<Rightarrow> u32 \<Rightarrow> nat \<Rightarrow> (bytes \<rightharpoonup> bytes) \<Rightarrow> 'd store \<Rightarrow> bool" where
  "store_holds dev bs n m s \<longleftrightarrow>
     (\<exists>bc op Bs. kv_media bs bc op n m Bs \<and> store_ok (dev bs bc) bs bc op Bs s)"

text \<open>
  The keys that do not fit, and the keys and values within the widths of the format: 16 bits for the
  length of a key, 32 bits for the length of a value.
\<close>

definition key_too_long :: "u32 \<Rightarrow> bytes \<Rightarrow> bool" where
  "key_too_long bs k \<longleftrightarrow> unat bs < 36 + length k"

definition legal_put :: "u32 \<Rightarrow> bytes \<Rightarrow> bytes \<Rightarrow> bool" where
  "legal_put bs k v \<longleftrightarrow>
     length k < 2 ^ 32 \<and> length v < 2 ^ 32 \<and> (key_too_long bs k \<or> length k < 2 ^ 16)"

lemma store_holds_triple:
  assumes "\<And>bc op Bs. kv_media bs bc op n m Bs \<Longrightarrow> triple (store_ok (dev bs bc) bs bc op Bs) p Q E"
  shows "triple (store_holds dev bs n m) p Q E"
  unfolding triple_def
proof (intro allI impI)
  fix s
  assume "store_holds dev bs n m s"
  then obtain bc op Bs where "kv_media bs bc op n m Bs" "store_ok (dev bs bc) bs bc op Bs s"
    by (auto simp: store_holds_def)
  with assms show "case p s of (Ok x, s') \<Rightarrow> Q x s' | (Err e, s') \<Rightarrow> E e s' | (Panic, s') \<Rightarrow> False"
    by (auto simp: triple_def)
qed

lemma kv_media_put:
  fixes uflags key val
  assumes kv: "kv_media bs bc op n m Bs" and fit: "fits_format (unat bs) key val"
    and room: "\<forall>B \<in> set Bs. has_room bs bc B key val" and n: "n + 1 < 2 ^ 32"
  defines "g \<equiv> top_generation bs bc Bs (key_str key) + 1"
    and "free \<equiv> make_free_buf bs (op_free_pattern op)"
  shows "kv_media bs bc op (n + 1) (m(key_str key \<mapsto> val))
    (map (\<lambda>B. put_medium bs bc B free key g val uflags) Bs)"
proof -
  let ?f = "\<lambda>B. put_medium bs bc B free key g val uflags"
  from kv have Bs: "lockstep Bs" and each: "\<And>B. B \<in> set Bs \<Longrightarrow>
      length B = unat bc \<and> header_error bs bc (B ! 0) = None \<and> tidy bs bc B \<and> gen_bound bs bc n B"
    and geo: "36 \<le> unat bs" "free_byte (op_free_pattern op)" "contents bs bc (hd Bs) = m" "0 < bc"
    by (auto simp: kv_media_def)
  have top: "unat (top_generation bs bc Bs (key_str key)) \<le> n" using each by (intro top_generation_le) blast
  then have g: "unat g = unat (top_generation bs bc Bs (key_str key)) + 1"
    unfolding g_def using n by (subst unat_u32_add) simp_all
  have newer: "cr_generation r < g" if "B \<in> set Bs" "latest bs bc B (key_str key) = Some r" for B r
    using top_generation_bound [OF that] g by (simp add: word_le_nat_alt word_less_nat_alt)
  have "\<not> live_block free"
    using free_byte_block [OF geo(2), of bs] geo(1) free_not_live by (simp add: free_def)
  then have eff: "latest bs bc (?f B) = (latest bs bc B)(key_str key \<mapsto> put_record bs bc B key g val uflags)"
      "tidy bs bc (?f B)" "length (?f B) = unat bc" "?f B ! 0 = B ! 0" if "B \<in> set Bs" for B
    using put_medium_block0 [of bs bc B key val free g uflags] header_not_live [of bs bc "B ! 0"]
      put_medium_effect [of B bc bs key val g free uflags] fit newer [OF that] each [OF that] room that by auto
  have hd: "hd Bs \<in> set Bs" using Bs by (simp add: lockstep_def)
  have con: "contents bs bc (?f (hd Bs)) = m(key_str key \<mapsto> val)"
    using contents_put [OF eff(1) [OF hd]] geo(3) by simp
  have bound: "gen_bound bs bc (n + 1) (?f B)" if "B \<in> set Bs" for B
    using eff(1) [OF that] each [OF that] g top by (auto simp: gen_bound_def intro: le_SucI)
  have "lockstep (map ?f Bs)"
    using Bs each [OF hd] room hd
    by (intro lockstep_map put_medium_same_data) (auto simp: lockstep_def)
  moreover have "hd (map ?f Bs) = ?f (hd Bs)" using Bs by (simp add: lockstep_def hd_map)
  ultimately show ?thesis
    using geo con bound eff each by (auto simp: kv_media_def)
qed

lemma kv_media_delete:
  fixes ks
  assumes kv: "kv_media bs bc op n m Bs"
  defines "free \<equiv> make_free_buf bs (op_free_pattern op)"
  shows "kv_media bs bc op n (m(ks := None)) (map (\<lambda>B. delete_medium bs bc B free ks) Bs)"
proof -
  let ?f = "\<lambda>B. delete_medium bs bc B free ks"
  from kv have Bs: "lockstep Bs" and each: "\<And>B. B \<in> set Bs \<Longrightarrow>
      length B = unat bc \<and> header_error bs bc (B ! 0) = None \<and> tidy bs bc B \<and> gen_bound bs bc n B"
    and geo: "36 \<le> unat bs" "free_byte (op_free_pattern op)" "contents bs bc (hd Bs) = m" "0 < bc"
    by (auto simp: kv_media_def)
  have "\<not> live_block free"
    using free_byte_block [OF geo(2), of bs] geo(1) free_not_live by (simp add: free_def)
  then have eff: "latest bs bc (?f B) = (latest bs bc B)(ks := None)" "tidy bs bc (?f B)"
      "length (?f B) = unat bc" "?f B ! 0 = B ! 0" if "B \<in> set Bs" for B
    using delete_medium_block0 [of B bs bc free ks] header_not_live [of bs bc "B ! 0"]
      delete_medium_effect [of bs bc B free ks] each [OF that] by auto
  have hd: "hd Bs \<in> set Bs" using Bs by (simp add: lockstep_def)
  have con: "contents bs bc (?f (hd Bs)) = m(ks := None)"
    using contents_delete [OF eff(1) [OF hd]] geo(3) by simp
  have bound: "gen_bound bs bc n (?f B)" if "B \<in> set Bs" for B
    using eff(1) [OF that] each [OF that] by (auto simp: gen_bound_def)
  have "lockstep (map ?f Bs)"
    using Bs by (intro lockstep_map delete_medium_same_data) (auto simp: lockstep_def)
  moreover have "hd (map ?f Bs) = ?f (hd Bs)" using Bs by (simp add: lockstep_def hd_map)
  ultimately show ?thesis
    using geo con bound eff each by (auto simp: kv_media_def)
qed

lemma put_stopped_lockstep:
  assumes kv: "kv_media bs bc op n m Bs" and "\<And>e. \<not> fault e"
    and "put_stopped dev fault torn bs bc free key g val uflags e Bs rs"
  shows "e = StorageFull \<and> \<not> has_room bs bc (hd Bs) key val \<and> list_all2 (rep_ok dev bs bc) Bs rs"
proof -
  have room: "has_room bs bc B key val \<longleftrightarrow> has_room bs bc B' key val" if "B \<in> set Bs" "B' \<in> set Bs" for B B'
    using that kv put_same_data(1) [of "hd Bs" B bc] put_same_data(1) [of "hd Bs" B' bc]
    by (auto simp: kv_media_def lockstep_def)
  have "stopped_at (\<lambda>B r. has_room bs bc B key val \<and> rep_ok dev bs bc (put_medium bs bc B free key g val uflags) r)
      (\<lambda>B r. e = StorageFull \<and> \<not> has_room bs bc B key val \<and> rep_ok dev bs bc B r)
      (rep_ok dev bs bc) Bs rs"
    using assms(2,3) unfolding put_stopped_def by simp
  from stopped_at_first [OF this] room obtain r rs' where "rs = r # rs'" "e = StorageFull" "\<not> has_room bs bc (hd Bs) key val"
    "rep_ok dev bs bc (hd Bs) r" "list_all2 (rep_ok dev bs bc) (tl Bs) rs'" by blast
  moreover have "Bs \<noteq> []" using kv by (simp add: kv_media_def lockstep_def)
  ultimately show ?thesis by (cases Bs) auto
qed

context reliable_device
begin

lemma kv_get:
  "triple (store_holds dev_at bs n m) (store_get oc D k)
    (\<lambda>v s. m (key_str k) = Some v \<and> store_holds dev_at bs n m s)
    (\<lambda>e s. e = KeyNotFound \<and> m (key_str k) = None \<and> store_holds dev_at bs n m s)"
proof (rule store_holds_triple)
  fix bc op Bs
  assume kv: "kv_media bs bc op n m Bs"
  then have bs: "36 \<le> unat bs" and m: "m = contents bs bc (hd Bs)" and Bs: "Bs \<noteq> []"
    by (auto simp: kv_media_def lockstep_def)
  let ?r0 = "latest bs bc (hd Bs) (key_str k)"
  have same: "latest bs bc B (key_str k) = ?r0" if "B \<in> set Bs" for B
    using kv that latest_same_data [of "hd Bs" B bs bc] by (auto simp: kv_media_def lockstep_def)
  have seen: "\<forall>x \<in> set xs. x = ?r0" "xs \<noteq> []"
    if "list_all2 (\<lambda>B x. x = latest bs bc B (key_str k) \<or> x = None \<and> (\<exists>e. fault e)) Bs xs" for xs
    using that same no_fault Bs
    by (auto simp: list_all2_conv_all_nth in_set_conv_nth simp del: ex_simps) (metis nth_mem)
  have hit: "?r0 = Some r"
    if "list_all2 (\<lambda>B x. x = latest bs bc B (key_str k) \<or> x = None \<and> (\<exists>e. fault e)) Bs xs"
      "newest cr_generation None (List.map_filter id xs) = Some r" for xs r
    using newest_max [OF that(2)] seen(1) [OF that(1)] by (auto simp: List.map_filter_def)
  have miss: "?r0 = None"
    if "list_all2 (\<lambda>B x. x = latest bs bc B (key_str k) \<or> x = None \<and> (\<exists>e. fault e)) Bs xs"
      "List.map_filter id xs = []" for xs
    using that(2) seen [OF that(1)] by (cases xs) (auto simp: List.map_filter_simps split: option.splits)
  show "triple (store_ok (dev_at bs bc) bs bc op Bs) (store_get oc D k)
    (\<lambda>v s. m (key_str k) = Some v \<and> store_holds dev_at bs n m s)
    (\<lambda>e s. e = KeyNotFound \<and> m (key_str k) = None \<and> store_holds dev_at bs n m s)"
    by (rule triple_conseq [OF store_get_spec [OF bs]])
      (use kv in \<open>auto simp: store_holds_def m contents_def dest: hit miss\<close>)
qed

lemma kv_put:
  assumes legal: "legal_put bs k v" and n: "n + 1 < 2 ^ 32"
  shows "triple (store_holds dev_at bs n m) (store_put oc D k v)
    (\<lambda>_ s. \<not> key_too_long bs k \<and> store_holds dev_at bs (n + 1) (m(key_str k \<mapsto> v)) s)
    (\<lambda>e s. (e = KeyTooLong \<and> key_too_long bs k \<or> e = StorageFull \<and> \<not> key_too_long bs k) \<and> store_holds dev_at bs n m s)"
proof (rule store_holds_triple)
  fix bc op Bs
  assume kv: "kv_media bs bc op n m Bs"
  then have geo: "36 \<le> unat bs" "Bs \<noteq> []" "free_byte (op_free_pattern op)"
    and gens: "\<And>B. B \<in> set Bs \<Longrightarrow> gen_bound bs bc n B"
    by (auto simp: kv_media_def lockstep_def)
  have sizes: "length k < 2 ^ 32" "length v < 2 ^ 32" "36 + length k \<le> unat bs \<Longrightarrow> length k < 2 ^ 16"
    using legal by (auto simp: legal_put_def key_too_long_def)
  have gen: "unat (top_generation bs bc Bs (key_str k)) + 1 < 2 ^ 32"
    using top_generation_le [OF gens, of Bs "key_str k"] n by simp
  note put = store_put_flagged_spec [OF geo(1) sizes(1,3,2) geo(2) gen geo(3), where oc = oc and uflags = 0]
  show "triple (store_ok (dev_at bs bc) bs bc op Bs) (store_put oc D k v)
    (\<lambda>_ s. \<not> key_too_long bs k \<and> store_holds dev_at bs (n + 1) (m(key_str k \<mapsto> v)) s)
    (\<lambda>e s. (e = KeyTooLong \<and> key_too_long bs k \<or> e = StorageFull \<and> \<not> key_too_long bs k) \<and> store_holds dev_at bs n m s)"
    unfolding store_put_def
  proof (rule triple_conseq [OF put], goal_cases)
    case (3 x s)
    then have "fits_format (unat bs) k v" using sizes by (simp add: fits_format_def)
    from kv_media_put [OF kv this _ n] 3 show ?case
      unfolding store_holds_def key_too_long_def by (meson not_less)
  next
    case (4 e s)
    have "store_ok (dev_at bs bc) bs bc op Bs s \<and>
        (e = KeyTooLong \<and> key_too_long bs k \<or> e = StorageFull \<and> \<not> key_too_long bs k)"
      using 4 by (auto simp: store_ok_def key_too_long_def dest!: put_stopped_lockstep [where fault = fault, OF kv no_fault])
    with kv show ?case unfolding store_holds_def by blast
  qed auto
qed

lemma kv_delete:
  "triple (store_holds dev_at bs n m) (store_delete oc D k)
    (\<lambda>_ s. m (key_str k) \<noteq> None \<and> store_holds dev_at bs n (m(key_str k := None)) s)
    (\<lambda>e s. e = KeyNotFound \<and> m (key_str k) = None \<and> store_holds dev_at bs n m s)"
proof (rule store_holds_triple)
  fix bc op Bs
  assume kv: "kv_media bs bc op n m Bs"
  then have geo: "36 \<le> unat bs" "free_byte (op_free_pattern op)" "hd Bs \<in> set Bs"
    and m: "m = contents bs bc (hd Bs)" and tidy: "\<And>B. B \<in> set Bs \<Longrightarrow> tidy bs bc B"
    by (auto simp: kv_media_def lockstep_def)
  have same: "latest bs bc B (key_str k) = latest bs bc (hd Bs) (key_str k)" if "B \<in> set Bs" for B
    using kv that latest_same_data [of "hd Bs" B bs bc] by (auto simp: kv_media_def lockstep_def)
  show "triple (store_ok (dev_at bs bc) bs bc op Bs) (store_delete oc D k)
    (\<lambda>_ s. m (key_str k) \<noteq> None \<and> store_holds dev_at bs n (m(key_str k := None)) s)
    (\<lambda>e s. e = KeyNotFound \<and> m (key_str k) = None \<and> store_holds dev_at bs n m s)"
  proof (rule triple_conseq [OF store_delete_spec [OF geo(1,2) tidy, where key = k and oc = oc and Bs = Bs]], goal_cases)
    case (3 x s)
    then have "store_holds dev_at bs n (m(key_str k := None)) s"
      using kv_media_delete [OF kv, of "key_str k"] unfolding store_holds_def by blast
    moreover have "m (key_str k) \<noteq> None" using conjunct1 [OF 3] same unfolding m contents_def by force
    ultimately show ?case by blast
  next
    case (4 e s)
    then have e: "e = KeyNotFound" "latest bs bc (hd Bs) (key_str k) = None" "store_ok (dev_at bs bc) bs bc op Bs s"
      using no_fault geo(3) by auto
    then have "m (key_str k) = None" by (simp add: m contents_def)
    with kv e(1,3) show ?case unfolding store_holds_def by blast
  qed auto
qed

end

lemma store_holds_mono:
  assumes "store_holds dev bs n m s" and "n \<le> n'"
  shows "store_holds dev bs n' m s"
proof -
  have "kv_media bs bc op n' m Bs" if "kv_media bs bc op n m Bs" for bc op Bs
    using that assms(2) by (fastforce simp: kv_media_def gen_bound_def intro: order_trans)
  with assms(1) show ?thesis unfolding store_holds_def by blast
qed

sublocale reliable_device \<subseteq> kv: kv_contract "store_holds dev_at bs" "legal_put bs" "key_too_long bs"
    "store_get oc D" "store_put oc D" "store_delete oc D" for bs oc
  by unfold_locales (rule kv_get, erule (1) kv_put, rule kv_delete, erule (1) store_holds_mono)

interpretation rmem: reliable_device mem_dev mem_at "\<lambda>_. False" "\<lambda>_ _ _. False"
  by unfold_locales simp

end
