(* ===== verification/Ekv_Session.thy ===== *)
theory Ekv_Session
  imports Ekv_Kv
begin

text \<open>
  Sessions: from formatted devices to a store that holds a map, and from one session to the next. A
  freshly formatted store holds the empty map; the devices of a store, reopened and indexed, hold the
  same map again, with or without a recovery in between.
\<close>

section \<open>Media without records\<close>

lemma latest_no_records:
  assumes "\<And>i. 0 < i \<Longrightarrow> i < bc \<Longrightarrow> \<not> live_block (B ! unat i)"
  shows "latest bs bc B = Map.empty" and "tidy bs bc B"
proof -
  have no: "\<not> complete (unat bs) B i r" if "0 < i" "i < bc" for i r
    using complete_live [of "unat bs" B i r i] assms [OF that] complete_descriptor_block [of "unat bs" B i r]
    by (auto simp: footprint_def)
  show "latest bs bc B = Map.empty" using no by (auto simp: fun_eq_iff latest_None)
  show "tidy bs bc B" using no by (simp add: tidy_def)
qed

section \<open>Recovery\<close>

lemma recover_medium_effect:
  assumes "length B = unat bc" and "free_block free"
  shows "latest bs bc (recover_medium bs bc B free) = latest bs bc B"
    and "tidy bs bc (recover_medium bs bc B free)"
    and "length (recover_medium bs bc B free) = length B"
    and "\<And>i. 0 < i \<Longrightarrow> i < bc \<Longrightarrow>
      free_block (recover_medium bs bc B free ! unat i) \<longleftrightarrow> i \<notin> kept_blocks bs bc B"
    and "recover_medium bs bc B free ! 0 = B ! 0"
proof -
  let ?ws = "recover_writes bs bc B free"
  let ?B = "recover_medium bs bc B free"
  have dead: "\<not> live_block free" using assms(2) by (rule free_not_live)
  have "distinct (map fst ?ws)"
    by (simp add: recover_writes_def garbage_writes_def comp_def distinct_data_blocks)
  then have part: "partial_write (\<lambda>_ _ _. False) B ?ws ?B"
    unfolding recover_medium_def by (rule partial_write_all)
  note keep = recover_keeps_latest [OF part [unfolded recover_writes_def] dead]
  show "latest bs bc ?B = latest bs bc B" by (rule ext) (simp add: keep erase_tears_def)
  note tidy = recover_tidy [where bs = bs, OF assms]
  show "tidy bs bc ?B" using tidy(1) by (simp add: recover_medium_def recover_writes_def)
  show "length ?B = length B" by (simp add: recover_medium_def)
  show "free_block (?B ! unat i) \<longleftrightarrow> i \<notin> kept_blocks bs bc B" if i: "0 < i" "i < bc" for i
  proof
    assume free: "free_block (?B ! unat i)"
    show "i \<notin> kept_blocks bs bc B"
    proof
      assume "i \<in> kept_blocks bs bc B"
      with i obtain k r where r: "latest bs bc B k = Some r" "i \<in> footprint r"
        by (auto simp: kept_blocks_def ran_def)
      have "complete (unat bs) ?B (cr_descriptor_block r) r"
        using keep(2) [OF _ r(1)] by (simp add: erase_tears_def)
      from complete_live [OF this r(2)] free free_not_live show False by blast
    qed
  next
    assume "i \<notin> kept_blocks bs bc B"
    with tidy(2) [OF i] show "free_block (?B ! unat i)"
      by (simp add: recover_medium_def recover_writes_def)
  qed
  have "0 \<notin> fst ` set ?ws"
    by (auto simp: recover_writes_def garbage_writes_def kept_blocks_def)
  then show "?B ! 0 = B ! 0" unfolding recover_medium_def by (rule apply_writes_block0)
qed

lemma recover_medium_same_data:
  assumes "same_data B B'" and "length B = unat bc"
  shows "same_data (recover_medium bs bc B free) (recover_medium bs bc B' free)"
proof -
  have "filter (\<lambda>i. i \<notin> V \<and> \<not> free_block (B' ! unat i)) (data_blocks bc) =
      filter (\<lambda>i. i \<notin> V \<and> \<not> free_block (B ! unat i)) (data_blocks bc)" for V
    by (rule filter_cong) (use same_data_nth [OF assms(1) _ _ assms(2)] in \<open>auto simp: set_data_blocks\<close>)
  then have "recover_writes bs bc B' free = recover_writes bs bc B free"
    unfolding recover_writes_def garbage_writes_def
    using latest_same_data [OF assms(1), of bs bc] by (simp only: kept_blocks_def)
  moreover have "0 \<notin> fst ` set (recover_writes bs bc B free)"
    by (auto simp: recover_writes_def garbage_writes_def kept_blocks_def)
  ultimately show ?thesis
    unfolding recover_medium_def using assms(1) by (simp add: same_data_apply_writes)
qed

text \<open>A second recovery finds nothing to do.\<close>

lemma recover_idle:
  assumes "length B = unat bc" and "free_block free"
  shows "recover_writes bs bc (recover_medium bs bc B free) free = []"
proof -
  note eff = recover_medium_effect [OF assms]
  have "kept_blocks bs bc (recover_medium bs bc B free) = kept_blocks bs bc B"
    by (simp add: kept_blocks_def eff(1))
  with eff(4) show ?thesis
    by (auto simp: recover_writes_def garbage_writes_def filter_empty_conv set_data_blocks)
qed

section \<open>Opening media that hold a map\<close>

definition kv_raw :: "u32 \<Rightarrow> u32 \<Rightarrow> options \<Rightarrow> nat \<Rightarrow> (bytes \<rightharpoonup> bytes) \<Rightarrow> bytes list list \<Rightarrow> bool" where
  "kv_raw bs bc op n m Bs \<longleftrightarrow>
     36 \<le> unat bs \<and> 0 < bc \<and> free_byte (op_free_pattern op) \<and> lockstep Bs \<and>
     (\<forall>B \<in> set Bs. length B = unat bc \<and> header_error bs bc (B ! 0) = None \<and> gen_bound bs bc n B) \<and>
     contents bs bc (hd Bs) = m"

lemma kv_media_raw: "kv_media bs bc op n m Bs \<longleftrightarrow> kv_raw bs bc op n m Bs \<and> (\<forall>B \<in> set Bs. tidy bs bc B)"
  by (auto simp: kv_media_def kv_raw_def)

lemma kv_raw_options:
  "kv_raw bs bc op n m Bs \<Longrightarrow> free_byte (op_free_pattern op') \<Longrightarrow> kv_raw bs bc op' n m Bs"
  by (simp add: kv_raw_def)

lemma kv_raw_recover:
  assumes "kv_raw bs bc op n m Bs"
  shows "kv_media bs bc op n m (map (\<lambda>B. recover_medium bs bc B (make_free_buf bs (op_free_pattern op))) Bs)"
proof -
  let ?f = "\<lambda>B. recover_medium bs bc B (make_free_buf bs (op_free_pattern op))"
  from assms have Bs: "lockstep Bs" "Bs \<noteq> []" "hd Bs \<in> set Bs" and geo: "36 \<le> unat bs" "free_byte (op_free_pattern op)"
    and each: "\<And>B. B \<in> set Bs \<Longrightarrow> length B = unat bc \<and> header_error bs bc (B ! 0) = None \<and> gen_bound bs bc n B"
    and m: "contents bs bc (hd Bs) = m"
    by (auto simp: kv_raw_def lockstep_def)
  have "free_block (make_free_buf bs (op_free_pattern op))" using geo by (intro free_byte_block) simp_all
  note eff = recover_medium_effect [OF _ this]
  have "lockstep (map ?f Bs)"
    using Bs each by (intro lockstep_map recover_medium_same_data) (auto simp: lockstep_def)
  moreover have "hd (map ?f Bs) = ?f (hd Bs)" using Bs(2) by (simp add: hd_map)
  ultimately show ?thesis
    using assms eff each m Bs(3) by (auto simp: kv_media_def kv_raw_def gen_bound_def contents_def)
qed

lemma into_devices_media:
  "store_ok (dev bs bc) bs bc op Bs s \<Longrightarrow> list_all2 (dev bs bc) Bs (into_devices s)"
  by (auto simp: store_ok_def into_devices_def list_all2_map2 rep_ok_def rep_at_def elim!: list_all2_mono)

lemma open_error_valid:
  assumes "32 \<le> unat bs" and "\<forall>B \<in> set Bs. header_error bs bc (B ! 0) = None" and "g = None \<or> g = Some (bs, bc)"
  shows "open_error g (map (\<lambda>B. (bs, bc, B)) Bs) = None"
  using assms by (induction Bs arbitrary: g) auto

context reliable_device
begin

text \<open>Opening needs valid headers only; the replicas need not agree.\<close>

lemma open_headers:
  assumes geo: "32 \<le> unat bs" "0 < bc" and Bs: "Bs \<noteq> []" "\<forall>B \<in> set Bs. header_error bs bc (B ! 0) = None"
    and devs: "list_all2 (dev_at bs bc) Bs devs"
  shows "\<exists>s. open_store oc D devs op = Ok s \<and> store_media (dev_at bs bc) op Bs s"
proof -
  let ?ms = "map (\<lambda>B. (bs, bc, B)) Bs"
  have ms: "list_all2 (medium_at dev_at) ?ms devs" using devs by (simp add: list_all2_map1 medium_at_def)
  have ok: "open_error None ?ms = None" using geo(1) Bs(2) by (rule open_error_valid) simp
  have "case open_store oc D devs op of
      Ok s \<Rightarrow> open_error None ?ms = None \<and> list_all2 (opened_at dev_at) ?ms (st_replicas s) \<and> st_opts s = op
    | Err e \<Rightarrow> fault e \<or> open_error None ?ms = Some e
    | Panic \<Rightarrow> False"
    by (rule open_store_spec [OF ms]) (use geo Bs(1) in auto)
  with ok no_fault show ?thesis
    by (cases "open_store oc D devs op")
      (auto simp: store_media_def list_all2_map1 opened_at_def rep_at_def elim!: list_all2_mono)
qed

lemma open_media:
  assumes raw: "kv_raw bs bc op n m Bs" and devs: "list_all2 (dev_at bs bc) Bs devs"
  shows "\<exists>s. open_store oc D devs op = Ok s \<and> store_media (dev_at bs bc) op Bs s"
  by (rule open_headers [OF _ _ _ _ devs]) (use raw in \<open>auto simp: kv_raw_def lockstep_def\<close>)

lemma open_build:
  assumes "kv_media bs bc op n m Bs" and devs: "list_all2 (dev_at bs bc) Bs devs"
  shows "\<exists>s s'. open_store oc D devs op = Ok s \<and> store_build_index oc D s = (Ok (), s') \<and>
    store_holds dev_at bs n m s'"
proof -
  from assms open_media obtain s where s: "open_store oc D devs op = Ok s" "store_media (dev_at bs bc) op Bs s"
    unfolding kv_media_raw by blast
  have "36 \<le> unat bs" using assms(1) by (simp add: kv_media_def)
  from store_build_index_spec [OF this, where oc = oc] s(2) show ?thesis
    by (cases rule: triple_cases) (use s(1) assms(1) no_fault in \<open>auto simp: store_holds_def\<close>)
qed

lemma open_recover_build:
  assumes raw: "kv_raw bs bc op n m Bs" and devs: "list_all2 (dev_at bs bc) Bs devs"
  shows "\<exists>s s1 s2. open_store oc D devs op = Ok s \<and> store_recover oc D s = (Ok (), s1) \<and>
    store_build_index oc D s1 = (Ok (), s2) \<and> store_holds dev_at bs n m s2"
proof -
  from open_media [OF assms] obtain s where s: "open_store oc D devs op = Ok s" "store_media (dev_at bs bc) op Bs s"
    by blast
  have bs: "36 \<le> unat bs" using raw by (simp add: kv_raw_def)
  let ?Bs = "map (\<lambda>B. recover_medium bs bc B (make_free_buf bs (op_free_pattern op))) Bs"
  from store_recover_spec [OF bs, where oc = oc] s(2) obtain s1 where
    s1: "store_recover oc D s = (Ok (), s1)" "store_media (dev_at bs bc) op ?Bs s1"
    by (cases rule: triple_cases) (use no_fault in auto)
  from store_build_index_spec [OF bs, where oc = oc] s1(2) obtain s2 where
    s2: "store_build_index oc D s1 = (Ok (), s2)" "store_ok (dev_at bs bc) bs bc op ?Bs s2"
    by (cases rule: triple_cases) (use no_fault in auto)
  from kv_raw_recover [OF raw] s2(2) have "store_holds dev_at bs n m s2" unfolding store_holds_def by blast
  with s s1 s2 show ?thesis by blast
qed

lemma reopen:
  assumes "store_holds dev_at bs n m s" and op: "free_byte (op_free_pattern op)"
  shows "\<exists>s1 s2. open_store oc D (into_devices s) op = Ok s1 \<and> store_build_index oc D s1 = (Ok (), s2) \<and>
    store_holds dev_at bs n m s2"
proof -
  from assms(1) obtain bc op' Bs where kv: "kv_media bs bc op' n m Bs"
    and s: "store_ok (dev_at bs bc) bs bc op' Bs s" by (auto simp: store_holds_def)
  from kv op have "kv_media bs bc op n m Bs" by (auto simp: kv_media_raw intro: kv_raw_options)
  from open_build [OF this into_devices_media [where dev = dev_at, OF s]] show ?thesis .
qed


lemma format_media:
  assumes devs: "list_all2 (dev_at bs bc) Bs devs" and Bs: "Bs \<noteq> []" and geo: "32 \<le> unat bs" "0 < bc"
    and id: "unat (op_replica_id op) + length Bs \<le> 2 ^ 32"
  shows "\<exists>devs'. format_store oc D op devs = (Ok (), devs') \<and>
    list_all2 (dev_at bs bc)
      (map (\<lambda>(i, B). B[0 := header_block bs (header_for bs bc op i)]) (List.enumerate 0 Bs)) devs'"
proof -
  let ?ms = "map (\<lambda>B. (bs, bc, B)) Bs"
  have ms: "list_all2 (medium_at dev_at) ?ms devs" using devs by (simp add: list_all2_map1 medium_at_def)
  have en: "List.enumerate 0 ?ms = map (\<lambda>(i, B). (i, bs, bc, B)) (List.enumerate 0 Bs)"
    by (simp add: enumerate_map_upt list_eq_iff_nth_eq nth_enumerate_eq)
  have P: "?ms \<noteq> []" "\<forall>(b, c, B) \<in> set ?ms. 0 < c" "unat (op_replica_id op) + length ?ms \<le> 2 ^ 32"
    using Bs geo(2) id by auto
  show ?thesis
  proof (cases rule: triple_cases [OF format_store_spec [where oc = oc, OF P] ms])
    case (1 x devs')
    then show ?thesis
      by (auto simp: en formatted_def medium_at_def list_all2_map1 case_prod_beta)
  next
    case (2 e devs')
    then show ?thesis
      using no_fault geo(1) by (auto simp: stopped_at_def en, auto simp: map_eq_append_conv)
  qed
qed

lemma format_open_fresh:
  assumes devs: "list_all2 (dev_at bs bc) Bs devs" and Bs: "Bs \<noteq> []" and geo: "36 \<le> unat bs" "0 < bc"
    and id: "unat (op_replica_id op) + length Bs \<le> 2 ^ 32" and fp: "free_byte (op_free_pattern op')"
    and fresh: "\<And>B i. B \<in> set Bs \<Longrightarrow> 0 < i \<Longrightarrow> i < unat bc \<Longrightarrow> B ! i = hd Bs ! i \<and> \<not> live_block (B ! i)"
  shows "\<exists>devs' s s'. format_store oc D op devs = (Ok (), devs') \<and> open_store oc D devs' op' = Ok s \<and>
    store_build_index oc D s = (Ok (), s') \<and> store_holds dev_at bs 0 Map.empty s'"
proof -
  let ?hb = "\<lambda>i. header_block bs (header_for bs bc op i)"
  let ?Bs = "map (\<lambda>(i, B). B[0 := ?hb i]) (List.enumerate 0 Bs)"
  have "32 \<le> unat bs" using geo by simp
  from format_media [OF devs Bs this geo(2) id] obtain devs' where
    f: "format_store oc D op devs = (Ok (), devs')" "list_all2 (dev_at bs bc) ?Bs devs'" by blast
  have len: "length B = unat bc" if "B \<in> set Bs" for B
    using devs that dev_length by (auto simp: list_all2_conv_all_nth in_set_conv_nth)
  have mem: "\<exists>i B. C = B[0 := ?hb i] \<and> B \<in> set Bs" if "C \<in> set ?Bs" for C
    using that by (auto simp: in_set_enumerate_eq) (metis nth_mem)
  have dead: "\<not> live_block (?hb i)" and hdr: "header_error bs bc (?hb i) = None" for i
    using header_error_formatted [OF \<open>32 \<le> unat bs\<close>] header_not_live by blast+
  have pos: "0 < unat bc" using geo(2) by (simp add: word_less_nat_alt)
  have block: "length C = unat bc" "header_error bs bc (C ! 0) = None" "\<not> live_block (C ! 0)"
      "\<And>i. 0 < i \<Longrightarrow> i < unat bc \<Longrightarrow> C ! i = hd Bs ! i \<and> \<not> live_block (C ! i)" if C: "C \<in> set ?Bs" for C
    using mem [OF C] len dead hdr pos by (auto, (metis fresh)+)
  have "\<not> live_block (C ! unat i)" if "C \<in> set ?Bs" "0 < i" "i < bc" for C i
    using block(4) [OF that(1), of "unat i"] that(2,3) unfolding word_less_nat_alt by fastforce
  then have none: "latest bs bc C = Map.empty" "tidy bs bc C" if "C \<in> set ?Bs" for C
    using that by (blast intro: latest_no_records)+
  have "?Bs \<noteq> []" using Bs by (simp flip: length_greater_0_conv)
  then have hd: "hd ?Bs \<in> set ?Bs" by (rule hd_in_set)
  have "same_data (hd ?Bs) C" if "C \<in> set ?Bs" for C
    using block [OF that] block [OF hd] unfolding same_data_def by simp
  then have "kv_media bs bc op' 0 Map.empty ?Bs"
    unfolding kv_media_def lockstep_def
    using geo fp block none \<open>?Bs \<noteq> []\<close> none(1) [OF hd] by (auto simp: gen_bound_def contents_def)
  from open_build [OF this f(2)] f(1) show ?thesis by blast
qed

end

section \<open>Single calls\<close>

text \<open>
  What \<^verbatim>\<open>get\<close> and \<^verbatim>\<open>build_index\<close> return on media that need not be in lockstep: the value of the newest
  record for the key on any replica.
\<close>

context reliable_device
begin

lemma get_newest:
  assumes "36 \<le> unat bs" and "store_ok (dev_at bs bc) bs bc op Bs s"
  shows "\<exists>s'. store_get oc D key s =
      (case newest cr_generation None (List.map_filter (\<lambda>B. latest bs bc B (key_str key)) Bs) of
         None \<Rightarrow> Err KeyNotFound | Some r \<Rightarrow> Ok (cr_value r), s') \<and> store_ok (dev_at bs bc) bs bc op Bs s'"
proof -
  have seen: "xs = map (\<lambda>B. latest bs bc B (key_str key)) Bs"
    if "list_all2 (\<lambda>B x. x = latest bs bc B (key_str key) \<or> x = None \<and> (\<exists>e. fault e)) Bs xs" for xs
    using that no_fault by (simp add: list_all2_conv_all_nth list_eq_iff_nth_eq)
  have filter: "List.map_filter id (map f Bs) = List.map_filter f Bs" for f :: "bytes list \<Rightarrow> complete_record option"
    by (induction Bs) (simp_all add: List.map_filter_simps split: option.split)
  show ?thesis
  proof (cases rule: triple_cases [OF store_get_spec [OF assms(1), where oc = oc and key = key] assms(2)])
    case (1 v s')
    then obtain xs r where "list_all2 (\<lambda>B x. x = latest bs bc B (key_str key) \<or> x = None \<and> (\<exists>e. fault e)) Bs xs"
      "newest cr_generation None (List.map_filter id xs) = Some r" "v = cr_value r" by blast
    note xs = this
    have "newest cr_generation None (List.map_filter (\<lambda>B. latest bs bc B (key_str key)) Bs) = Some r"
      using xs(2) unfolding seen [OF xs(1)] filter .
    with 1 xs(3) show ?thesis by simp
  next
    case (2 e s')
    then obtain xs where "list_all2 (\<lambda>B x. x = latest bs bc B (key_str key) \<or> x = None \<and> (\<exists>e. fault e)) Bs xs"
      "List.map_filter id xs = []" by blast
    note xs = this
    have "List.map_filter (\<lambda>B. latest bs bc B (key_str key)) Bs = []"
      using xs(2) unfolding seen [OF xs(1)] filter .
    with 2 show ?thesis by simp
  qed
qed

lemma get_single:
  assumes "36 \<le> unat bs" and "store_ok (dev_at bs bc) bs bc op [B] s"
  shows "\<exists>s'. store_get oc D key s =
      (case latest bs bc B (key_str key) of None \<Rightarrow> Err KeyNotFound | Some r \<Rightarrow> Ok (cr_value r), s') \<and>
      store_ok (dev_at bs bc) bs bc op [B] s'"
  using get_newest [OF assms, of oc key]
  by (cases "latest bs bc B (key_str key)") (simp_all add: List.map_filter_simps)

lemma build_run:
  assumes "36 \<le> unat bs" and "store_media (dev_at bs bc) op Bs s"
  shows "\<exists>s'. store_build_index oc D s = (Ok (), s') \<and> store_ok (dev_at bs bc) bs bc op Bs s'"
  by (cases rule: triple_cases [OF store_build_index_spec [OF assms(1), where oc = oc] assms(2)])
    (use no_fault in auto)

end

section \<open>Fresh memory devices\<close>

lemma mem_at_new: "mem_at bs bc (replicate (unat bc) (replicate (unat bs) 0)) (mem_new bs bc)"
proof -
  have "concat (replicate n (replicate m x)) = replicate (m * n) x" for m n and x :: u8
    by (induction n) (simp_all add: replicate_add)
  then show ?thesis by (simp add: mem_at_def mem_new_def)
qed

end
