(* ===== verification/Ekv_Space.thy ===== *)
theory Ekv_Space
  imports Ekv_Session
begin

text \<open>
  Space: which blocks are free after a put and a delete, and that a put succeeds whenever enough of
  them are.
\<close>

section \<open>Free blocks\<close>

lemma set_free_list: "set (free_list bc B) = {i. 0 < i \<and> i < bc \<and> free_block (B ! unat i)}"
  by (auto simp: free_list_def set_data_blocks)

lemma distinct_free_list: "distinct (free_list bc B)"
  by (simp add: free_list_def distinct_data_blocks)

lemma filter_not_in_take:
  "distinct xs \<Longrightarrow> filter (\<lambda>x. x \<notin> set (take n xs)) xs = drop n xs"
proof (induction xs arbitrary: n)
  case (Cons x xs)
  show ?case
  proof (cases n)
    case (Suc k)
    have "filter (\<lambda>y. y \<notin> set (take k xs) \<and> y \<noteq> x) xs = filter (\<lambda>y. y \<notin> set (take k xs)) xs"
      by (rule filter_cong) (use Cons.prems in auto)
    with Suc Cons show ?thesis by (simp add: conj_commute)
  qed simp
qed simp

text \<open>A written record takes the first free blocks, and no others.\<close>

lemma free_list_put:
  assumes "length B = unat bc" and "fits_format (unat bs) key val" and "has_room bs bc B key val"
  shows "free_list bc (apply_writes (put_writes bs bc B key gen val uflags) B) =
    drop (1 + extra_blocks (unat bs) key val) (free_list bc B)"
proof -
  let ?B = "apply_writes (put_writes bs bc B key gen val uflags) B"
  let ?bl = "put_blocks bs bc B key val"
  have used: "\<not> free_block (?B ! unat i)" if "i \<in> set ?bl" for i
    using complete_live [OF put_complete [OF assms], of i] footprint_put_record [OF assms(3)] that free_not_live
    by blast
  have other: "?B ! unat i = B ! unat i" if "i \<notin> set ?bl" for i
    by (rule apply_writes_other) (use that in \<open>simp only: put_writes_blocks [OF assms(3)], auto\<close>)
  have "free_list bc ?B = filter (\<lambda>i. i \<notin> set ?bl) (free_list bc B)"
    unfolding free_list_def filter_filter by (rule filter_cong) (simp, metis used other)
  then show ?thesis
    unfolding put_blocks_def by (simp only: filter_not_in_take [OF distinct_free_list])
qed

text \<open>Erasing frees exactly the blocks of the record.\<close>

lemma free_block_erase:
  assumes "complete (unat bs) B db r0" and "free_block free" and "unat i < length B"
  shows "free_block (apply_writes (erase_writes free r0) B ! unat i) \<longleftrightarrow> free_block (B ! unat i) \<or> i \<in> footprint r0"
proof (cases "i \<in> footprint r0")
  case True
  then have "(i, free) \<in> set (erase_writes free r0)" by (auto simp: erase_writes_def footprint_def)
  then have "apply_writes (erase_writes free r0) B ! unat i = free"
    using apply_writes_nth [OF erase_writes_blocks(1) [OF assms(1)]] assms(3) by blast
  with True assms(2) show ?thesis by simp
next
  case False
  then have "i \<notin> fst ` set (erase_writes free r0)" using erase_writes_blocks(2) [OF assms(1)] by simp
  then have "apply_writes (erase_writes free r0) B ! unat i = B ! unat i"
    by (intro apply_writes_other) auto
  with False show ?thesis by simp
qed

lemma delete_medium_free:
  assumes "length B = unat bc" and "free_block free" and "latest bs bc B ks = Some r0" and "\<not> live_block (B ! 0)"
  shows "set (free_list bc (delete_medium bs bc B free ks)) = set (free_list bc B) \<union> footprint r0"
    and "set (free_list bc B) \<inter> footprint r0 = {}"
proof -
  note r0 = latest_Some [OF assms(3)]
  have in_range: "0 < i \<and> i < bc" if "i \<in> footprint r0" for i
  proof -
    have "unat i < unat bc" using complete_block_kind(1) [OF r0(1) that] assms(1) by simp
    moreover have "i \<noteq> 0" using footprint_nonzero [OF r0(1) assms(4)] that by blast
    ultimately show ?thesis by (simp add: word_less_nat_alt word_neq_0_conv)
  qed
  show "set (free_list bc (delete_medium bs bc B free ks)) = set (free_list bc B) \<union> footprint r0"
    using in_range free_block_erase [OF r0(1) assms(2)] assms(1,3)
    by (auto simp: set_free_list delete_medium_def old_erasure_def word_less_nat_alt)
  show "set (free_list bc B) \<inter> footprint r0 = {}"
    using complete_live [OF r0(1)] free_not_live by (auto simp: set_free_list)
qed

section \<open>A put succeeds when there is room\<close>

context reliable_device
begin

lemma put_succeeds:
  assumes kv: "kv_media bs bc op n m Bs" and s: "store_ok (dev_at bs bc) bs bc op Bs s"
    and legal: "legal_put bs k v" and n: "n + 1 < 2 ^ 32"
  shows "(\<exists>s'. store_put_flagged oc D k v uflags s = (Ok (), s')) \<longleftrightarrow>
    \<not> key_too_long bs k \<and> has_room bs bc (hd Bs) k v"
proof -
  have geo: "36 \<le> unat bs" "Bs \<noteq> []" "free_byte (op_free_pattern op)" "hd Bs \<in> set Bs"
    and gens: "\<And>B. B \<in> set Bs \<Longrightarrow> gen_bound bs bc n B"
    using kv by (auto simp: kv_media_def lockstep_def)
  have sizes: "length k < 2 ^ 32" "length v < 2 ^ 32" "36 + length k \<le> unat bs \<Longrightarrow> length k < 2 ^ 16"
    using legal by (auto simp: legal_put_def key_too_long_def)
  have gen: "unat (top_generation bs bc Bs (key_str k)) + 1 < 2 ^ 32"
    using top_generation_le [OF gens, of Bs "key_str k"] n by simp
  show ?thesis
  proof (cases rule: triple_cases [OF store_put_flagged_spec [OF geo(1) sizes(1,3,2) geo(2) gen geo(3), where oc = oc and uflags = uflags] s])
    case 2
    then show ?thesis using geo(4) by (auto simp: key_too_long_def)
  next
    case (3 e s')
    then show ?thesis
      by (auto simp: key_too_long_def dest!: put_stopped_lockstep [where fault = fault, OF kv no_fault])
  qed
qed

end

end
