(* ===== verification/Ekv_Examples.thy ===== *)
theory Ekv_Examples
  imports Ekv_Space
begin

text \<open>
  Small media and stores on which the theorems are instantiated: four blocks of 64 bytes, on a memory
  device or on a file with a schedule of faults.
\<close>

section \<open>Media\<close>

definition blocks_sized :: "u32 \<Rightarrow> u32 \<Rightarrow> bytes list \<Rightarrow> bool" where
  "blocks_sized bs bc B \<longleftrightarrow> length B = unat bc \<and> (\<forall>b \<in> set B. length b = unat bs)"

lemma blocks_sized_put:
  assumes "blocks_sized bs bc B" and "fits_format (unat bs) key val" and "has_room bs bc B key val"
  shows "blocks_sized bs bc (apply_writes (put_writes bs bc B key gen val uflags) B)"
proof -
  have sizes: "\<forall>b \<in> set (apply_writes ws B). length b = n"
    if "\<forall>b \<in> set B. length b = n" "\<forall>w \<in> set ws. length (snd w) = n" for ws n and B :: "bytes list"
    using that
  proof (induction ws arbitrary: B)
    case (Cons w ws)
    obtain c b where w: "w = (c, b)" by (cases w)
    have "\<forall>x \<in> set (B[unat c := b]). length x = n"
      using Cons.prems w set_update_subset_insert [of B "unat c" b] by auto
    with Cons w show ?case by simp
  qed simp
  have "\<forall>w \<in> set (put_writes bs bc B key gen val uflags). length (snd w) = unat bs"
    using record_writes_wf [OF assms(2)] put_blocks_facts(2) [OF assms(3)]
    by (auto simp: put_writes_def Let_def)
  from sizes [OF _ this, of B] show ?thesis using assms(1) unfolding blocks_sized_def length_apply_writes by blast
qed

definition zero_block :: bytes where
  "zero_block = replicate 64 0"

definition header0 :: bytes where
  "header0 = header_block 64 (header_for 64 4 options_new 0)"

definition fresh :: "bytes list" where
  "fresh = [header0, zero_block, zero_block, zero_block]"

lemma unat_64 [simp]: "unat (64 :: u32) = 64" "unat (4 :: u32) = 4"
  by simp_all

lemma length_example_blocks [simp]: "length zero_block = 64" "length header0 = 64"
  using header_block_facts(1) [of 64 "header_for 64 4 options_new 0"] by (simp_all add: zero_block_def header0_def)

lemma example_blocks_dead: "\<not> live_block zero_block" "\<not> live_block header0" "header_error 64 4 header0 = None"
proof -
  show "header_error 64 4 header0 = None" unfolding header0_def by (rule header_error_formatted) simp
  then show "\<not> live_block header0" by (rule header_not_live)
  show "\<not> live_block zero_block" by (simp add: live_block_def zero_block_def)
qed

lemma four_blocks:
  "0 < (i :: u32) \<Longrightarrow> i < 4 \<Longrightarrow> i = 1 \<or> i = 2 \<or> i = 3"
  "data_blocks 4 = [1, 2, 3]"
proof -
  show "data_blocks 4 = [1, 2, 3]" by (simp add: data_blocks_def upt_conv_Cons)
  show "i = 1 \<or> i = 2 \<or> i = 3" if "0 < i" "i < 4"
  proof -
    have "unat i = 1 \<or> unat i = 2 \<or> unat i = 3" using that by (auto simp: word_less_nat_alt)
    then show ?thesis by (simp add: word_unat_eq_iff)
  qed
qed

text \<open>A medium of four blocks, of which none holds a record.\<close>

lemma blank_media:
  assumes "length b1 = 64" "\<not> live_block b1" "length b2 = 64" "\<not> live_block b2" "length b3 = 64" "\<not> live_block b3"
  shows "kv_media 64 4 options_new 0 Map.empty [[header0, b1, b2, b3]]"
proof -
  let ?B = "[header0, b1, b2, b3]"
  have "\<not> live_block (?B ! unat i)" if "0 < i" "i < 4" for i :: u32
    using four_blocks(1) [OF that] assms by auto
  note none = latest_no_records [OF this, where bs = 64]
  show ?thesis
    using none example_blocks_dead
    by (simp add: kv_media_def lockstep_def same_data_refl gen_bound_def contents_def free_byte_def options_new_def)
qed

section \<open>Stores\<close>

definition file_with :: "fault_event list \<Rightarrow> bytes list \<Rightarrow> file_device" where
  "file_with faults B = \<lparr>fd_file = \<lparr>file_content = concat B, file_pos = 0, file_faults = faults\<rparr>,
     fd_block_size = 64, fd_block_count = 4\<rparr>"

lemma file_with_simps [simp]:
  "fd_block_size (file_with faults B) = 64" "fd_block_count (file_with faults B) = 4"
  "file_faults (fd_file (file_with faults B)) = faults"
  by (simp_all add: file_with_def)

definition file_store :: "fault_event list \<Rightarrow> bytes list \<Rightarrow> mem_index \<Rightarrow> file_device store" where
  "file_store faults B ix = \<lparr>st_replicas = [\<lparr>rp_dev = file_with faults B,
     rp_header = header_for 64 4 options_new 0, rp_index = ix\<rparr>], st_opts = options_new\<rparr>"

lemma file_store_ok:
  assumes "length B = 4" and "\<forall>b \<in> set B. length b = 64" and "index_ok 64 4 B ix"
  shows "store_ok (file_at 64 4) 64 4 options_new [B] (file_store faults B ix)"
  using assms by (simp add: store_ok_def file_store_def rep_ok_def rep_at_def file_at_def file_with_def)

text \<open>A store on one memory device, for any blocks.\<close>

lemma store_on_blocks:
  assumes "36 \<le> unat bs" and "blocks_sized bs bc B"
  shows "\<exists>s. store_ok (mem_at bs bc) bs bc op [B] s"
proof -
  let ?d = "\<lparr>mem_block_size = bs, mem_block_count = bc, mem_data = concat B\<rparr>"
  let ?s = "\<lparr>st_replicas = [\<lparr>rp_dev = ?d, rp_header = header_for bs bc op 0, rp_index = mi_new\<rparr>], st_opts = op\<rparr>"
  have "store_media (mem_at bs bc) op [B] ?s"
    using assms(2) by (simp add: store_media_def mem_at_def blocks_sized_def)
  from rmem.build_run [OF assms(1) this] show ?thesis by blast
qed

section \<open>Device operations under a schedule\<close>

lemma fd_read_block_fails:
  "file_faults (fd_file d) = Fails code n # events \<Longrightarrow> \<exists>d'. fd_read_block i buf d = (Err (Io (Os code)), d')"
  by (simp add: fd_read_block_def on_file_def file_seek_def next_event_def error_from_io_def bind_io_def Let_def)

lemma fd_read_block_fine:
  assumes "file_at bs bc B d" and "i < bc" and "length buf = unat bs"
    and "file_faults (fd_file d) = Fine # Fine # events"
  shows "\<exists>d'. fd_read_block i buf d = (Ok (B ! unat i), d') \<and> file_at bs bc B d' \<and> file_faults (fd_file d') = events"
proof -
  note r = block_in_range [OF assms(2), of B "unat bs"]
  show ?thesis
    using assms r
    by (simp add: fd_read_block_def on_file_def file_seek_def file_read_exact_def next_event_def bind_io_def Let_def
        slice_range_def copy_into_def file_at_def concat_nth_block)
qed

lemma fd_write_block_torn:
  assumes "file_faults (fd_file d) = Fine # Fails code n # events" and "length buf = unat (fd_block_size d)"
  shows "\<exists>d'. fd_write_block i buf d = (Err (Io (Os code)), d')"
  using assms
  by (simp add: fd_write_block_def on_file_def file_seek_def file_write_all_def next_event_def error_from_io_def
      bind_io_def Let_def slice_range_def)

section \<open>A put that tears\<close>

text \<open>
  The first block still holds a record, of which a torn erasure has overwritten the first byte only.
  The next put of the same record fails in the middle of the block.
\<close>

definition torn_record :: bytes where
  "torn_record = 0 # tl (descriptor_block_of 64 (new_header 64 [1] 1 [7] 0 []) [1] [7])"

definition torn_medium :: "bytes list" where
  "torn_medium = [header0, torn_record, zero_block, zero_block]"

lemma torn_medium_facts:
  "kv_media 64 4 options_new 0 Map.empty [torn_medium]" "free_list 4 torn_medium = [1, 2, 3]"
  "latest 64 4 torn_medium = Map.empty" "index_ok 64 4 torn_medium mi_new"
  "store_ok (file_at 64 4) 64 4 options_new [torn_medium] (file_store faults torn_medium mi_new)"
proof -
  have len: "length (descriptor_block_of 64 (new_header 64 [1] 1 [7] 0 []) [1] [7]) = 64"
    by (simp add: descriptor_block_of_def)
  have r: "length torn_record = 64" "\<not> live_block torn_record"
    using len by (simp_all add: torn_record_def live_block_def)
  then show kv: "kv_media 64 4 options_new 0 Map.empty [torn_medium]"
    unfolding torn_medium_def using example_blocks_dead by (intro blank_media) simp_all
  have f: "free_block torn_record" "free_block zero_block" by (simp_all add: free_block_def torn_record_def zero_block_def)
  then show "free_list 4 torn_medium = [1, 2, 3]"
    by (simp add: free_list_def four_blocks(2) torn_medium_def)
  show l: "latest 64 4 torn_medium = Map.empty"
    using kv by (simp add: kv_media_def contents_def fun_eq_iff)
  show ix: "index_ok 64 4 torn_medium mi_new"
    using l by (simp add: index_ok_def)
  show "store_ok (file_at 64 4) 64 4 options_new [torn_medium] (file_store faults torn_medium mi_new)"
    by (rule file_store_ok [OF _ _ ix]) (use r in \<open>auto simp: torn_medium_def\<close>)
qed

lemma torn_medium_put: "put_writes 64 4 torn_medium [1] 1 [7] 0 =
    [(1, descriptor_block_of 64 (new_header 64 [1] 1 [7] 0 []) [1] [7])]"
  by (simp add: put_writes_def put_blocks_def torn_medium_facts extra_blocks_def first_part_def record_writes_def)

lemma torn_medium_tears: "tears_detected torn_prefix torn_medium (put_writes 64 4 torn_medium [1] 1 [7] 0)"
proof -
  let ?new = "descriptor_block_of 64 (new_header 64 [1] 1 [7] 0 []) [1] [7]"
  have "b = ?new \<or> \<not> live_block b" if "torn_prefix torn_record ?new b" for b
  proof -
    from that obtain k where b: "b = take k ?new @ drop k torn_record" by (auto simp: torn_prefix_def)
    have ne: "?new \<noteq> []" by (simp add: descriptor_block_of_def seal_def)
    show ?thesis
    proof (cases k)
      case 0
      then show ?thesis using b by (simp add: torn_record_def live_block_def)
    next
      case (Suc j)
      then have "drop k torn_record = drop k ?new" using ne by (cases ?new) (simp_all add: torn_record_def)
      then show ?thesis using b by simp
    qed
  qed
  then show ?thesis unfolding torn_medium_put tears_detected_def by (simp add: torn_medium_def)
qed

lemma torn_put_fails:
  "\<exists>s'. store_put True file_dev [1] [7] (file_store [Fine, Fine, Fine, Fails 5 10] torn_medium mi_new) = (Err (Io (Os 5)), s')"
proof -
  let ?d = "file_with [Fine, Fine, Fine, Fails 5 10] torn_medium"
  have at: "file_at 64 4 torn_medium ?d"
    using torn_medium_facts(5) [of "[Fine, Fine, Fine, Fails 5 10]"]
    by (simp add: store_ok_def file_store_def rep_ok_def rep_at_def)
  have len: "length (replicate 64 (0 :: u8)) = unat (64 :: u32)" by simp
  obtain d1 where d1: "fd_read_block 1 (replicate 64 0) ?d = (Ok torn_record, d1)" "file_at 64 4 torn_medium d1"
    "file_faults (fd_file d1) = [Fine, Fails 5 10]"
    using fd_read_block_fine [OF at _ len, of 1 "[Fine, Fails 5 10]"] by (auto simp: file_with_def torn_medium_def)
  have cand: "is_free_candidate True torn_record = Ok True"
    using is_free_candidate_Ok [of torn_record True] by (simp add: torn_record_def free_block_def)
  have bsz: "fd_block_size d1 = 64" using d1(2) by (simp add: file_at_def)
  obtain n where n: "needed_blocks True [1] [7] 64 = Ok n" "unat n = 1"
    using needed_blocks_Ok [of 64 "[1]" "[7]" True]
    by (auto simp: fits_format_def extra_blocks_def first_part_def)
  have one: "n = 1" using n(2) by (simp add: word_unat_eq_iff)
  have find: "find_free_blocks True file_dev n \<lparr>rp_dev = ?d, rp_header = h, rp_index = ix\<rparr> =
      (Ok [1], \<lparr>rp_dev = d1, rp_header = h, rp_index = ix\<rparr>)" for h ix
    using d1(1) cand by (simp add: find_free_blocks_def bind_io_def on_dev_def file_dev_def one four_blocks)
  have build: "build_descriptor_block True 64 hdr [1] [7] 1 = Ok (descriptor_block_of 64 hdr [1] [7])" for hdr
    using build_descriptor_block_Ok [of "[1]" 1 64 "[7]" True hdr] by simp
  have len': "length (descriptor_block_of 64 hdr [1] [7]) = 64" for hdr by (simp add: descriptor_block_of_def)
  have "\<forall>hdr. \<exists>d'. fd_write_block 1 (descriptor_block_of 64 hdr [1] [7]) d1 = (Err (Io (Os 5)), d')"
    using fd_write_block_torn [OF d1(3)] bsz by (simp add: len')
  then obtain d2 where d2: "\<And>hdr. fd_write_block 1 (descriptor_block_of 64 hdr [1] [7]) d1 = (Err (Io (Os 5)), d2 hdr)"
    by metis
  have rec: "\<exists>r. write_record True file_dev 1 [] [1] 1 [7] 0 \<lparr>rp_dev = d1, rp_header = h, rp_index = ix\<rparr> =
      (Err (Io (Os 5)), r)" for h ix
    by (simp add: write_record_def bind_io_def on_dev_def file_dev_def first_payload_capacity_def chunk_payload_capacity_def
        layout_simps u32_sub_Ok u32_add_Ok Let_def build d2 bsz word_le_nat_alt min_def)
  then obtain r2 where r2: "\<And>h ix. write_record True file_dev 1 [] [1] 1 [7] 0 \<lparr>rp_dev = d1, rp_header = h, rp_index = ix\<rparr> =
      (Err (Io (Os 5)), r2 h ix)"
    by metis
  have "d_block_size file_dev = fd_block_size" by (simp add: file_dev_def)
  then show ?thesis
    by (simp add: store_put_def store_put_flagged_def bind_io_def on_replicas_def file_store_def replica_put_def on_dev_def
        max_generation_def n(1) find r2 layout_simps u32_sub_Ok u32_add_Ok Let_def options_new_def word_le_nat_alt)
qed

section \<open>One stored record\<close>

definition stored :: "bytes list" where
  "stored = put_medium 64 4 fresh zero_block [1] 1 [7] 0"

definition stored_index :: mem_index where
  "stored_index = mi_put (entry_of (put_record 64 4 fresh [1] 1 [7] 0)) mi_new"

lemma fresh_facts:
  "kv_media 64 4 options_new 0 Map.empty [fresh]" "free_list 4 fresh = [1, 2, 3]" "latest 64 4 fresh = Map.empty"
  "length fresh = 4" "index_ok 64 4 fresh mi_new" "has_room 64 4 fresh [1] [7]"
proof -
  show kv: "kv_media 64 4 options_new 0 Map.empty [fresh]"
    unfolding fresh_def using example_blocks_dead by (intro blank_media) simp_all
  have "free_block zero_block" by (simp add: free_block_def zero_block_def)
  then show l: "free_list 4 fresh = [1, 2, 3]"
    by (simp add: free_list_def four_blocks(2) fresh_def)
  show "length fresh = 4" by (simp add: fresh_def)
  show "latest 64 4 fresh = Map.empty" using kv by (simp add: kv_media_def contents_def fun_eq_iff)
  then show "index_ok 64 4 fresh mi_new" by (simp add: index_ok_def)
  show "has_room 64 4 fresh [1] [7]" by (simp add: has_room_def l extra_blocks_def first_part_def)
qed

lemma stored_facts:
  "kv_media 64 4 options_new 1 [key_str [1] \<mapsto> [7]] [stored]"
  "store_ok (file_at 64 4) 64 4 options_new [stored] (file_store faults stored stored_index)"
  "mi_get stored_index (key_str [1]) = Some (entry_of (put_record 64 4 fresh [1] 1 [7] 0))"
  "latest 64 4 stored = [key_str [1] \<mapsto> put_record 64 4 fresh [1] 1 [7] 0]" "blocks_sized 64 4 stored"
proof -
  have fit: "fits_format (unat (64 :: u32)) [1] [7]" by (simp add: fits_format_def)
  have free: "make_free_buf 64 (op_free_pattern options_new) = zero_block"
    by (simp add: make_free_buf_def options_new_def zero_block_def)
  have gen: "top_generation 64 4 [fresh] ks = 0" for ks by (simp add: top_generation_def fresh_facts)
  show kv: "kv_media 64 4 options_new 1 [key_str [1] \<mapsto> [7]] [stored]"
    using kv_media_put [OF fresh_facts(1) fit, of 0] fresh_facts(6) by (simp add: gen free stored_def)
  show put: "latest 64 4 stored = [key_str [1] \<mapsto> put_record 64 4 fresh [1] 1 [7] 0]"
    unfolding stored_def
    using put_medium_effect(1) [of fresh 4 64 "[1]" "[7]" 1 zero_block 0] fit fresh_facts example_blocks_dead by simp
  have ix: "index_ok 64 4 stored stored_index"
    unfolding stored_index_def by (rule index_ok_put [OF fresh_facts(5)]) (simp add: put fresh_facts)
  have eq: "stored = apply_writes (put_writes 64 4 fresh [1] 1 [7] 0) fresh"
    by (simp add: stored_def put_medium_def old_erasure_def fresh_facts)
  have "blocks_sized 64 4 fresh" by (auto simp: blocks_sized_def fresh_def)
  then show sized: "blocks_sized 64 4 stored" unfolding eq using fit fresh_facts(6) by (rule blocks_sized_put)
  show "store_ok (file_at 64 4) 64 4 options_new [stored] (file_store faults stored stored_index)"
    using sized by (intro file_store_ok [OF _ _ ix]) (simp_all add: blocks_sized_def)
  show "mi_get stored_index (key_str [1]) = Some (entry_of (put_record 64 4 fresh [1] 1 [7] 0))"
    using index_ok_get(1) [OF ix] put by simp
qed

lemma stored_room:
  "free_list 4 stored = [2, 3]" "has_room 64 4 stored [1] [8]" "length stored = 4"
  "fits_format (unat (64 :: u32)) [1] [x]" "header_error 64 4 (stored ! 0) = None"
proof -
  show fit: "fits_format (unat (64 :: u32)) [1] [x]" for x by (simp add: fits_format_def)
  have eq: "stored = apply_writes (put_writes 64 4 fresh [1] 1 [7] 0) fresh"
    by (simp add: stored_def put_medium_def old_erasure_def fresh_facts)
  show l: "free_list 4 stored = [2, 3]"
    using free_list_put [of fresh 4 64 "[1]" "[7]" 1 0] fit fresh_facts
    by (simp add: eq extra_blocks_def first_part_def)
  show "has_room 64 4 stored [1] [8]" by (simp add: has_room_def l extra_blocks_def first_part_def)
  show "length stored = 4" by (simp add: eq fresh_facts)
  show "header_error 64 4 (stored ! 0) = None" using stored_facts(1) by (simp add: kv_media_def)
qed

text \<open>The first system call fails.\<close>

lemma stored_delete_fails:
  "\<exists>s'. store_delete True file_dev [1] (file_store [Fails 5 0] stored stored_index) = (Err (Io (Os 5)), s')"
proof -
  let ?d = "file_with [Fails 5 0] stored"
  obtain d' where d': "\<And>i buf. fd_read_block i buf ?d = (Err (Io (Os 5)), d' i buf)"
    using fd_read_block_fails [of ?d 5 0 "[]"] by simp metis
  show ?thesis
    by (simp add: store_delete_def bind_io_def on_replicas_def file_store_def delete_step_def stored_facts(3)
        free_record_def on_dev_def file_dev_def d' options_new_def)
qed

lemma stored_recover_fails:
  "\<exists>s'. store_recover True file_dev (file_store [Fails 5 0] stored stored_index) = (Err (Io (Os 5)), s')"
proof -
  let ?d = "file_with [Fails 5 0] stored"
  obtain d' where d': "\<And>i buf. fd_read_block i buf ?d = (Err (Io (Os 5)), d' i buf)"
    using fd_read_block_fails [of ?d 5 0 "[]"] by simp metis
  show ?thesis
    by (simp add: store_recover_def bind_io_def on_replicas_def file_store_def replica_recover_def on_dev_def file_dev_def
        d' options_new_def four_blocks)
qed

end
