(* ===== verification/Ekv_Crash.thy ===== *)
theory Ekv_Crash
  imports Ekv_Examples
begin

text \<open>
  Crashes on \<^verbatim>\<open>FileDevice\<close>. A system call that fails, possibly in the middle of writing a block, stands
  for the loss of power at that point: the state it leaves is the state that the next session finds. A
  put that is cut short leaves every replica with the old value or with the new one, and recovery
  keeps it.
\<close>

section \<open>Files without faults are reliable\<close>

definition quiet_at :: "u32 \<Rightarrow> u32 \<Rightarrow> bytes list \<Rightarrow> file_device \<Rightarrow> bool" where
  "quiet_at bs bc B d \<longleftrightarrow> file_at bs bc B d \<and> file_faults (fd_file d) = []"

definition stays_quiet :: "(file_device, 'a) io \<Rightarrow> bool" where
  "stays_quiet m \<longleftrightarrow> (\<forall>d. file_faults (fd_file d) = [] \<longrightarrow>
     (case m d of (r, d') \<Rightarrow> file_faults (fd_file d') = [] \<and> (\<forall>e. r = Err e \<longrightarrow> \<not> os_fault e)))"

lemma quiet_triple:
  assumes "triple (file_at bs bc B) m (\<lambda>x d. P x \<and> file_at bs bc B' d) E"
    and "\<And>e d. E e d \<Longrightarrow> os_fault e" and "stays_quiet m"
  shows "triple (quiet_at bs bc B) m (\<lambda>x d. P x \<and> quiet_at bs bc B' d) (\<lambda>_ _. False)"
  unfolding triple_def
proof (intro allI impI)
  fix d
  assume d: "quiet_at bs bc B d"
  then have "file_at bs bc B d" by (simp add: quiet_at_def)
  with assms(1) show "case m d of (Ok x, s') \<Rightarrow> P x \<and> quiet_at bs bc B' s' | (Err e, s') \<Rightarrow> False | (Panic, s') \<Rightarrow> False"
    by (cases rule: triple_cases) (use d assms(2,3) in \<open>auto simp: quiet_at_def stays_quiet_def\<close>)
qed

lemma file_ops_quiet:
  "stays_quiet (fd_read_block i buf)" "stays_quiet (fd_write_block i buf)" "stays_quiet fd_flush"
  by (auto simp: stays_quiet_def fd_read_block_def fd_write_block_def fd_flush_def Let_def bind_io_def
      on_file_def file_seek_def file_read_exact_def file_write_all_def file_sync_all_def next_event_def
      error_from_io_def os_fault_def slice_range_def copy_into_def split: outcome.splits if_splits)

lemma file_dev_ops:
  "d_read_block file_dev = fd_read_block" "d_write_block file_dev = fd_write_block" "d_flush file_dev = fd_flush"
  by (simp_all add: file_dev_def)

interpretation rfile: reliable_device file_dev quiet_at "\<lambda>_. False" "\<lambda>_ _ _. False"
proof (unfold_locales, goal_cases)
  case (5 i bc buf bs B)
  from quiet_triple [OF fd_read_block_at [OF 5] _ file_ops_quiet(1)] show ?case
    unfolding file_dev_ops by (rule triple_conseq) auto
next
  case (6 i bc buf bs B)
  have "triple (file_at bs bc B) (fd_write_block i buf) (\<lambda>_ d. True \<and> file_at bs bc (B[unat i := buf]) d)
    (\<lambda>e d. os_fault e \<and> (\<exists>b. (b = B ! unat i \<or> torn_prefix (B ! unat i) buf b) \<and> file_at bs bc (B[unat i := b]) d))"
    using fd_write_block_at [OF 6] by simp
  from quiet_triple [OF this _ file_ops_quiet(2)] show ?case
    unfolding file_dev_ops by (rule triple_conseq) auto
next
  case (7 bs bc B)
  have "triple (file_at bs bc B) fd_flush (\<lambda>_ d. True \<and> file_at bs bc B d) (\<lambda>e d. os_fault e \<and> file_at bs bc B d)"
    using fd_flush_at by simp
  from quiet_triple [OF this _ file_ops_quiet(3)] show ?case
    unfolding file_dev_ops by (rule triple_conseq) auto
qed (auto simp: quiet_at_def file_at_def file_dev_def)

section \<open>Reading with some failing replicas\<close>

text \<open>A replica whose file has no fault ahead always contributes its latest record to a \<^verbatim>\<open>get\<close>.\<close>

definition healthy :: "file_device replica \<Rightarrow> bool" where
  "healthy r \<longleftrightarrow> file_faults (fd_file (rp_dev r)) = []"

lemma rep_ok_healthy:
  "rep_ok (quiet_at bs bc) bs bc B r \<longleftrightarrow> rep_ok (file_at bs bc) bs bc B r \<and> healthy r"
  by (auto simp: rep_ok_def rep_at_def quiet_at_def healthy_def)

lemma get_step_healthy:
  assumes "36 \<le> unat bs"
  shows "triple (\<lambda>r. rep_ok (file_at bs bc) bs bc B r \<and> healthy r = q) (get_step oc file_dev key a)
    (\<lambda>b r. (b = get_update (latest bs bc B (key_str key)) a \<or> b = a \<and> \<not> q) \<and> rep_ok (file_at bs bc) bs bc B r)
    (\<lambda>_ _. False)"
proof (cases q)
  case True
  then show ?thesis
    by (intro triple_conseq [OF rfile.get_step_spec [OF assms]]) (auto simp: rep_ok_healthy)
next
  case False
  then show ?thesis
    by (intro triple_conseq [OF disk.get_step_spec [OF assms]]) auto
qed

lemma store_get_healthy:
  assumes "36 \<le> unat bs"
  shows "triple
    (\<lambda>s. list_all2 (\<lambda>(B, q) r. rep_ok (file_at bs bc) bs bc B r \<and> healthy r = q) Bqs (st_replicas s) \<and> st_opts s = op)
    (store_get oc file_dev key)
    (\<lambda>v s. (list_all2 (\<lambda>(B, q). rep_ok (file_at bs bc) bs bc B) Bqs (st_replicas s) \<and> st_opts s = op) \<and>
      (\<exists>xs r. list_all2 (\<lambda>Bq x. x = latest bs bc (fst Bq) (key_str key) \<or> x = None \<and> \<not> snd Bq) Bqs xs \<and>
        newest cr_generation None (List.map_filter id xs) = Some r \<and> v = cr_value r))
    (\<lambda>e s. e = KeyNotFound \<and>
      (list_all2 (\<lambda>(B, q). rep_ok (file_at bs bc) bs bc B) Bqs (st_replicas s) \<and> st_opts s = op) \<and>
      (\<exists>xs. list_all2 (\<lambda>Bq x. x = latest bs bc (fst Bq) (key_str key) \<or> x = None \<and> \<not> snd Bq) Bqs xs \<and>
        List.map_filter id xs = []))"
  by (rule triple_store_get) (use get_step_healthy [OF assms] in \<open>simp add: case_prod_beta\<close>)

section \<open>Torn blocks\<close>

lemma erase_tears_prefix:
  assumes "free_byte fp" and "0 < unat bs"
  shows "erase_tears torn_prefix (make_free_buf bs fp)"
  unfolding erase_tears_def
proof (intro allI impI)
  fix x b
  assume "torn_prefix x (make_free_buf bs fp) b"
  then obtain k where k: "k \<le> unat bs" and b: "b = replicate k fp @ drop k x"
    by (auto simp: torn_prefix_def make_free_buf_def)
  show "b = x \<or> \<not> live_block b"
  proof (cases k)
    case (Suc j)
    then have "b ! 0 = fp" by (simp add: b)
    with assms(1) show ?thesis by (auto simp: live_block_def free_byte_def)
  qed (simp add: b)
qed

text \<open>A partial write leaves every block alone that it does not write.\<close>

lemma partial_write_block0:
  assumes "partial_write torn B ws B'" and "0 \<notin> fst ` set ws" and "0 < length B"
  shows "B' ! 0 = B ! 0"
proof -
  have "unat (c :: u32) \<noteq> 0" if "(c, b) \<in> set ws" for c b
    using assms(2) that by (force simp: unat_eq_0)
  with assms(1,3) show ?thesis unfolding partial_write_def by fastforce
qed

section \<open>An update that is cut short\<close>

text \<open>
  The header and the records of a medium as they were, or with the record for one key replaced by
  \<open>new B\<close>. A put replaces it by the new record, a delete by nothing.
\<close>

definition old_or_new ::
    "u32 \<Rightarrow> u32 \<Rightarrow> bytes \<Rightarrow> (bytes list \<Rightarrow> complete_record option) \<Rightarrow> bytes list \<Rightarrow> bytes list \<Rightarrow> bool" where
  "old_or_new bs bc ks new B B' \<longleftrightarrow> B' ! 0 = B ! 0 \<and>
     (latest bs bc B' = latest bs bc B \<or> latest bs bc B' = (latest bs bc B)(ks := new B))"

lemma old_or_new_refl: "old_or_new bs bc ks new B B"
  by (simp add: old_or_new_def)

lemma put_failed_effect:
  assumes "length B = unat bc" and "fits_format (unat bs) key val"
    and newer: "\<And>r0. latest bs bc B (key_str key) = Some r0 \<Longrightarrow> cr_generation r0 < gen"
    and free: "\<not> live_block free" "erase_tears torn free" and h0: "\<not> live_block (B ! 0)" and "0 < bc"
    and tears: "has_room bs bc B key val \<Longrightarrow> tears_detected torn B (put_writes bs bc B key gen val uflags)"
    and "put_failed at torn bs bc B ix free key gen val uflags r"
  shows "\<exists>B' ix'. at B' ix' r \<and>
    old_or_new bs bc (key_str key) (\<lambda>B. Some (put_record bs bc B key gen val uflags)) B B'"
  using assms(9) unfolding put_failed_def
proof (elim disjE conjE exE)
  assume "at B ix r"
  then show ?thesis using old_or_new_refl by blast
next
  fix B'
  assume room: "has_room bs bc B key val" and at: "at B' ix r"
    and part: "partial_write torn B (put_writes bs bc B key gen val uflags) B'"
  have "B' ! 0 = B ! 0"
    by (rule partial_write_block0 [OF part put_writes_nonzero [OF room]])
      (use assms(1,7) in \<open>simp add: word_less_nat_alt\<close>)
  with put_interrupted [OF assms(1,2) room newer part tears [OF room]] at
  show ?thesis unfolding old_or_new_def by blast
next
  fix B'
  let ?B1 = "apply_writes (put_writes bs bc B key gen val uflags) B"
  assume room: "has_room bs bc B key val"
    and part: "partial_write torn ?B1 (old_erasure bs bc B free (key_str key)) B'"
    and at: "at B' (mi_put (entry_of (put_record bs bc B key gen val uflags)) ix) r"
  have "B' ! 0 = ?B1 ! 0"
    by (rule partial_write_block0 [OF part old_erasure_nonzero [OF h0]])
      (use assms(1,7) in \<open>simp add: word_less_nat_alt\<close>)
  then have "B' ! 0 = B ! 0" using apply_writes_block0 [OF put_writes_nonzero [OF room]] by simp
  with put_erasing [OF assms(1,2) room newer free part] at
  show ?thesis unfolding old_or_new_def by blast
qed

lemma old_or_new_put:
  assumes "length B = unat bc" and "fits_format (unat bs) key val" and "has_room bs bc B key val"
    and "\<And>r0. latest bs bc B (key_str key) = Some r0 \<Longrightarrow> cr_generation r0 < gen" and "\<not> live_block free"
    and "\<not> live_block (B ! 0)"
  shows "old_or_new bs bc (key_str key) (\<lambda>B. Some (put_record bs bc B key gen val uflags)) B
    (put_medium bs bc B free key gen val uflags)"
  unfolding old_or_new_def using put_medium_effect(1) [OF assms(1-5)] put_medium_block0 [OF assms(3,6)] by simp

lemma delete_failed_effect:
  assumes "length B = unat bc" and tidy: "tidy bs bc B" and free: "\<not> live_block free" "erase_tears torn free"
    and h0: "\<not> live_block (B ! 0)" and "0 < bc"
    and part: "partial_write torn B (old_erasure bs bc B free ks) B'"
  shows "old_or_new bs bc ks (\<lambda>B. None) B B'"
proof -
  have "B' ! 0 = B ! 0"
    by (rule partial_write_block0 [OF part old_erasure_nonzero [OF h0]])
      (use assms(1,6) in \<open>simp add: word_less_nat_alt\<close>)
  moreover have "latest bs bc B' = latest bs bc B \<or> latest bs bc B' = (latest bs bc B)(ks := None)"
  proof (cases "latest bs bc B ks")
    case None
    with part show ?thesis by (simp add: old_erasure_def partial_write_Nil)
  next
    case (Some r0)
    let ?db = "cr_descriptor_block r0"
    note old = latest_Some(1) [OF Some]
    have "partial_write torn B (erase_writes free r0) B'" using part Some by (simp add: old_erasure_def)
    note eff = erase_partial_effect [OF this free old]
    show ?thesis
    proof (cases "complete (unat bs) B' ?db r0")
      case True
      have "complete (unat bs) B' i r \<longleftrightarrow> complete (unat bs) B i r" for i r
        using eff [of i r] True old complete_deterministic by (cases "i = ?db") blast+
      then have "latest bs bc B' = latest bs bc B" by (intro ext latest_cong) simp
      then show ?thesis ..
    next
      case False
      have "complete (unat bs) B' i r \<longleftrightarrow> complete (unat bs) B i r \<and> i \<noteq> ?db" for i r
        using eff [of i r] False old complete_deterministic by blast
      with latest_delete(1) [OF tidy Some] show ?thesis by blast
    qed
  qed
  ultimately show ?thesis by (simp add: old_or_new_def)
qed

text \<open>The replicas after an operation that stopped at one of them.\<close>

lemma stopped_media:
  assumes "stopped_at Q E P Bs rs" and "\<And>B r. B \<in> set Bs \<Longrightarrow> Q B r \<Longrightarrow> \<exists>B'. R B B' \<and> dev B' r"
    and "\<And>B r. B \<in> set Bs \<Longrightarrow> E B r \<Longrightarrow> \<exists>B'. R B B' \<and> dev B' r"
    and "\<And>B r. B \<in> set Bs \<Longrightarrow> P B r \<Longrightarrow> \<exists>B'. R B B' \<and> dev B' r"
  shows "\<exists>Bs'. list_all2 R Bs Bs' \<and> list_all2 dev Bs' rs"
proof -
  let ?G = "\<lambda>B r. \<exists>B'. R B B' \<and> dev B' r"
  from assms(1) obtain ys x zs us s vs where split: "Bs = ys @ x # zs" "rs = us @ s # vs"
    "list_all2 Q ys us" "E x s" "list_all2 P zs vs"
    unfolding stopped_at_def by blast
  have "list_all2 ?G ys us" by (rule list.rel_mono_strong [OF split(3)]) (simp add: assms(2) split(1))
  moreover have "list_all2 ?G zs vs" by (rule list.rel_mono_strong [OF split(5)]) (simp add: assms(4) split(1))
  moreover have "?G x s" using assms(3) split by simp
  ultimately have "list_all2 ?G Bs rs" by (simp add: split(1,2) list_all2_appendI)
  then show ?thesis
  proof (induction rule: list_all2_induct)
    case (Cons B Bs r rs)
    then show ?case by (metis list.rel_intros(2))
  qed simp
qed

text \<open>
  Replicas that were in lockstep and have each the old or the new record: together they read as the old
  map or as the new one, because the newest record wins.
\<close>

lemma newest_mixed:
  assumes Bs: "Bs \<noteq> []" and mixed: "\<forall>B \<in> set Bs. latest bs bc B = L \<or> latest bs bc B = L(ks := new)"
    and newer: "\<And>r0 r. L ks = Some r0 \<Longrightarrow> new = Some r \<Longrightarrow> r0 = r \<or> cr_generation r0 < cr_generation r"
  shows "\<exists>L'. (L' = L \<or> L' = L(ks := new)) \<and>
    (\<forall>k. newest cr_generation None (List.map_filter (\<lambda>B. latest bs bc B k) Bs) = L' k)"
proof -
  have same: "newest cr_generation None (List.map_filter f Bs) = c" if "\<forall>B \<in> set Bs. f B = c" for f and c :: "complete_record option"
  proof (cases c)
    case None
    with that have "List.map_filter f Bs = []" by (simp add: List.map_filter_def filter_empty_conv)
    with None show ?thesis by simp
  next
    case (Some r)
    then have "List.map_filter f Bs = map (\<lambda>_. r) Bs"
      using that by (induction Bs) (simp_all add: List.map_filter_simps)
    with Some Bs show ?thesis by (auto intro!: newest_dominant simp: image_constant_conv)
  qed
  have top: "newest cr_generation None (List.map_filter (\<lambda>B. latest bs bc B ks) Bs) = Some r"
    if "B \<in> set Bs" "latest bs bc B ks = Some r" "\<forall>C \<in> set Bs. \<forall>r'. latest bs bc C ks = Some r' \<longrightarrow> r' \<noteq> r \<longrightarrow> cr_generation r' < cr_generation r" for B r
    by (rule newest_dominant) (use that in \<open>force simp: List.map_filter_def image_iff\<close>)+
  have other: "newest cr_generation None (List.map_filter (\<lambda>B. latest bs bc B k) Bs) = L k" if "k \<noteq> ks" for k
    by (rule same) (use mixed that in auto)
  have "newest cr_generation None (List.map_filter (\<lambda>B. latest bs bc B ks) Bs) = L ks \<or>
      newest cr_generation None (List.map_filter (\<lambda>B. latest bs bc B ks) Bs) = new"
  proof (cases "\<forall>B \<in> set Bs. latest bs bc B ks = L ks")
    case True
    then show ?thesis using same [of "\<lambda>B. latest bs bc B ks"] by simp
  next
    case False
    then obtain B where B: "B \<in> set Bs" "latest bs bc B ks = new" using mixed by fastforce
    have vals: "latest bs bc C ks = L ks \<or> latest bs bc C ks = new" if "C \<in> set Bs" for C
      using mixed that by fastforce
    show ?thesis
    proof (cases new)
      case (Some r)
      have "newest cr_generation None (List.map_filter (\<lambda>B. latest bs bc B ks) Bs) = Some r"
        by (rule top [OF B(1)]) (use B(2) Some vals newer in force)+
      with Some show ?thesis by simp
    next
      case None
      show ?thesis
      proof (cases "\<exists>C r. C \<in> set Bs \<and> latest bs bc C ks = Some r")
        case True
        then obtain C r where C: "C \<in> set Bs" "latest bs bc C ks = Some r" by blast
        with vals None have "L ks = Some r" by force
        moreover have "newest cr_generation None (List.map_filter (\<lambda>B. latest bs bc B ks) Bs) = Some r"
          by (rule top [OF C]) (use vals None calculation in force)
        ultimately show ?thesis by simp
      next
        case False
        then have "\<forall>C \<in> set Bs. latest bs bc C ks = None" by force
        from same [OF this] None show ?thesis by simp
      qed
    qed
  qed
  with other show ?thesis
    by (elim disjE) (rule exI [of _ L], force, rule exI [of _ "L(ks := new)"], force)
qed

context device_contract
begin

lemma store_ok_length:
  assumes "store_ok (dev_at bs bc) bs bc op Bs s" and "B \<in> set Bs"
  shows "length B = unat bc"
proof -
  from assms obtain r where "rep_ok (dev_at bs bc) bs bc B r"
    by (auto simp: store_ok_def list_all2_conv_all_nth in_set_conv_nth)
  then show ?thesis using dev_length by (auto simp: rep_ok_def rep_at_def)
qed

lemma put_crash:
  fixes uflags Bs
  assumes bs: "36 \<le> unat bs" and sizes: "length key < 2 ^ 32" "36 + length key \<le> unat bs \<Longrightarrow> length key < 2 ^ 16" "length val < 2 ^ 32"
    and Bs: "Bs \<noteq> []" and gen: "unat (top_generation bs bc Bs (key_str key)) + 1 < 2 ^ 32"
    and fp: "free_byte (op_free_pattern op)" and h0: "\<forall>B \<in> set Bs. \<not> live_block (B ! 0)" and bc: "0 < bc"
  defines "free \<equiv> make_free_buf bs (op_free_pattern op)" and "g \<equiv> top_generation bs bc Bs (key_str key) + 1"
  assumes erase: "erase_tears torn free"
    and tears: "\<And>B. B \<in> set Bs \<Longrightarrow> has_room bs bc B key val \<Longrightarrow> tears_detected torn B (put_writes bs bc B key g val uflags)"
  shows "triple (store_ok (dev_at bs bc) bs bc op Bs) (store_put_flagged oc D key val uflags)
    (\<lambda>_ _. True)
    (\<lambda>e s. \<exists>Bs'. list_all2 (old_or_new bs bc (key_str key) (\<lambda>B. Some (put_record bs bc B key g val uflags))) Bs Bs' \<and>
       store_media (dev_at bs bc) op Bs' s)"
proof (rule triple_assume [where A = "\<forall>B \<in> set Bs. length B = unat bc"])
  assume len: "\<forall>B \<in> set Bs. length B = unat bc"
  let ?R = "old_or_new bs bc (key_str key) (\<lambda>B. Some (put_record bs bc B key g val uflags))"
  let ?dev = "\<lambda>B (r :: 'd replica). dev_at bs bc B (rp_dev r)"
  have "unat g = unat (top_generation bs bc Bs (key_str key)) + 1"
    unfolding g_def using gen by (subst unat_u32_add) simp_all
  then have newer: "cr_generation r < g" if "B \<in> set Bs" "latest bs bc B (key_str key) = Some r" for B r
    using top_generation_bound [OF that] by (simp add: word_le_nat_alt word_less_nat_alt)
  have dead: "\<not> live_block free"
    using free_byte_block [OF fp, of bs] bs free_not_live by (simp add: free_def)
  have ok: "?dev B r" if "rep_ok (dev_at bs bc) bs bc B r" for B r
    using that by (auto simp: rep_ok_def rep_at_def)
  have media: "\<exists>Bs'. list_all2 ?R Bs Bs' \<and> list_all2 ?dev Bs' rs"
    if key: "36 + length key \<le> unat bs" and stop: "put_stopped (dev_at bs bc) fault torn bs bc free key g val uflags e Bs rs" for e rs
  proof (rule stopped_media [OF stop [unfolded put_stopped_def]])
    have fit: "fits_format (unat bs) key val" using key sizes by (simp add: fits_format_def)
    show "\<exists>B'. ?R B B' \<and> ?dev B' r" if "B \<in> set Bs" "has_room bs bc B key val \<and> rep_ok (dev_at bs bc) bs bc (put_medium bs bc B free key g val uflags) r" for B r
      using that ok len h0 old_or_new_put [OF _ fit _ newer [OF that(1)] dead] by blast
    show "\<exists>B'. ?R B B' \<and> ?dev B' r" if "B \<in> set Bs" and "e = StorageFull \<and> \<not> has_room bs bc B key val \<and> rep_ok (dev_at bs bc) bs bc B r \<or>
        fault e \<and> (\<exists>h ix. put_failed (\<lambda>B. rep_at (dev_at bs bc B) h) torn bs bc B ix free key g val uflags r)" for B r
      using that(2)
    proof (elim disjE conjE exE)
      fix h ix
      assume "put_failed (\<lambda>B. rep_at (dev_at bs bc B) h) torn bs bc B ix free key g val uflags r"
      from put_failed_effect [OF _ fit newer [OF that(1)] dead erase _ bc tears [OF that(1)] this] len h0 that(1)
      show ?thesis unfolding rep_at_def by blast
    qed (use ok old_or_new_refl in blast)
    show "\<exists>B'. ?R B B' \<and> ?dev B' r" if "rep_ok (dev_at bs bc) bs bc B r" for B r
      using that ok old_or_new_refl by blast
  qed
  have refl: "list_all2 ?R Bs Bs" by (rule list.rel_refl) (rule old_or_new_refl)
  show ?thesis
  proof (rule triple_conseq [OF store_put_flagged_spec [OF bs sizes Bs gen fp, where oc = oc and uflags = uflags,
          folded free_def g_def]], goal_cases)
    case (4 e s)
    then show ?case
    proof (elim disjE conjE)
      assume "store_ok (dev_at bs bc) bs bc op Bs s"
      then have "store_media (dev_at bs bc) op Bs s"
        using ok unfolding store_ok_def store_media_def by (auto elim!: list_all2_mono)
      with refl show ?thesis by blast
    qed (use media in \<open>auto simp: store_media_def\<close>)
  qed auto
qed (use store_ok_length in blast)

lemma delete_crash:
  fixes Bs
  assumes bs: "36 \<le> unat bs" and fp: "free_byte (op_free_pattern op)"
    and each: "\<forall>B \<in> set Bs. tidy bs bc B \<and> \<not> live_block (B ! 0)" and bc: "0 < bc"
    and erase: "erase_tears torn (make_free_buf bs (op_free_pattern op))"
  shows "triple (store_ok (dev_at bs bc) bs bc op Bs) (store_delete oc D key) (\<lambda>_ _. True)
    (\<lambda>e s. \<exists>Bs'. list_all2 (old_or_new bs bc (key_str key) (\<lambda>B. None)) Bs Bs' \<and> store_media (dev_at bs bc) op Bs' s)"
proof (rule triple_assume [where A = "\<forall>B \<in> set Bs. length B = unat bc"])
  let ?free = "make_free_buf bs (op_free_pattern op)"
  let ?R = "old_or_new bs bc (key_str key) (\<lambda>B. None)"
  let ?dev = "\<lambda>B (r :: 'd replica). dev_at bs bc B (rp_dev r)"
  assume len: "\<forall>B \<in> set Bs. length B = unat bc"
  have dead: "\<not> live_block ?free" using free_byte_block [OF fp, of bs] bs free_not_live by simp
  have tidy: "\<And>B. B \<in> set Bs \<Longrightarrow> tidy bs bc B" using each by simp
  have ok: "?dev B r" if "rep_ok (dev_at bs bc) bs bc B r" for B r
    using that by (auto simp: rep_ok_def rep_at_def)
  have media: "\<exists>Bs'. list_all2 ?R Bs Bs' \<and> list_all2 ?dev Bs' rs"
    if "stopped_at (\<lambda>B. rep_ok (dev_at bs bc) bs bc (delete_medium bs bc B ?free (key_str key)))
      (\<lambda>B. delete_failed (dev_at bs bc) torn bs bc B ?free (key_str key)) (rep_ok (dev_at bs bc) bs bc) Bs rs" for rs
  proof (rule stopped_media [OF that])
    show "\<exists>B'. ?R B B' \<and> ?dev B' r"
      if "B \<in> set Bs" "rep_ok (dev_at bs bc) bs bc (delete_medium bs bc B ?free (key_str key)) r" for B r
      using ok [OF that(2)] that(1) each delete_medium_effect(1) [OF _ dead] delete_medium_block0
      unfolding old_or_new_def by blast
    show "\<exists>B'. ?R B B' \<and> ?dev B' r"
      if "B \<in> set Bs" "delete_failed (dev_at bs bc) torn bs bc B ?free (key_str key) r" for B r
      using that len each delete_failed_effect [OF _ _ dead erase _ bc] unfolding delete_failed_def rep_at_def by blast
    show "\<exists>B'. ?R B B' \<and> ?dev B' r" if "rep_ok (dev_at bs bc) bs bc B r" for B r
      using that ok old_or_new_refl by blast
  qed
  have refl: "list_all2 ?R Bs Bs" by (rule list.rel_refl) (rule old_or_new_refl)
  show ?thesis
  proof (rule triple_conseq [OF store_delete_spec [OF bs fp tidy, where oc = oc and key = key and Bs = Bs]], goal_cases)
    case (4 e s)
    then show ?case
    proof (elim disjE conjE)
      assume "store_ok (dev_at bs bc) bs bc op Bs s"
      then have "store_media (dev_at bs bc) op Bs s"
        using ok unfolding store_ok_def store_media_def by (auto elim!: list_all2_mono)
      with refl show ?thesis by blast
    qed (use media in \<open>auto simp: store_media_def\<close>)
  qed (use each in auto)
qed (use store_ok_length in blast)

text \<open>The sessions after a crash: recovery and index of whatever media were left.\<close>

lemma recover_build:
  assumes bs: "36 \<le> unat bs" and fp: "free_byte (op_free_pattern op)"
  shows "triple (store_media (dev_at bs bc) op Bs) (bind_io (store_recover oc D) (\<lambda>_. store_build_index oc D))
    (\<lambda>_ s. \<exists>Bs'. list_all2 (\<lambda>B B'. latest bs bc B' = latest bs bc B \<and> tidy bs bc B') Bs Bs' \<and>
       store_ok (dev_at bs bc) bs bc op Bs' s)
    (\<lambda>e s. fault e)"
proof (rule triple_assume [where A = "\<forall>B \<in> set Bs. length B = unat bc"])
  let ?free = "make_free_buf bs (op_free_pattern op)"
  let ?f = "\<lambda>B. recover_medium bs bc B ?free"
  assume len: "\<forall>B \<in> set Bs. length B = unat bc"
  have free: "free_block ?free" using free_byte_block [OF fp, of bs] bs by simp
  have media: "list_all2 (\<lambda>B B'. latest bs bc B' = latest bs bc B \<and> tidy bs bc B') Bs (map ?f Bs)"
    using len recover_medium_effect [OF _ free] by (simp add: list_all2_map2 list_all2_same)
  have build: "triple (store_media (dev_at bs bc) op (map ?f Bs)) (store_build_index oc D)
      (\<lambda>_ s. \<exists>Bs'. list_all2 (\<lambda>B B'. latest bs bc B' = latest bs bc B \<and> tidy bs bc B') Bs Bs' \<and>
         store_ok (dev_at bs bc) bs bc op Bs' s) (\<lambda>e s. fault e)"
    by (rule triple_conseq [OF store_build_index_spec [OF bs]]) (use media in auto)
  have recover: "triple (store_media (dev_at bs bc) op Bs) (store_recover oc D)
      (\<lambda>_. store_media (dev_at bs bc) op (map ?f Bs)) (\<lambda>e s. fault e)"
    by (rule triple_conseq [OF store_recover_spec [OF bs]]) auto
  show "triple (store_media (dev_at bs bc) op Bs) (bind_io (store_recover oc D) (\<lambda>_. store_build_index oc D))
    (\<lambda>_ s. \<exists>Bs'. list_all2 (\<lambda>B B'. latest bs bc B' = latest bs bc B \<and> tidy bs bc B') Bs Bs' \<and>
       store_ok (dev_at bs bc) bs bc op Bs' s) (\<lambda>e s. fault e)"
    by (rule triple_bind [OF recover build])
next
  fix s
  assume "store_media (dev_at bs bc) op Bs s"
  then show "\<forall>B \<in> set Bs. length B = unat bc"
    using dev_length by (fastforce simp: store_media_def list_all2_conv_all_nth in_set_conv_nth)
qed

end

section \<open>The session after a crash\<close>

text \<open>
  When the power is back the files are opened again, and no further faults occur. What a store shows
  of itself is the result of \<^verbatim>\<open>get\<close> for every key.
\<close>

definition power_cycle :: "file_device \<Rightarrow> file_device outcome" where
  "power_cycle d =
     file_device_open [''store.ekv'' \<mapsto> file_content (fd_file d)] [] ''store.ekv'' (fd_block_size d)"

definition reads_as :: "bool \<Rightarrow> 'd block_device \<Rightarrow> (bytes \<rightharpoonup> bytes) \<Rightarrow> 'd store \<Rightarrow> bool" where
  "reads_as oc D m s \<longleftrightarrow> (\<forall>k. fst (store_get oc D k s) =
     (case m (key_str k) of None \<Rightarrow> Err KeyNotFound | Some v \<Rightarrow> Ok v))"

lemma reads_asD:
  "reads_as oc D m s \<Longrightarrow> m (key_str k) = Some v \<Longrightarrow> fst (store_get oc D k s) = Ok v"
  by (simp add: reads_as_def)

lemma list_all2_set2: "list_all2 P xs ys \<Longrightarrow> y \<in> set ys \<Longrightarrow> \<exists>x \<in> set xs. P x y"
  by (induction rule: list_all2_induct) auto

lemma power_cycle_at:
  assumes "file_at bs bc B d" and "0 < unat bs"
  shows "\<exists>d'. power_cycle d = Ok d' \<and> quiet_at bs bc B d'"
proof -
  have "length (concat B) = unat bc * unat bs"
    using assms(1) length_concat_blocks [of B "unat bs"] by (simp add: file_at_def)
  then show ?thesis
    using assms
    by (auto simp: power_cycle_def file_device_open_def next_event_def file_at_def quiet_at_def Let_def)
qed

lemma power_cycle_all:
  assumes "list_all2 (file_at bs bc) Bs devs" and "0 < unat bs"
  shows "\<exists>devs'. map power_cycle devs = map Ok devs' \<and> list_all2 (quiet_at bs bc) Bs devs'"
  using assms(1)
proof (induction rule: list_all2_induct)
  case (Cons B Bs d devs)
  with power_cycle_at [OF Cons.hyps(1) assms(2)] show ?case by (metis list.rel_intros(2) list.simps(9))
qed simp

lemma restart:
  assumes geo: "36 \<le> unat bs" "0 < bc" and Bs: "Bs \<noteq> []" "\<forall>B \<in> set Bs. header_error bs bc (B ! 0) = None"
    and fp: "free_byte (op_free_pattern op)" and devs: "list_all2 (file_at bs bc) Bs devs"
  shows "\<exists>devs' s1 s2 s3 Bs'. map power_cycle devs = map Ok devs' \<and> open_store oc file_dev devs' op = Ok s1 \<and>
    store_recover oc file_dev s1 = (Ok (), s2) \<and> store_build_index oc file_dev s2 = (Ok (), s3) \<and>
    list_all2 (\<lambda>B B'. latest bs bc B' = latest bs bc B \<and> tidy bs bc B') Bs Bs' \<and>
    store_ok (quiet_at bs bc) bs bc op Bs' s3"
proof -
  have "0 < unat bs" using geo(1) by simp
  from power_cycle_all [OF devs this] obtain devs' where
    devs': "map power_cycle devs = map Ok devs'" "list_all2 (quiet_at bs bc) Bs devs'" by blast
  have "32 \<le> unat bs" using geo(1) by simp
  from rfile.open_headers [OF this geo(2) Bs devs'(2)] obtain s1 where
    s1: "open_store oc file_dev devs' op = Ok s1" "store_media (quiet_at bs bc) op Bs s1" by blast
  from rfile.recover_build [OF geo(1) fp, where oc = oc] s1(2) obtain s2 s3 Bs' where
    "store_recover oc file_dev s1 = (Ok (), s2)" "store_build_index oc file_dev s2 = (Ok (), s3)"
    "list_all2 (\<lambda>B B'. latest bs bc B' = latest bs bc B \<and> tidy bs bc B') Bs Bs'"
    "store_ok (quiet_at bs bc) bs bc op Bs' s3"
    by (cases rule: triple_cases) (auto simp: bind_io_def split: prod.splits outcome.splits)
  with devs' s1 show ?thesis by blast
qed

lemma reads_as_restart:
  assumes kv: "kv_raw bs bc op n m Bs" and crash: "list_all2 (old_or_new bs bc ks new) Bs Bs'"
    and new: "\<forall>B \<in> set Bs. new B = new (hd Bs)"
    and newer: "\<And>r0 r. latest bs bc (hd Bs) ks = Some r0 \<Longrightarrow> new (hd Bs) = Some r \<Longrightarrow>
      r0 = r \<or> cr_generation r0 < cr_generation r"
    and media: "store_media (file_at bs bc) op Bs' s'" and fp: "free_byte (op_free_pattern op')"
  shows "\<exists>devs s1 s2 s3 m'. map power_cycle (into_devices s') = map Ok devs \<and>
    open_store oc file_dev devs op' = Ok s1 \<and> store_recover oc file_dev s1 = (Ok (), s2) \<and>
    store_build_index oc file_dev s2 = (Ok (), s3) \<and>
    (m' = m \<or> m' = m(ks := map_option cr_value (new (hd Bs)))) \<and> reads_as oc file_dev m' s3"
proof -
  let ?L = "latest bs bc (hd Bs)"
  from kv have geo: "36 \<le> unat bs" "0 < bc" "Bs \<noteq> []" and m: "m = contents bs bc (hd Bs)"
    and hdr: "\<And>B. B \<in> set Bs \<Longrightarrow> header_error bs bc (B ! 0) = None"
    and same: "\<And>B. B \<in> set Bs \<Longrightarrow> latest bs bc B = ?L"
    using latest_same_data by (auto simp: kv_raw_def lockstep_def)
  have Bs': "Bs' \<noteq> []" "\<forall>B' \<in> set Bs'. header_error bs bc (B' ! 0) = None \<and>
      (latest bs bc B' = ?L \<or> latest bs bc B' = ?L(ks := new (hd Bs)))"
  proof -
    show "Bs' \<noteq> []" using crash geo(3) by auto
    have "\<exists>B \<in> set Bs. old_or_new bs bc ks new B B'" if "B' \<in> set Bs'" for B'
      using crash that by (rule list_all2_set2)
    then show "\<forall>B' \<in> set Bs'. header_error bs bc (B' ! 0) = None \<and>
      (latest bs bc B' = ?L \<or> latest bs bc B' = ?L(ks := new (hd Bs)))"
      using hdr same new unfolding old_or_new_def by metis
  qed
  have hdr': "\<forall>B' \<in> set Bs'. header_error bs bc (B' ! 0) = None" using Bs'(2) by blast
  have "list_all2 (file_at bs bc) Bs' (into_devices s')"
    using media by (simp add: store_media_def into_devices_def list_all2_map2)
  from restart [OF geo(1,2) Bs'(1) hdr' fp this, of oc] obtain devs s1 s2 s3 Cs where
    run: "map power_cycle (into_devices s') = map Ok devs" "open_store oc file_dev devs op' = Ok s1"
      "store_recover oc file_dev s1 = (Ok (), s2)" "store_build_index oc file_dev s2 = (Ok (), s3)"
    and Cs: "list_all2 (\<lambda>B B'. latest bs bc B' = latest bs bc B \<and> tidy bs bc B') Bs' Cs"
      "store_ok (quiet_at bs bc) bs bc op' Cs s3" by blast
  have ne: "Cs \<noteq> []" using Cs(1) Bs'(1) by auto
  have "\<exists>B' \<in> set Bs'. latest bs bc C = latest bs bc B'" if "C \<in> set Cs" for C
    using list_all2_set2 [OF Cs(1) that] by blast
  with Bs'(2) have mixed: "\<forall>C \<in> set Cs. latest bs bc C = ?L \<or> latest bs bc C = ?L(ks := new (hd Bs))" by metis
  obtain L' where L': "L' = ?L \<or> L' = ?L(ks := new (hd Bs))"
    "\<forall>k. newest cr_generation None (List.map_filter (\<lambda>B. latest bs bc B k) Cs) = L' k"
    using newest_mixed [OF ne mixed newer] by blast
  let ?m = "\<lambda>k. map_option cr_value (L' k)"
  have "reads_as oc file_dev ?m s3"
    unfolding reads_as_def
  proof
    fix k
    from rfile.get_newest [OF geo(1) Cs(2), of oc k] show "fst (store_get oc file_dev k s3) =
      (case ?m (key_str k) of None \<Rightarrow> Err KeyNotFound | Some v \<Rightarrow> Ok v)"
      by (auto simp: L'(2) [rule_format] split: option.splits)
  qed
  moreover have "?m = m \<or> ?m = m(ks := map_option cr_value (new (hd Bs)))"
    using L'(1) by (auto simp: m contents_def fun_eq_iff)
  ultimately show ?thesis using run by blast
qed

section \<open>Power loss\<close>

lemma kv_media_lockstep:
  assumes "kv_media bs bc op n m Bs"
  shows "36 \<le> unat bs" "0 < bc" "Bs \<noteq> []" "hd Bs \<in> set Bs" "free_byte (op_free_pattern op)"
    and "\<And>B. B \<in> set Bs \<Longrightarrow> same_data (hd Bs) B \<and> length B = unat bc \<and> tidy bs bc B \<and>
      gen_bound bs bc n B \<and> \<not> live_block (B ! 0)"
  using assms header_not_live by (auto simp: kv_media_def lockstep_def)

lemma tears_same_data:
  assumes "same_data B B'" and len: "length B = unat bc" and room: "has_room bs bc B key val"
    and "tears_detected torn B (put_writes bs bc B key gen val uflags)"
  shows "tears_detected torn B' (put_writes bs bc B' key gen val uflags)"
proof -
  have "B' ! unat c = B ! unat c" if "(c, b) \<in> set (put_writes bs bc B key gen val uflags)" for c b
  proof -
    from that have "c \<in> set (put_blocks bs bc B key val)"
      unfolding put_writes_blocks [OF room, of gen uflags, symmetric] by force
    with put_blocks_facts(4) [OF room] same_data_nth [OF assms(1) _ _ len] show ?thesis by simp
  qed
  with assms(4) show ?thesis
    unfolding put_same_data(2) [OF assms(1,2), symmetric] tears_detected_def by fastforce
qed

text \<open>
  Property C2: a put on \<^verbatim>\<open>FileDevice\<close> replicas is atomic under power loss. Let the store hold the map
  \<open>m\<close>, and let the put fail at any system call: during the search for free blocks, in the middle of
  writing a block, at a flush, or while the old record is erased, on any of the replicas. When the
  files are opened again, recovered and indexed, \<^verbatim>\<open>get\<close> returns for every key what \<open>m\<close> says, or for every
  key what \<open>m\<close> with the new value says. The only assumption on the checksum is that it detects the
  torn blocks of this put.
\<close>

theorem put_survives_power_loss:
  assumes kv: "kv_media bs bc op n m Bs" and s: "store_ok (file_at bs bc) bs bc op Bs s"
    and legal: "legal_put bs key val" and n: "n + 1 < 2 ^ 32" and fp: "free_byte (op_free_pattern op')"
    and tears: "tears_detected torn_prefix (hd Bs)
      (put_writes bs bc (hd Bs) key (top_generation bs bc Bs (key_str key) + 1) val 0)"
    and fails: "store_put oc file_dev key val s = (Err e, s')"
  shows "\<exists>devs s1 s2 s3 m'. map power_cycle (into_devices s') = map Ok devs \<and>
    open_store oc file_dev devs op' = Ok s1 \<and> store_recover oc file_dev s1 = (Ok (), s2) \<and>
    store_build_index oc file_dev s2 = (Ok (), s3) \<and>
    (m' = m \<or> m' = m(key_str key \<mapsto> val)) \<and> reads_as oc file_dev m' s3"
proof -
  let ?g = "top_generation bs bc Bs (key_str key) + 1"
  let ?new = "\<lambda>B. Some (put_record bs bc B key ?g val 0)"
  note k = kv_media_lockstep [OF kv]
  have top: "unat (top_generation bs bc Bs (key_str key)) \<le> n" using k(6) by (intro top_generation_le) blast
  then have gen: "unat (top_generation bs bc Bs (key_str key)) + 1 < 2 ^ 32" using n by simp
  then have g: "unat ?g = unat (top_generation bs bc Bs (key_str key)) + 1" by (subst unat_u32_add) simp_all
  have sizes: "length key < 2 ^ 32" "36 + length key \<le> unat bs \<Longrightarrow> length key < 2 ^ 16" "length val < 2 ^ 32"
    using legal by (auto simp: legal_put_def key_too_long_def)
  have erase: "erase_tears torn_prefix (make_free_buf bs (op_free_pattern op))"
    using k(1,5) by (intro erase_tears_prefix) simp_all
  have tears': "tears_detected torn_prefix B (put_writes bs bc B key ?g val 0)"
    if "B \<in> set Bs" "has_room bs bc B key val" for B
    using tears_same_data [OF _ _ _ tears] that k(4,6) put_same_data(1) by blast
  have h0: "\<forall>B \<in> set Bs. \<not> live_block (B ! 0)" using k(6) by blast
  have "triple (store_ok (file_at bs bc) bs bc op Bs) (store_put_flagged oc file_dev key val 0) (\<lambda>_ _. True)
      (\<lambda>e s. \<exists>Bs'. list_all2 (old_or_new bs bc (key_str key) ?new) Bs Bs' \<and> store_media (file_at bs bc) op Bs' s)"
    by (rule disk.put_crash [OF k(1) sizes k(3) gen k(5) h0 k(2) erase tears'])
  from triple_Err [OF this s fails [unfolded store_put_def]] obtain Bs' where
    Bs': "list_all2 (old_or_new bs bc (key_str key) ?new) Bs Bs'" "store_media (file_at bs bc) op Bs' s'" by blast
  have new: "\<forall>B \<in> set Bs. ?new B = ?new (hd Bs)"
    by (intro ballI arg_cong [where f = Some] put_same_data(3) [symmetric]) (use k(4,6) in blast)+
  have newer: "r0 = r \<or> cr_generation r0 < cr_generation r"
    if "latest bs bc (hd Bs) (key_str key) = Some r0" "?new (hd Bs) = Some r" for r0 r
    using top_generation_bound [OF k(4) that(1)] that(2) g by (auto simp: word_le_nat_alt word_less_nat_alt)
  from kv have "kv_raw bs bc op n m Bs" by (simp add: kv_media_raw)
  from reads_as_restart [OF this Bs'(1) new newer Bs'(2) fp, of oc] show ?thesis by simp
qed

theorem put_survives_power_loss_witness:
  "\<exists>s s' devs s1 s2 s3 m'. store_put True file_dev [1] [7] s = (Err (Io (Os 5)), s') \<and>
    map power_cycle (into_devices s') = map Ok devs \<and>
    open_store True file_dev devs options_new = Ok s1 \<and> store_recover True file_dev s1 = (Ok (), s2) \<and>
    store_build_index True file_dev s2 = (Ok (), s3) \<and>
    (m' = Map.empty \<or> m' = [key_str [1] \<mapsto> [7]]) \<and> reads_as True file_dev m' s3"
proof -
  obtain s' where fails: "store_put True file_dev [1] [7] (file_store [Fine, Fine, Fine, Fails 5 10] torn_medium mi_new) =
      (Err (Io (Os 5)), s')" using torn_put_fails by blast
  have gen: "top_generation 64 4 [torn_medium] ks = 0" for ks
    by (simp add: top_generation_def torn_medium_facts)
  show ?thesis
    using put_survives_power_loss [OF torn_medium_facts(1) torn_medium_facts(5) _ _ _ _ fails, of options_new]
      torn_medium_tears fails
    by (simp add: gen legal_put_def key_too_long_def free_byte_def options_new_def) blast
qed



text \<open>
  Property C5: recovery is itself safe under power loss. Let the replicas have valid headers and the
  same data blocks, with whatever garbage, and let \<open>m\<close> be the map of their latest records. When
  \<^verbatim>\<open>recover\<close> fails at any system call, also in the middle of erasing a block, then the files opened
  again, recovered and indexed read as \<open>m\<close>.
\<close>

theorem recover_survives_power_loss:
  assumes raw: "kv_raw bs bc op n m Bs" and s: "store_media (file_at bs bc) op Bs s"
    and fp: "free_byte (op_free_pattern op')" and fails: "store_recover oc file_dev s = (Err e, s')"
  shows "\<exists>devs s1 s2 s3. map power_cycle (into_devices s') = map Ok devs \<and>
    open_store oc file_dev devs op' = Ok s1 \<and> store_recover oc file_dev s1 = (Ok (), s2) \<and>
    store_build_index oc file_dev s2 = (Ok (), s3) \<and> reads_as oc file_dev m s3"
proof -
  from raw have geo: "36 \<le> unat bs" "free_byte (op_free_pattern op)" "0 < bc" and len: "\<forall>B \<in> set Bs. length B = unat bc"
    and Bs: "Bs \<noteq> []" "lockstep Bs"
    by (auto simp: kv_raw_def lockstep_def)
  let ?free = "make_free_buf bs (op_free_pattern op)"
  let ?new = "\<lambda>B. latest bs bc B []"
  have erase: "erase_tears torn_prefix ?free" using geo by (intro erase_tears_prefix) simp_all
  have free: "free_block ?free" using free_byte_block [OF geo(2), of bs] geo(1) by simp
  have keep: "old_or_new bs bc [] ?new B B'"
    if "length B = unat bc" "partial_write torn_prefix B (recover_writes bs bc B ?free) B'" for B B'
  proof -
    have "0 \<notin> fst ` set (recover_writes bs bc B ?free)"
      by (auto simp: recover_writes_def garbage_writes_def kept_blocks_def)
    from partial_write_block0 [OF that(2) this] that(1) geo(3) have "B' ! 0 = B ! 0"
      by (simp add: word_less_nat_alt)
    with recover_keeps_latest(1) [OF that(2) [unfolded recover_writes_def] free_not_live [OF free] erase]
    show ?thesis by (auto simp: old_or_new_def fun_eq_iff)
  qed
  have full: "partial_write torn_prefix B (recover_writes bs bc B ?free) (recover_medium bs bc B ?free)" for B
    unfolding recover_medium_def
    by (rule partial_write_all) (simp add: recover_writes_def garbage_writes_def comp_def distinct_data_blocks)
  from triple_Err [OF disk.store_recover_spec [OF geo(1)] s fails]
  have st: "st_opts s' = op" and stop: "stopped_at
      (\<lambda>B r. file_at bs bc (recover_medium bs bc B ?free) (rp_dev r))
      (\<lambda>B r. \<exists>B'. partial_write torn_prefix B (recover_writes bs bc B ?free) B' \<and> file_at bs bc B' (rp_dev r))
      (\<lambda>B r. file_at bs bc B (rp_dev r)) Bs (st_replicas s')" by simp_all
  have "\<exists>Bs'. list_all2 (old_or_new bs bc [] ?new) Bs Bs' \<and>
      list_all2 (\<lambda>B r. file_at bs bc B (rp_dev r)) Bs' (st_replicas s')"
    by (rule stopped_media [OF stop]) (use len keep full old_or_new_refl in blast)+
  then obtain Bs' where Bs': "list_all2 (old_or_new bs bc [] ?new) Bs Bs'" "store_media (file_at bs bc) op Bs' s'"
    using st by (auto simp: store_media_def)
  have new: "\<forall>B \<in> set Bs. ?new B = ?new (hd Bs)"
    using Bs(2) latest_same_data by (fastforce simp: lockstep_def)
  have m: "m(ks := map_option cr_value (latest bs bc (hd Bs) ks)) = m" for ks
    using raw by (auto simp: kv_raw_def contents_def)
  from reads_as_restart [OF raw Bs'(1) new _ Bs'(2) fp, of oc] show ?thesis by (simp add: m)
qed

theorem recover_survives_power_loss_witness:
  "\<exists>s s' devs s1 s2 s3. store_recover True file_dev s = (Err (Io (Os 5)), s') \<and>
    map power_cycle (into_devices s') = map Ok devs \<and>
    open_store True file_dev devs options_new = Ok s1 \<and> store_recover True file_dev s1 = (Ok (), s2) \<and>
    store_build_index True file_dev s2 = (Ok (), s3) \<and> reads_as True file_dev [key_str [1] \<mapsto> [7]] s3"
proof -
  obtain s' where fails: "store_recover True file_dev (file_store [Fails 5 0] stored stored_index) =
      (Err (Io (Os 5)), s')" using stored_recover_fails by blast
  have raw: "kv_raw 64 4 options_new 1 [key_str [1] \<mapsto> [7]] [stored]"
    using stored_facts(1) by (simp add: kv_media_raw)
  have media: "store_media (file_at 64 4) options_new [stored] (file_store [Fails 5 0] stored stored_index)"
    using stored_facts(2) [of "[Fails 5 0]"]
    by (auto simp: store_ok_def store_media_def file_store_def rep_ok_def rep_at_def)
  have "free_byte (op_free_pattern options_new)" by (simp add: free_byte_def options_new_def)
  from recover_survives_power_loss [OF raw media this fails] fails show ?thesis by blast
qed

end
