(* ===== verification/Ekv_Machine.thy ===== *)
theory Ekv_Machine
  imports Ekv_Crash
begin

text \<open>
  The life of a store as a state machine: format and open fresh devices, then any calls, interleaved
  with closing and reopening the store, with or without a recovery. The map \<open>m\<close> that goes with a
  state is what a client knows from the replies it got.
\<close>

section \<open>Reachable stores\<close>

text \<open>The map a client expects after a call, given the reply.\<close>

fun expects :: "kv_op \<Rightarrow> kv_reply \<Rightarrow> (bytes \<rightharpoonup> bytes) \<Rightarrow> (bytes \<rightharpoonup> bytes)" where
  "expects (Put k v) Done m = m(key_str k \<mapsto> v)"
| "expects (Delete k) Done m = m(key_str k := None)"
| "expects _ _ m = m"

fun legal_call :: "u32 \<Rightarrow> kv_op \<Rightarrow> bool" where
  "legal_call bs (Put k v) \<longleftrightarrow> legal_put bs k v"
| "legal_call bs _ \<longleftrightarrow> True"

abbreviation store_call :: "bool \<Rightarrow> 'd block_device \<Rightarrow> kv_op \<Rightarrow> 'd store \<Rightarrow> kv_reply \<times> 'd store" where
  "store_call oc D \<equiv> kv_call (store_get oc D) (store_put oc D) (store_delete oc D)"

text \<open>\<open>new\<close> tells the devices that were just created; \<open>n\<close> counts the calls.\<close>

inductive kv_run ::
    "bool \<Rightarrow> 'd block_device \<Rightarrow> u32 \<Rightarrow> ('d list \<Rightarrow> bool) \<Rightarrow> nat \<Rightarrow> (bytes \<rightharpoonup> bytes) \<Rightarrow> 'd store \<Rightarrow> bool"
  for oc D bs new where
  start: "new devs \<Longrightarrow> unat (op_replica_id op) + length devs \<le> 2 ^ 32 \<Longrightarrow> free_byte (op_free_pattern op') \<Longrightarrow>
    format_store oc D op devs = (Ok (), devs') \<Longrightarrow> open_store oc D devs' op' = Ok s \<Longrightarrow>
    store_build_index oc D s = (Ok (), s') \<Longrightarrow> kv_run oc D bs new 0 Map.empty s'"
| call: "kv_run oc D bs new n m s \<Longrightarrow> legal_call bs c \<Longrightarrow> n + 1 < 2 ^ 32 \<Longrightarrow>
    store_call oc D c s = (r, s') \<Longrightarrow> kv_run oc D bs new (n + 1) (expects c r m) s'"
| reopened: "kv_run oc D bs new n m s \<Longrightarrow> free_byte (op_free_pattern op) \<Longrightarrow>
    open_store oc D (into_devices s) op = Ok s1 \<Longrightarrow> store_build_index oc D s1 = (Ok (), s2) \<Longrightarrow>
    kv_run oc D bs new n m s2"
| recovered: "kv_run oc D bs new n m s \<Longrightarrow> free_byte (op_free_pattern op) \<Longrightarrow>
    open_store oc D (into_devices s) op = Ok s1 \<Longrightarrow> store_recover oc D s1 = (Ok (), s2) \<Longrightarrow>
    store_build_index oc D s2 = (Ok (), s3) \<Longrightarrow> kv_run oc D bs new n m s3"

lemma kv_step_expects: "kv_step long m c r m' \<Longrightarrow> m' = expects c r m"
  by (cases c) (auto simp: kv_step_Put kv_step_Get kv_step_Delete)

section \<open>Keys\<close>

lemma key_set_eq: "key_set s = (\<Union>r \<in> set (st_replicas s). ie_key ` set (mi_all_entries (rp_index r)))"
proof -
  have inner: "fold (\<lambda>e S. insert (ie_key e) S) es S = ie_key ` set es \<union> S" for es S
    by (induction es arbitrary: S) auto
  have "fold (\<lambda>r S. fold (\<lambda>e S. insert (ie_key e) S) (mi_all_entries (rp_index r)) S) rs S =
      (\<Union>r \<in> set rs. ie_key ` set (mi_all_entries (rp_index r))) \<union> S" for rs :: "'a replica list" and S
    by (induction rs arbitrary: S) (auto simp: inner)
  from this [of "st_replicas s" "{}"] show ?thesis by (simp add: key_set_def)
qed

lemma index_keys:
  assumes "index_ok bs bc B ix"
  shows "ie_key ` set (mi_all_entries ix) = dom (latest bs bc B)"
proof -
  note ix = index_ok_get [OF assms]
  have "k \<in> ie_key ` set (mi_all_entries ix) \<longleftrightarrow> mi_get ix k \<noteq> None" for k
  proof
    assume "k \<in> ie_key ` set (mi_all_entries ix)"
    then show "mi_get ix k \<noteq> None" using mi_all_entries_get [OF ix(2)] by auto
  next
    assume "mi_get ix k \<noteq> None"
    then obtain e where e: "mi_get ix k = Some e" by blast
    then have "e \<in> set (mi_all_entries ix)" "ie_key e = k"
      using mi_all_entries_get [OF ix(2), of e] mi_get_key [OF ix(2) e] by simp_all
    then show "k \<in> ie_key ` set (mi_all_entries ix)" by blast
  qed
  with ix(1) show ?thesis by (simp add: set_eq_iff domIff)
qed

lemma key_set_media:
  assumes "store_ok dev bs bc op Bs s"
  shows "key_set s = (\<Union>B \<in> set Bs. dom (latest bs bc B))"
proof -
  have "list_all2 (\<lambda>B r. ie_key ` set (mi_all_entries (rp_index r)) = dom (latest bs bc B)) Bs (st_replicas s)"
    using assms index_keys unfolding store_ok_def rep_ok_def rep_at_def by (fastforce elim!: list_all2_mono)
  then have "(\<Union>r \<in> set (st_replicas s). ie_key ` set (mi_all_entries (rp_index r))) =
      (\<Union>B \<in> set Bs. dom (latest bs bc B))"
    by (induction rule: list_all2_induct) simp_all
  then show ?thesis by (simp add: key_set_eq)
qed

lemma key_set_holds:
  assumes "store_holds dev bs n m s"
  shows "key_set s = dom m"
proof -
  from assms obtain bc op Bs where kv: "kv_media bs bc op n m Bs" and s: "store_ok (dev bs bc) bs bc op Bs s"
    by (auto simp: store_holds_def)
  then have "dom (latest bs bc B) = dom m" if "B \<in> set Bs" for B
    using latest_same_data [of "hd Bs" B bs bc] that by (auto simp: kv_media_def lockstep_def contents_def)
  moreover have "Bs \<noteq> []" using kv by (simp add: kv_media_def lockstep_def)
  ultimately show ?thesis using key_set_media [OF s] by auto
qed

section \<open>The invariant\<close>

text \<open>New devices: the same geometry, and no record anywhere.\<close>

definition blank_devs :: "(u32 \<Rightarrow> u32 \<Rightarrow> bytes list \<Rightarrow> 'd \<Rightarrow> bool) \<Rightarrow> u32 \<Rightarrow> 'd list \<Rightarrow> bool" where
  "blank_devs dev bs devs \<longleftrightarrow> (\<exists>bc. 0 < bc \<and> devs \<noteq> [] \<and>
     list_all2 (dev bs bc) (replicate (length devs) (replicate (unat bc) (replicate (unat bs) 0))) devs)"

context reliable_device
begin

lemma holds_reads_as: "store_holds dev_at bs n m s \<Longrightarrow> reads_as oc D m s"
  unfolding reads_as_def
proof
  fix k
  assume s: "store_holds dev_at bs n m s"
  show "fst (store_get oc D k s) = (case m (key_str k) of None \<Rightarrow> Err KeyNotFound | Some v \<Rightarrow> Ok v)"
    by (cases rule: triple_cases [OF kv_get [where oc = oc and k = k] s]) auto
qed

lemma blank_start:
  assumes "36 \<le> unat bs" and "blank_devs dev_at bs devs" and "unat (op_replica_id op) + length devs \<le> 2 ^ 32"
    and "free_byte (op_free_pattern op')"
  shows "\<exists>devs' s s'. format_store oc D op devs = (Ok (), devs') \<and> open_store oc D devs' op' = Ok s \<and>
    store_build_index oc D s = (Ok (), s') \<and> store_holds dev_at bs 0 Map.empty s'"
proof -
  from assms(2) obtain bc where bc: "0 < bc" "devs \<noteq> []" and
    devs: "list_all2 (dev_at bs bc) (replicate (length devs) (replicate (unat bc) (replicate (unat bs) 0))) devs"
    unfolding blank_devs_def by blast
  show ?thesis
    by (rule format_open_fresh [OF devs _ assms(1) bc(1) _ assms(4)])
      (use assms(1,3) bc(2) in \<open>auto simp: live_block_def hd_replicate\<close>)
qed

lemma reopen_recover:
  assumes "store_holds dev_at bs n m s" and op: "free_byte (op_free_pattern op)"
  shows "\<exists>s1 s2 s3. open_store oc D (into_devices s) op = Ok s1 \<and> store_recover oc D s1 = (Ok (), s2) \<and>
    store_build_index oc D s2 = (Ok (), s3) \<and> store_holds dev_at bs n m s3"
proof -
  from assms(1) obtain bc op' Bs where kv: "kv_media bs bc op' n m Bs"
    and s: "store_ok (dev_at bs bc) bs bc op' Bs s" by (auto simp: store_holds_def)
  from kv op have "kv_raw bs bc op n m Bs" by (auto simp: kv_media_raw intro: kv_raw_options)
  from open_recover_build [OF this into_devices_media [where dev = dev_at, OF s]] show ?thesis .
qed

lemma run_holds:
  assumes "36 \<le> unat bs" and "kv_run oc D bs new n m s" and new: "\<And>devs. new devs \<Longrightarrow> blank_devs dev_at bs devs"
  shows "store_holds dev_at bs n m s"
  using assms(2)
proof (induction rule: kv_run.induct)
  case (start devs op op' devs' s s')
  from blank_start [OF assms(1) new [OF start.hyps(1)] start.hyps(2,3), of oc] start.hyps(4-6) show ?case by auto
next
  case (call n m s c r s')
  have "\<exists>r s' m'. store_call oc D c s = (r, s') \<and> kv_step (key_too_long bs) m c r m' \<and> store_holds dev_at bs (n + 1) m' s'"
    by (rule kv.call_refines [OF call.IH]) (use call.hyps in auto)
  with call.hyps(4) show ?case using kv_step_expects by auto
next
  case (reopened n m s op s1 s2)
  from reopen [OF reopened.IH reopened.hyps(2), of oc] reopened.hyps(3,4) show ?case by auto
next
  case (recovered n m s op s1 s2 s3)
  from reopen_recover [OF recovered.IH recovered.hyps(2), of oc] recovered.hyps(3-5) show ?case by auto
qed

end

section \<open>New devices\<close>

definition created_files :: "u32 \<Rightarrow> file_device list \<Rightarrow> bool" where
  "created_files bs devs \<longleftrightarrow>
     devs \<noteq> [] \<and> (\<exists>bc. 0 < bc \<and> (\<forall>d \<in> set devs. file_device_create [] bs bc = Ok d))"

lemma blank_mem: "0 < r \<Longrightarrow> 0 < bc \<Longrightarrow> blank_devs mem_at bs (replicate r (mem_new bs bc))"
  unfolding blank_devs_def by (intro exI [of _ bc]) (simp add: list_all2_conv_all_nth mem_at_new)

lemma created_at:
  assumes "file_device_create [] bs bc = Ok d"
  shows "quiet_at bs bc (replicate (unat bc) (replicate (unat bs) 0)) d"
proof -
  have "mem_data (mem_new bs bc) = concat (replicate (unat bc) (replicate (unat bs) 0))"
    using mem_at_new [of bs bc] by (simp add: mem_at_def)
  then have "concat (replicate (unat bc) (replicate (unat bs) 0)) = replicate (unat bs * unat bc) (0 :: u8)"
    by (simp add: mem_new_def)
  with assms show ?thesis
    by (auto simp: file_device_create_def next_event_def quiet_at_def file_at_def)
qed

lemma blank_files: "created_files bs devs \<Longrightarrow> blank_devs quiet_at bs devs"
  unfolding created_files_def blank_devs_def
  by (auto simp: list_all2_conv_all_nth created_at)

text \<open>The example store, without faults.\<close>

lemma stored_holds:
  "store_holds quiet_at 64 1 [key_str [1] \<mapsto> [7]] (file_store [] stored stored_index)"
  "store_ok (quiet_at 64 4) 64 4 options_new [stored] (file_store [] stored stored_index)"
proof -
  show s: "store_ok (quiet_at 64 4) 64 4 options_new [stored] (file_store [] stored stored_index)"
    using stored_facts(2) [of "[]"] by (auto simp: store_ok_def file_store_def rep_ok_def rep_at_def quiet_at_def)
  with stored_facts(1) show "store_holds quiet_at 64 1 [key_str [1] \<mapsto> [7]] (file_store [] stored stored_index)"
    unfolding store_holds_def by blast
qed

lemma holds_media:
  "store_holds dev bs n m s \<Longrightarrow> \<exists>bc op Bs. kv_media bs bc op n m Bs \<and> store_ok (dev bs bc) bs bc op Bs s"
  by (simp add: store_holds_def)

lemma holds_file_devices:
  assumes "store_holds quiet_at bs n m s"
  shows "\<exists>bc op Bs devs. kv_media bs bc op n m Bs \<and> map power_cycle (into_devices s) = map Ok devs \<and>
    list_all2 (quiet_at bs bc) Bs devs"
proof -
  from holds_media [OF assms] obtain bc op Bs where kv: "kv_media bs bc op n m Bs" and s: "store_ok (quiet_at bs bc) bs bc op Bs s"
    by blast
  have "list_all2 (file_at bs bc) Bs (into_devices s)"
    using into_devices_media [where dev = quiet_at, OF s] by (auto simp: quiet_at_def elim!: list_all2_mono)
  moreover have "0 < unat bs" using kv by (simp add: kv_media_def)
  ultimately show ?thesis using power_cycle_all kv by blast
qed

end
