(* ===== verification/Ekv_Limits.thy ===== *)
theory Ekv_Limits
  imports Ekv_Machine
begin

text \<open>
  Where the guarantees end: what the code does outside the conditions of the other theorems. A delete
  without a recovery, a put after one that failed, block sizes that \<^verbatim>\<open>format\<close> accepts and \<^verbatim>\<open>put\<close> does not,
  the end of the generation counter, keys that are not UTF-8, and headers of another version.
\<close>

section \<open>A delete without recovery\<close>

text \<open>A record that was written without erasing the one it replaces, as a crash may leave it.\<close>

lemma latest_written:
  assumes "length B = unat bc" and "fits_format (unat bs) key val" and "has_room bs bc B key val"
    and newer: "\<And>r0. latest bs bc B (key_str key) = Some r0 \<Longrightarrow> cr_generation r0 < gen"
  shows "latest bs bc (apply_writes (put_writes bs bc B key gen val uflags) B) =
    (latest bs bc B)(key_str key \<mapsto> put_record bs bc B key gen val uflags)"
proof (rule latest_put [OF put_complete [OF assms(1-3)] put_descriptor_block [OF assms(3)]])
  note w = put_written [OF assms(1-3), of gen uflags]
  show "complete (unat bs) B i r \<or> r = put_record bs bc B key gen val uflags"
    if "complete (unat bs) (apply_writes (put_writes bs bc B key gen val uflags) B) i r" for i r
    using that w by blast
  show "complete (unat bs) (apply_writes (put_writes bs bc B key gen val uflags) B) i r"
    if "complete (unat bs) B i r" for i r
    using that w by blast
qed (use put_newer [OF newer] in simp_all)

lemma delete_written:
  assumes "length B = unat bc" and "fits_format (unat bs) key val" and "has_room bs bc B key val"
    and newer: "\<And>r0. latest bs bc B (key_str key) = Some r0 \<Longrightarrow> cr_generation r0 < gen"
    and "\<not> live_block free"
  shows "latest bs bc (delete_medium bs bc (apply_writes (put_writes bs bc B key gen val uflags) B) free (key_str key)) =
    latest bs bc B"
proof -
  let ?B1 = "apply_writes (put_writes bs bc B key gen val uflags) B"
  let ?new = "put_record bs bc B key gen val uflags"
  note w = put_written [OF assms(1-3), of gen uflags]
  have "latest bs bc ?B1 (key_str key) = Some ?new"
    using latest_written [OF assms(1-3) newer] by simp
  then have med: "delete_medium bs bc ?B1 free (key_str key) = apply_writes (erase_writes free ?new) ?B1"
    by (simp add: delete_medium_def old_erasure_def)
  have "\<not> complete (unat bs) B (hd (put_blocks bs bc B key val)) r" for r
  proof
    assume c: "complete (unat bs) B (hd (put_blocks bs bc B key val)) r"
    have "hd (put_blocks bs bc B key val) \<in> set (put_blocks bs bc B key val)"
      using put_blocks_facts(2) [OF assms(3)] by (intro hd_in_set) auto
    from put_blocks_facts(4) [OF assms(3) this] complete_live [OF c] complete_descriptor_block [OF c] free_not_live
    show False by (auto simp: footprint_def)
  qed
  with w erase_effect [OF put_complete [OF assms(1-3)] assms(5)]
  have "complete (unat bs) (delete_medium bs bc ?B1 free (key_str key)) i r \<longleftrightarrow> complete (unat bs) B i r" for i r
    unfolding med by (metis (no_types))
  then show ?thesis by (intro ext latest_cong) blast
qed

lemma delete_run:
  fixes op
  assumes "36 \<le> unat bs" and "store_ok (mem_at bs bc) bs bc op [B] s" and "latest bs bc B (key_str key) \<noteq> None"
  defines "free \<equiv> make_free_buf bs (op_free_pattern op)"
  shows "\<exists>s'. store_delete oc mem_dev key s = (Ok (), s') \<and>
    store_media (mem_at bs bc) op [delete_medium bs bc B free (key_str key)] s'"
proof -
  obtain r h ix where s: "st_replicas s = [r]" "st_opts s = op"
    and r: "rep_at (mem_at bs bc B) h ix r" "index_ok bs bc B ix"
    using assms(2) by (auto simp: store_ok_def list_all2_Cons1 rep_ok_def)
  obtain r' where "delete_step oc mem_dev (key_str key) (op_free_pattern op) False r = (Ok True, r')"
    "mem_at bs bc (delete_medium bs bc B free (key_str key)) (rp_dev r')"
    by (cases rule: triple_cases [OF mem.delete_step_raw [OF assms(1) r(2), where oc = oc and found = False
          and ks = "key_str key" and fp = "op_free_pattern op"] r(1)])
      (use assms(3) in \<open>auto simp: free_def rep_at_def\<close>)
  with s show ?thesis
    by (simp add: store_delete_def bind_io_def on_replicas_def store_media_def)
qed

text \<open>
  Property C36: without a recovery, a delete brings back an older value. A put that a crash cuts short
  between writing the new record and erasing the old one leaves both on the medium. If the store is
  opened and indexed without \<^verbatim>\<open>recover\<close>, as its documentation allows, a delete of the key succeeds but
  erases the new record only: after the next \<^verbatim>\<open>build_index\<close> the key has its old value again.
\<close>

theorem delete_without_recover_resurrects:
  assumes B: "length B = unat bc" and fit: "fits_format (unat bs) key val" and room: "has_room bs bc B key val"
    and old: "latest bs bc B (key_str key) = Some r0" "cr_generation r0 < gen"
    and fp: "free_byte (op_free_pattern op)"
    and s: "store_ok (mem_at bs bc) bs bc op [apply_writes (put_writes bs bc B key gen val uflags) B] s"
  shows "\<exists>s1 s2 s3. store_delete oc mem_dev key s = (Ok (), s1) \<and>
    store_build_index oc mem_dev s1 = (Ok (), s2) \<and> store_get oc mem_dev key s2 = (Ok (cr_value r0), s3)"
proof -
  let ?B1 = "apply_writes (put_writes bs bc B key gen val uflags) B"
  let ?free = "make_free_buf bs (op_free_pattern op)"
  have bs: "36 \<le> unat bs" using fit by (simp add: fits_format_def)
  have dead: "\<not> live_block ?free" using free_byte_block [OF fp, of bs] bs free_not_live by simp
  have newer: "cr_generation r < gen" if "latest bs bc B (key_str key) = Some r" for r using old that by simp
  have "latest bs bc ?B1 (key_str key) \<noteq> None" using latest_written [OF B fit room newer] by simp
  from delete_run [OF bs s this] obtain s1 where s1: "store_delete oc mem_dev key s = (Ok (), s1)"
    "store_media (mem_at bs bc) op [delete_medium bs bc ?B1 ?free (key_str key)] s1" by blast
  from rmem.build_run [OF bs s1(2)] obtain s2 where s2: "store_build_index oc mem_dev s1 = (Ok (), s2)"
    "store_ok (mem_at bs bc) bs bc op [delete_medium bs bc ?B1 ?free (key_str key)] s2" by blast
  have "latest bs bc (delete_medium bs bc ?B1 ?free (key_str key)) (key_str key) = Some r0"
    using delete_written [OF B fit room newer dead] old(1) by simp
  with rmem.get_single [OF bs s2(2), of oc key] s1 s2 show ?thesis by auto
qed

theorem delete_without_recover_resurrects_witness:
  "\<exists>s s1 s2 s3. store_delete True mem_dev [1] s = (Ok (), s1) \<and>
    store_build_index True mem_dev s1 = (Ok (), s2) \<and> store_get True mem_dev [1] s2 = (Ok [7], s3)"
proof -
  let ?B1 = "apply_writes (put_writes 64 4 stored [1] 2 [8] 0) stored"
  have "36 \<le> unat (64 :: u32)" by simp
  from store_on_blocks [OF this blocks_sized_put [OF stored_facts(5) stored_room(4,2)], of options_new]
  obtain s where s: "store_ok (mem_at 64 4) 64 4 options_new [?B1] s" by blast
  have latest: "latest 64 4 stored (key_str [1]) = Some (put_record 64 4 fresh [1] 1 [7] 0)"
    by (simp add: stored_facts)
  have "\<exists>s1 s2 s3. store_delete True mem_dev [1] s = (Ok (), s1) \<and> store_build_index True mem_dev s1 = (Ok (), s2) \<and>
      store_get True mem_dev [1] s2 = (Ok (cr_value (put_record 64 4 fresh [1] 1 [7] 0)), s3)"
    by (rule delete_without_recover_resurrects [OF _ stored_room(4,2) latest _ _ s])
      (simp_all add: stored_room free_byte_def options_new_def)
  then show ?thesis by auto
qed

section \<open>A put after a failed put\<close>

lemma fd_write_block_fine:
  assumes "file_at bs bc B d" and "i < bc" and "length buf = unat bs"
    and "file_faults (fd_file d) = Fine # Fine # events"
  shows "\<exists>d'. fd_write_block i buf d = (Ok (), d') \<and> file_at bs bc (B[unat i := buf]) d' \<and> file_faults (fd_file d') = events"
proof -
  have ev: "fd_write_block i buf d = (Ok (), d') \<Longrightarrow> file_faults (fd_file d') = events" for d'
    using assms by (auto simp: fd_write_block_def on_file_def file_seek_def file_write_all_def next_event_def
        bind_io_def Let_def slice_range_def file_at_def)
  have "\<exists>d'. fd_write_block i buf d = (Ok (), d')"
    using assms by (simp add: fd_write_block_def on_file_def file_seek_def file_write_all_def next_event_def
        bind_io_def Let_def slice_range_def file_at_def)
  then obtain d' where d': "fd_write_block i buf d = (Ok (), d')" by blast
  from triple_Ok [OF fd_write_block_at [OF assms(2,3)] assms(1) d'] ev [OF d'] d' show ?thesis by blast
qed

lemma fd_flush_fails:
  assumes "file_at bs bc B d" and "file_faults (fd_file d) = [Fails code n]"
  shows "\<exists>d'. fd_flush d = (Err (Io (Os code)), d') \<and> quiet_at bs bc B d'"
  using assms by (simp add: fd_flush_def on_file_def file_sync_all_def next_event_def error_from_io_def quiet_at_def file_at_def)

text \<open>The flush of the first put fails; the record is on the medium, the index does not know it.\<close>

lemma unflushed_put:
  "\<exists>r. store_put True file_dev [1] [7] (file_store [Fine, Fine, Fine, Fine, Fails 5 0] fresh mi_new) =
     (Err (Io (Os 5)), \<lparr>st_replicas = [r], st_opts = options_new\<rparr>) \<and>
     rep_at (quiet_at 64 4 stored) (header_for 64 4 options_new 0) mi_new r"
proof -
  let ?d = "file_with [Fine, Fine, Fine, Fine, Fails 5 0] fresh"
  let ?hdr = "new_header 64 [1] 1 [7] 0 []"
  let ?new = "descriptor_block_of 64 ?hdr [1] [7]"
  have at: "file_at 64 4 fresh ?d" by (auto simp: file_at_def file_with_def fresh_def)
  have len: "length (replicate 64 (0 :: u8)) = unat (64 :: u32)" "length ?new = unat (64 :: u32)"
    by (simp_all add: descriptor_block_of_def)
  obtain d1 where d1: "fd_read_block 1 (replicate 64 0) ?d = (Ok zero_block, d1)" "file_at 64 4 fresh d1"
    "file_faults (fd_file d1) = [Fine, Fine, Fails 5 0]"
    using fd_read_block_fine [OF at _ len(1), of 1 "[Fine, Fine, Fails 5 0]"] by (auto simp: fresh_def)
  obtain d2 where d2: "fd_write_block 1 ?new d1 = (Ok (), d2)" "file_at 64 4 (fresh[unat 1 := ?new]) d2"
    "file_faults (fd_file d2) = [Fails 5 0]"
    using fd_write_block_fine [OF d1(2) _ len(2) d1(3), of 1] by auto
  have "put_writes 64 4 fresh [1] 1 [7] 0 = [(1, ?new)]"
    by (simp add: put_writes_def put_blocks_def fresh_facts extra_blocks_def first_part_def record_writes_def)
  then have st: "stored = fresh[unat 1 := ?new]"
    by (simp add: stored_def put_medium_def old_erasure_def fresh_facts apply_writes_def)
  obtain d3 where d3: "fd_flush d2 = (Err (Io (Os 5)), d3)" "quiet_at 64 4 stored d3"
    using fd_flush_fails [OF d2(2,3)] st by metis
  have bsz: "fd_block_size d1 = 64" "fd_block_size d2 = 64" using d1(2) d2(2) by (simp_all add: file_at_def)
  obtain n where n: "needed_blocks True [1] [7] 64 = Ok n" "unat n = 1"
    using needed_blocks_Ok [of 64 "[1]" "[7]" True]
    by (auto simp: fits_format_def extra_blocks_def first_part_def)
  have one: "n = 1" using n(2) by (simp add: word_unat_eq_iff)
  have cand: "is_free_candidate True zero_block = Ok True"
    using is_free_candidate_Ok [of zero_block True] by (simp add: zero_block_def free_block_def)
  have find: "find_free_blocks True file_dev n \<lparr>rp_dev = ?d, rp_header = h, rp_index = ix\<rparr> =
      (Ok [1], \<lparr>rp_dev = d1, rp_header = h, rp_index = ix\<rparr>)" for h ix
    using d1(1) cand by (simp add: find_free_blocks_def bind_io_def on_dev_def file_dev_def one four_blocks)
  have build: "build_descriptor_block True 64 hdr [1] [7] 1 = Ok (descriptor_block_of 64 hdr [1] [7])" for hdr
    using build_descriptor_block_Ok [of "[1]" 1 64 "[7]" True hdr] by simp
  have rec: "write_record True file_dev 1 [] [1] 1 [7] 0 \<lparr>rp_dev = d1, rp_header = h, rp_index = ix\<rparr> =
      (Ok (), \<lparr>rp_dev = d2, rp_header = h, rp_index = ix\<rparr>)" for h ix
    using d2(1) by (simp add: write_record_def bind_io_def on_dev_def file_dev_def first_payload_capacity_def chunk_payload_capacity_def
        layout_simps u32_sub_Ok u32_add_Ok Let_def build bsz word_le_nat_alt min_def new_header_def first_part_def slice_range_def)
  have ops: "d_block_size file_dev = fd_block_size" "d_flush file_dev = fd_flush" by (simp_all add: file_dev_def)
  show ?thesis
    using d3 by (simp add: store_put_def store_put_flagged_def bind_io_def on_replicas_def file_store_def replica_put_def on_dev_def
        max_generation_def n(1) find rec ops layout_simps u32_sub_Ok u32_add_Ok Let_def options_new_def word_le_nat_alt rep_at_def)
qed

text \<open>The second put does not know of the first record: it uses its generation again.\<close>

definition shadowed :: "bytes list" where
  "shadowed = apply_writes (put_writes 64 4 stored [1] 1 [8] 0) stored"

lemma shadowed_complete:
  "complete (unat (64 :: u32)) shadowed 1 (put_record 64 4 fresh [1] 1 [7] 0)"
  "complete (unat (64 :: u32)) shadowed 2 (put_record 64 4 stored [1] 1 [8] 0)"
  "latest 64 4 shadowed (key_str [1]) = Some (put_record 64 4 fresh [1] 1 [7] 0)"
proof -
  let ?r7 = "put_record 64 4 fresh [1] 1 [7] 0" and ?r8 = "put_record 64 4 stored [1] 1 [8] 0"
  have blocks: "put_blocks 64 4 fresh [1] [7] = [1]" "put_blocks 64 4 stored [1] [8] = [2]"
    by (simp_all add: put_blocks_def fresh_facts stored_room extra_blocks_def first_part_def)
  have eq: "stored = apply_writes (put_writes 64 4 fresh [1] 1 [7] 0) fresh"
    by (simp add: stored_def put_medium_def old_erasure_def fresh_facts)
  have none: "\<not> complete 64 fresh i r" if "0 < i" "i < 4" for i r
  proof
    assume c: "complete 64 fresh i r"
    have "\<not> live_block (fresh ! unat i)"
      using four_blocks(1) [OF that] example_blocks_dead by (auto simp: fresh_def)
    with complete_live [OF c, of i] complete_descriptor_block [OF c] show False by (auto simp: footprint_def)
  qed
  have w: "complete 64 shadowed i r \<longleftrightarrow> complete 64 fresh i r \<or> i = 1 \<and> r = ?r7 \<or> i = 2 \<and> r = ?r8" for i r
    using put_written [of stored 4 64 "[1]" "[8]" 1 0 i r] put_written [of fresh 4 64 "[1]" "[7]" 1 0 i r]
      stored_room fresh_facts by (simp add: shadowed_def blocks eq [symmetric])
  have at: "record_at 64 shadowed 1 = Some ?r7" "record_at 64 shadowed 2 = Some ?r8" "record_at 64 shadowed 3 = None"
    unfolding record_at_Some record_at_None w using none [of 3] by simp_all
  have "records_in 64 shadowed [1, 2, 3] = [?r7, ?r8]" by (simp add: at)
  then show "latest 64 4 shadowed (key_str [1]) = Some ?r7" by (simp add: latest_def four_blocks)
  show "complete (unat (64 :: u32)) shadowed 1 ?r7" "complete (unat (64 :: u32)) shadowed 2 ?r8" by (simp_all add: w)
qed

lemma second_put:
  assumes "rep_at (quiet_at 64 4 stored) h mi_new r"
  shows "\<exists>r'. store_put True file_dev [1] [8] \<lparr>st_replicas = [r], st_opts = options_new\<rparr> =
    (Ok (), \<lparr>st_replicas = [r'], st_opts = options_new\<rparr>) \<and> quiet_at 64 4 shadowed (rp_dev r')"
proof -
  let ?Q = "\<lambda>_ r. quiet_at 64 4 shadowed (rp_dev r)"
  have put: "triple (rep_at (quiet_at 64 4 stored) h mi_new) (replica_put True file_dev [1] [8] 1 0 0) ?Q (\<lambda>_ _. False)"
    by (rule rfile.replica_put_front)
      (use stored_room in \<open>auto simp: shadowed_def rep_at_def triple_def\<close>)
  obtain r' where r': "replica_put True file_dev [1] [8] 1 0 0 r = (Ok (), r')" "quiet_at 64 4 shadowed (rp_dev r')"
    by (cases rule: triple_cases [OF put assms]) auto
  have r: "rp_index r = mi_new" "d_block_size file_dev (rp_dev r) = 64"
    using assms by (auto simp: rep_at_def quiet_at_def file_at_def file_dev_def)
  show ?thesis
    using r' by (simp add: store_put_def store_put_flagged_def bind_io_def on_replicas_def max_generation_def r
        layout_simps u32_sub_Ok u32_add_Ok Let_def options_new_def word_le_nat_alt)
qed


section \<open>Arithmetic at its limits\<close>

lemma put_small_block:
  assumes "st_replicas s = r # rs" and "unat (d_block_size D (rp_dev r)) < 36"
  shows "fst (store_put_flagged True D key val uflags s) = Panic"
proof -
  let ?bs = "d_block_size D (rp_dev r)"
  have "?bs < 32 \<or> 32 \<le> ?bs \<and> ?bs - 32 < 4"
    using assms(2) by (auto simp: word_less_nat_alt word_le_nat_alt unat_sub_if')
  then have "bind_o (u32_sub True ?bs RECORD_DESCRIPTOR_HEADER_SIZE) (\<lambda>a. u32_sub True a BLOCK_CRC_SIZE) = Panic"
    by (auto simp: u32_sub_def layout_simps word_less_nat_alt word_le_nat_alt)
  then show ?thesis using assms(1) by (simp add: store_put_flagged_def bind_io_def)
qed

text \<open>
  Property C37: block sizes from 32 to 35. \<^verbatim>\<open>format\<close> and \<^verbatim>\<open>open\<close> accept them, since a storage header needs 32
  bytes only; the first put, of whatever key and value, then panics in a build with overflow checks,
  because a descriptor block needs 36 bytes.
\<close>

theorem small_block_put_panics:
  assumes "32 \<le> unat bs" and "unat bs < 36" and "0 < bc"
  shows "\<exists>devs s. format_store True mem_dev options_new [mem_new bs bc] = (Ok (), devs) \<and>
    open_store True mem_dev devs options_new = Ok s \<and> fst (store_put True mem_dev key val s) = Panic"
proof -
  let ?B = "replicate (unat bc) (replicate (unat bs) 0) :: bytes list"
  let ?B' = "?B[0 := header_block bs (header_for bs bc options_new 0)]"
  have devs: "list_all2 (mem_at bs bc) [?B] [mem_new bs bc]" using mem_at_new by simp
  from rmem.format_media [OF devs _ assms(1,3), of options_new True] obtain devs' where
    f: "format_store True mem_dev options_new [mem_new bs bc] = (Ok (), devs')" "list_all2 (mem_at bs bc) [?B'] devs'"
    by (auto simp: options_new_def)
  have "\<forall>B \<in> set [?B']. header_error bs bc (B ! 0) = None"
    using header_error_formatted [OF assms(1)] assms(3) by (simp add: word_less_nat_alt)
  from rmem.open_headers [OF assms(1,3) _ this f(2), of True options_new] obtain s where
    s: "open_store True mem_dev devs' options_new = Ok s" "store_media (mem_at bs bc) options_new [?B'] s" by auto
  from s(2) obtain r where r: "st_replicas s = [r]" "unat (d_block_size mem_dev (rp_dev r)) < 36"
    using assms(2) by (auto simp: store_media_def list_all2_Cons1 mem_at_def mem_dev_def)
  from put_small_block [OF r] f(1) s(1) show ?thesis unfolding store_put_def by blast
qed

theorem small_block_put_panics_witness:
  "\<exists>devs s. format_store True mem_dev options_new [mem_new 32 4] = (Ok (), devs) \<and>
    open_store True mem_dev devs options_new = Ok s \<and> fst (store_put True mem_dev [1] [7] s) = Panic"
  by (rule small_block_put_panics) simp_all

text \<open>
  Property C40: the generation counter ends. When some replica's index has the largest 32-bit generation
  for a key, the next put of that key panics in a build with overflow checks.
\<close>

theorem generation_overflow_panics:
  assumes "st_replicas s = r # rs" and "36 + length key \<le> unat (d_block_size D (rp_dev r))"
    and "r' \<in> set (st_replicas s)" and "mi_get (rp_index r') (key_str key) = Some e" and "ie_generation e = 0xFFFFFFFF"
  shows "fst (store_put_flagged True D key val uflags s) = Panic"
proof -
  let ?bs = "d_block_size D (rp_dev r)" and ?ks = "key_str key"
  let ?f = "\<lambda>generation r. case mi_get (rp_index r) ?ks of None \<Rightarrow> generation
       | Some e \<Rightarrow> if generation < ie_generation e then ie_generation e else generation"
  have top: "\<not> (0xFFFFFFFF :: u32) < x" for x
    using unat_u32_less [of x] by (simp add: word_less_nat_alt)
  have "foldl ?f g rs' = 0xFFFFFFFF" if "g = 0xFFFFFFFF \<or> r' \<in> set rs'" for g and rs' :: "'a replica list"
    using that
  proof (induction rs' arbitrary: g)
    case (Cons x xs)
    have "?f g x = 0xFFFFFFFF" if "g = 0xFFFFFFFF \<or> r' = x"
      using that assms(4,5) top by (auto split: option.split) (metis word_not_simps(3) not_less_iff_gr_or_eq top)
    with Cons show ?case by auto
  qed simp
  then have gen: "max_generation ?ks (st_replicas s) = 0xFFFFFFFF" using assms(3) by (simp add: max_generation_def)
  have "36 \<le> unat ?bs" "length key < 2 ^ 32" using assms(2) unat_u32_less [of ?bs] by simp_all
  note limit = key_limit(1) [OF this(1), of True] key_limit(2) [OF this]
  show ?thesis
    using assms(1,2) limit gen by (simp add: store_put_flagged_def bind_io_def Let_def u32_add_def)
qed

theorem generation_overflow_panics_witness:
  "fst (store_put_flagged True mem_dev [1] [7] 0 \<lparr>st_replicas = [\<lparr>rp_dev = mem_new 64 4,
     rp_header = header_for 64 4 options_new 0, rp_index = mi_put \<lparr>ie_key = key_str [1], ie_generation = 0xFFFFFFFF,
       ie_descriptor_block = 1, ie_total_size = 1\<rparr> mi_new\<rparr>], st_opts = options_new\<rparr>) = Panic"
  by (rule generation_overflow_panics) (auto simp: mem_dev_def mem_new_def)

section \<open>Keys that are not UTF-8\<close>


section \<open>Headers of another version\<close>

text \<open>
  Property C39: \<^verbatim>\<open>open\<close> does not look at the version. A \<^verbatim>\<open>MemDevice\<close> whose header is valid but carries any other
  major and minor version is opened like one of this version.
\<close>

theorem open_ignores_version:
  fixes bs bc op major minor
  assumes "32 \<le> unat bs" and "0 < bc" and "mem_at bs bc B d"
    and "B ! 0 = header_block bs ((header_for bs bc op 0)\<lparr>sh_version_major := major, sh_version_minor := minor\<rparr>)"
  shows "\<exists>s. open_store oc mem_dev [d] op' = Ok s \<and> map (sh_version_major \<circ> rp_header) (st_replicas s) = [major]"
proof -
  let ?h = "(header_for bs bc op 0)\<lparr>sh_version_major := major, sh_version_minor := minor\<rparr>"
  have h: "header_error bs bc (B ! 0) = None" "sh_version_major (read_storage_header (B ! 0)) = major"
    using header_block_facts [OF assms(1), of ?h] unfolding assms(4) header_error_def by (simp_all add: header_for_def)
  have ms: "list_all2 (medium_at mem_at) [(bs, bc, B)] [d]" using assms(3) by (simp add: medium_at_def)
  have "case open_store oc mem_dev [d] op' of
      Ok s \<Rightarrow> open_error None [(bs, bc, B)] = None \<and> list_all2 (opened_at mem_at) [(bs, bc, B)] (st_replicas s) \<and> st_opts s = op'
    | Err e \<Rightarrow> False \<or> open_error None [(bs, bc, B)] = Some e
    | Panic \<Rightarrow> False"
    by (rule mem.open_store_spec [OF ms]) (use assms(2) in auto)
  with h assms(1) show ?thesis
    by (cases "open_store oc mem_dev [d] op'") (auto simp: list_all2_Cons1 opened_at_def rep_at_def)
qed

theorem open_ignores_version_witness:
  "\<exists>d s. open_store True mem_dev [d] options_new = Ok s \<and> map (sh_version_major \<circ> rp_header) (st_replicas s) = [9]"
proof -
  let ?h = "(header_for 64 2 options_new 0)\<lparr>sh_version_major := 9, sh_version_minor := 3\<rparr>"
  let ?B = "[header_block 64 ?h, zero_block]"
  have "length (header_block 64 ?h) = 64" using header_block_facts(1) [of 64 ?h] by simp
  then have at: "mem_at 64 2 ?B \<lparr>mem_block_size = 64, mem_block_count = 2, mem_data = concat ?B\<rparr>"
    by (simp add: mem_at_def)
  have geo: "32 \<le> unat (64 :: u32)" "(0 :: u32) < 2" and h: "?B ! 0 = header_block 64 ?h" by simp_all
  from open_ignores_version [OF geo at h, of True options_new] show ?thesis by (rule exI)
qed

end
