(* ===== verification/Ekv_Bounds.thy ===== *)
theory Ekv_Bounds
  imports Ekv_Encode
begin

text \<open>
  Bounds: how many blocks reading a record takes at most, whatever the medium holds, and that the
  number of blocks a record is given is the least one that suffices.
\<close>

section \<open>Counting reads\<close>

text \<open>A device that counts the calls of \<^verbatim>\<open>read_block\<close>.\<close>

definition counted :: "'d block_device \<Rightarrow> ('d \<times> nat) block_device" where
  "counted D = \<lparr>d_block_size = \<lambda>(d, n). d_block_size D d, d_block_count = \<lambda>(d, n). d_block_count D d,
     d_read_block = \<lambda>i buf (d, n). (case d_read_block D i buf d of (x, d') \<Rightarrow> (x, d', n + 1)),
     d_write_block = \<lambda>i buf (d, n). (case d_write_block D i buf d of (x, d') \<Rightarrow> (x, d', n)),
     d_flush = \<lambda>(d, n). (case d_flush D d of (x, d') \<Rightarrow> (x, d', n)),
     d_close = \<lambda>(d, n). d_close D d\<rparr>"

lemma counted_simps [simp]:
  "d_block_size (counted D) (d, n) = d_block_size D d" "d_block_count (counted D) (d, n) = d_block_count D d"
  "d_read_block (counted D) i buf (d, n) = (case d_read_block D i buf d of (x, d') \<Rightarrow> (x, d', n + 1))"
  by (simp_all add: counted_def)

text \<open>The number of reads after a computation on a counting device.\<close>

definition reads :: "('d \<times> nat, 'a) io \<Rightarrow> 'd \<times> nat \<Rightarrow> nat" where
  "reads m s = snd (snd (m s))"

lemma reads_simps [simp]:
  "reads (return_io x) (d, n) = n" "reads (fail_io e) (d, n) = n" "reads (lift_io y) (d, n) = n"
  by (simp_all add: reads_def split: outcome.split)

lemma reads_lift_bind:
  assumes "\<And>v. x = Ok v \<Longrightarrow> reads (f v) (d, n) \<le> k" and "n \<le> k"
  shows "reads (bind_io (lift_io x) f) (d, n) \<le> k"
  using assms by (cases x) (simp_all add: reads_def bind_io_def)

lemma reads_if: "(P \<Longrightarrow> reads a s \<le> k) \<Longrightarrow> (\<not> P \<Longrightarrow> reads b s \<le> k) \<Longrightarrow> reads (if P then a else b) s \<le> k"
  by simp

lemma reads_prod: "(\<And>a b. p = (a, b) \<Longrightarrow> reads (f a b) s \<le> k) \<Longrightarrow> reads (case p of (a, b) \<Rightarrow> f a b) s \<le> k"
  by (cases p) simp

lemma reads_asks_bind: "reads (f (g (d, n))) (d, n) \<le> k \<Longrightarrow> reads (bind_io (asks_io g) f) (d, n) \<le> k"
  by (simp add: reads_def bind_io_def)

lemma reads_bind_pure:
  assumes "reads m s \<le> k" and "\<And>x s. reads (f x) s = snd s"
  shows "reads (bind_io m f) s \<le> k"
  using assms by (cases "m s", cases "fst (m s)") (auto simp: reads_def bind_io_def)

lemma card_below: "card {i :: u32. i < bc} = unat bc"
proof -
  have "unat ` {i :: u32. i < bc} = {..<unat bc}"
  proof (intro equalityI subsetI)
    fix n
    assume "n \<in> {..<unat bc}"
    then have "n < 2 ^ 32" using unat_u32_less [of bc] by simp
    with \<open>n \<in> {..<unat bc}\<close> have "n = unat (word_of_nat n :: u32)" "(word_of_nat n :: u32) < bc"
      by (simp_all add: unat_of_nat_u32 word_less_nat_alt)
    then show "n \<in> unat ` {i :: u32. i < bc}" by blast
  qed (auto simp: word_less_nat_alt)
  moreover have "inj_on unat {i :: u32. i < bc}" by (rule inj_onI) (simp add: word_unat_eq_iff)
  ultimately show ?thesis by (metis card_image card_lessThan)
qed

lemmas reads_rules = reads_lift_bind reads_if reads_prod

context device_contract
begin

lemma reads_read_bind:
  assumes "dev_at bs bc B d" and "i < bc" and "length buf = unat bs" and "n + 1 \<le> k"
    and "\<And>d'. dev_at bs bc B d' \<Longrightarrow> reads (f (B ! unat i)) (d', n + 1) \<le> k"
  shows "reads (bind_io (d_read_block (counted D) i buf) f) (d, n) \<le> k"
  using dev_read [OF assms(2,3), of B] assms(1)
  by (cases rule: triple_cases) (use assms(4,5) in \<open>auto simp: reads_def bind_io_def\<close>)

lemma chunk_loop_reads:
  assumes "dev_at bs bc B d" and "length buf = unat bs"
  shows "reads (chunk_loop oc (counted D) db bs buf nxt idx visited acc cbs) (d, n) \<le> n + card ({i. i < bc} - visited)"
  using assms
proof (induction "card ({i. i < bc} - visited)" arbitrary: buf nxt idx visited acc cbs d n rule: less_induct)
  case less
  note count = dev_count [OF less.prems(1)]
  show ?case
  proof (cases "nxt = NULL_BLOCK_INDEX \<or> bc \<le> nxt \<or> nxt \<in> visited")
    case True
    then show ?thesis
      by (subst chunk_loop.simps) (auto simp: count reads_def bind_io_def)
  next
    case False
    then have nxt: "nxt \<in> {i. i < bc} - visited" "nxt < bc" by auto
    have "{i. i < bc} - insert nxt visited = {i. i < bc} - visited - {nxt}" by blast
    then have card: "card ({i. i < bc} - insert nxt visited) + 1 = card ({i. i < bc} - visited)"
      using card_Suc_Diff1 [OF _ nxt(1)] by simp
    have IH: "reads (chunk_loop oc (counted D) db bs (B ! unat nxt) nxt' idx' (insert nxt visited) acc' cbs') (d', n + 1)
        \<le> n + card ({i. i < bc} - visited)" if "dev_at bs bc B d'" for d' nxt' idx' acc' cbs'
      using less.hyps [of "insert nxt visited" d' "B ! unat nxt" nxt' idx' acc' cbs' "n + 1"] card that
        dev_nth_length [OF that] nxt(2) by (simp add: word_less_nat_alt)
    show ?thesis
      apply (subst chunk_loop.simps)
      apply (subst if_not_P)
      using False apply simp
      apply (rule reads_asks_bind)
      apply (subst if_not_P)
      using False count apply simp
      apply (rule reads_read_bind [OF less.prems(1) nxt(2) less.prems(2)])
      using card apply simp
      unfolding Let_def
      apply (intro reads_rules)
      using IH card apply simp_all
      done
  qed
qed

lemma verify_reads:
  assumes d: "dev_at bs bc B d" and db: "db < bc"
  shows "reads (verify_and_read_record oc (counted D) db) (d, n) \<le> n + unat bc"
proof -
  have card: "1 + card ({i. i < bc} - {db}) = unat bc"
    using card_Suc_Diff1 [of "{i. i < bc}" db] db card_below [of bc] by simp
  have buf: "length (replicate (unat bs) (0 :: u8)) = unat bs" by simp
  have loop: "reads (chunk_loop oc (counted D) db bs (replicate (unat bs) 0) nxt idx {db} v cbs) (d', n + 1)
      \<le> n + unat bc" if "dev_at bs bc B d'" for d' nxt idx v cbs
    using chunk_loop_reads [OF that buf, of oc db nxt idx "{db}" v cbs "n + 1"] card by simp
  show ?thesis
    unfolding verify_and_read_record_def
    apply (rule reads_asks_bind)
    unfolding counted_simps dev_size [OF d]
    apply (rule reads_read_bind [OF d db buf])
    using card apply simp
    unfolding Let_def
    apply (intro reads_rules reads_bind_pure loop)
    using card apply (simp_all add: reads_def split: option.split)
    done
qed

end

text \<open>The counting file keeps the contract of the file.\<close>

lemma counted_triple:
  fixes m :: "('d, 'a) io" and m' :: "('d \<times> nat, 'a) io"
  assumes "triple (\<lambda>d. dev d) m Q E" and "\<And>d n. m' (d, n) = (case m d of (x, d') \<Rightarrow> (x, d', n + k))"
  shows "triple (\<lambda>s. dev (fst s)) m' (\<lambda>x s. Q x (fst s)) (\<lambda>e s. E e (fst s))"
  unfolding triple_def
proof (intro allI impI)
  fix s :: "'d \<times> nat"
  obtain d n where s: "s = (d, n)" by (cases s)
  assume "dev (fst s)"
  with assms(1) have "case m d of (Ok x, d') \<Rightarrow> Q x d' | (Err e, d') \<Rightarrow> E e d' | (Panic, d') \<Rightarrow> False"
    by (simp add: triple_def s)
  then show "case m' s of (Ok x, s') \<Rightarrow> Q x (fst s') | (Err e, s') \<Rightarrow> E e (fst s') | (Panic, s') \<Rightarrow> False"
    by (auto simp: s assms(2) split: prod.splits outcome.splits)
qed

interpretation counting: device_contract "counted file_dev" "\<lambda>bs bc B s. file_at bs bc B (fst s)" os_fault torn_prefix
proof (unfold_locales, goal_cases)
  case (5 i bc buf bs B)
  show ?case
    by (rule counted_triple [OF disk.dev_read [OF 5], where k = 1]) simp
next
  case (6 i bc buf bs B)
  show ?case
    by (rule counted_triple [OF disk.dev_write [OF 6], where k = 0]) (simp add: counted_def)
next
  case (7 bs bc B)
  show ?case
    by (rule counted_triple [OF disk.dev_flush, where k = 0]) (simp add: counted_def)
qed (auto simp: counted_def disk.dev_size disk.dev_count disk.dev_length disk.dev_blocks)

lemma ceil_least:
  assumes "0 < (k :: nat)" and "0 < (n + k - 1) div k"
  shows "((n + k - 1) div k - 1) * k < n"
proof -
  obtain q where q: "(n + k - 1) div k = Suc q" using assms(2) by (metis Suc_pred)
  have "Suc q * k \<le> n + k - 1" using div_times_less_eq_dividend [of "n + k - 1" k] by (simp only: q)
  then have "q * k + k \<le> n + k - 1" by (simp add: add.commute)
  with assms(1) show ?thesis unfolding q by simp
qed

section \<open>Properties\<close>

text \<open>
  Property C18: reading a record ends, whatever the medium holds. On a file with any content, also one
  whose chunks form a cycle, and with any faults, \<^verbatim>\<open>verify_and_read_record\<close> returns without a panic and
  reads no more blocks than the device has.
\<close>

theorem read_record_terminates:
  assumes "file_at bs bc B d" and "36 \<le> unat bs" and "db < bc"
  shows "\<exists>x d' n. verify_and_read_record oc (counted file_dev) db (d, 0) = (x, d', n) \<and> x \<noteq> Panic \<and> n \<le> unat bc"
proof -
  obtain x d' n where run: "verify_and_read_record oc (counted file_dev) db (d, 0) = (x, d', n)" by (metis prod_cases3)
  have "n \<le> 0 + unat bc"
    using disk.verify_reads [OF assms(1,3), of oc 0] run by (simp add: reads_def)
  moreover have "file_at bs bc B (fst (d, 0 :: nat))" using assms(1) by simp
  with counting.verify_and_read_record_spec [OF assms(2,3), where oc = oc] have "x \<noteq> Panic"
    by (cases rule: triple_cases) (use run in auto)
  ultimately show ?thesis using run by simp
qed

theorem read_record_terminates_witness:
  "\<exists>x d' n. verify_and_read_record True (counted file_dev) 1
    (\<lparr>fd_file = \<lparr>file_content = replicate 72 3, file_pos = 0, file_faults = []\<rparr>, fd_block_size = 36, fd_block_count = 2\<rparr>, 0)
    = (x, d', n) \<and> x \<noteq> Panic \<and> n \<le> 2"
proof -
  have "concat [replicate 36 3, replicate 36 (3 :: u8)] = replicate 72 3" by (simp flip: replicate_add)
  then have at: "file_at 36 2 [replicate 36 3, replicate 36 3]
    \<lparr>fd_file = \<lparr>file_content = replicate 72 3, file_pos = 0, file_faults = []\<rparr>, fd_block_size = 36, fd_block_count = 2\<rparr>"
    by (simp add: file_at_def)
  have "36 \<le> unat (36 :: u32)" "(1 :: u32) < 2" by simp_all
  from read_record_terminates [OF at this, of True] show ?thesis by simp
qed

text \<open>
  Property C21: \<^verbatim>\<open>needed_blocks\<close> is exact. For a key and a value within the format's limits it returns,
  without overflow, the least number of blocks that holds them: that many blocks have room for the
  value, and with one block fewer they do not.
\<close>

theorem needed_blocks_minimal:
  assumes "fits_format (unat bs) key val"
  shows "\<exists>n. needed_blocks oc key val bs = Ok n \<and> 1 \<le> unat n \<and>
    length val \<le> (unat bs - 36 - length key) + (unat n - 1) * (unat bs - 24) \<and>
    (1 < unat n \<longrightarrow> (unat bs - 36 - length key) + (unat n - 2) * (unat bs - 24) < length val)"
proof -
  obtain n where n: "needed_blocks oc key val bs = Ok n" "unat n = 1 + extra_blocks (unat bs) key val"
    using assms by (rule needed_blocks_Ok)
  define a c q where "a = unat bs - 36 - length key" and "c = unat bs - 24" and "q = extra_blocks (unat bs) key val"
  have c: "0 < c" using assms by (simp add: fits_format_def c_def)
  have q: "q = (length val - a + c - 1) div c" by (simp add: q_def a_def c_def extra_blocks_def first_part_def)
  have "length val \<le> a + q * c" using ceil_enough [OF c, of "length val - a"] by (simp add: q)
  moreover have "a + (q - 1) * c < length val" if "0 < q"
    using ceil_least [OF c, of "length val - a"] that unfolding q by linarith
  ultimately show ?thesis
    using n(1) n(2) [folded q_def] unfolding a_def [symmetric] c_def [symmetric] by (intro exI [of _ n]) simp
qed

theorem needed_blocks_minimal_witness:
  "\<exists>n. needed_blocks True [1] (replicate 100 7) 64 = Ok n \<and> unat n = 3"
proof -
  have fit: "fits_format (unat (64 :: u32)) [1] (replicate 100 7)" by (simp add: fits_format_def)
  from needed_blocks_minimal [OF fit, of True] obtain n where n: "needed_blocks True [1] (replicate 100 7) 64 = Ok n"
    "100 \<le> 27 + (unat n - 1) * 40" "1 < unat n \<longrightarrow> 27 + (unat n - 2) * 40 < (100 :: nat)" by auto
  then have "unat n = 3" by presburger
  with n(1) show ?thesis by blast
qed

end
