(* ===== verification/Ekv_Fuzz.thy ===== *)
theory Ekv_Fuzz
  imports Ekv_Session
begin

text \<open>
  The fuzz targets in \<^verbatim>\<open>rust/fuzz/fuzz_targets\<close>. Each is a function of its input; a failed assertion
  and \<^verbatim>\<open>panic!\<close> are \<open>Panic\<close>. The targets run on \<^verbatim>\<open>MemDevice\<close>, and are shown to end without a panic on
  every input.
\<close>

section \<open>The targets\<close>

subsection \<open>Idioms\<close>

text \<open>\<^verbatim>\<open>let _ = m;\<close>, \<^verbatim>\<open>match m { Ok(x) => f, Err(e) => h }\<close>, and \<^verbatim>\<open>let Ok(x) = m else { return };\<close>\<close>

definition ignore_io :: "('s, 'a) io \<Rightarrow> ('s, unit) io" where
  "ignore_io m = (\<lambda>s. case m s of (Panic, s') \<Rightarrow> (Panic, s') | (_, s') \<Rightarrow> (Ok (), s'))"

definition match_io :: "('s, 'a) io \<Rightarrow> ('a \<Rightarrow> ('s, 'b) io) \<Rightarrow> (error \<Rightarrow> ('s, 'b) io) \<Rightarrow> ('s, 'b) io" where
  "match_io m f h = (\<lambda>s. case m s of (Ok x, s') \<Rightarrow> f x s' | (Err e, s') \<Rightarrow> h e s' | (Panic, s') \<Rightarrow> (Panic, s'))"

definition panic_io :: "('s, 'a) io" where
  "panic_io = (\<lambda>s. (Panic, s))"

definition ok_or_return :: "'a outcome \<Rightarrow> ('a \<Rightarrow> unit outcome) \<Rightarrow> unit outcome" where
  "ok_or_return m f = (case m of Ok x \<Rightarrow> f x | Err _ \<Rightarrow> Ok () | Panic \<Rightarrow> Panic)"

text \<open>\<^verbatim>\<open>format(std::slice::from_mut(&mut dev), &Options::default())\<close>, and the device after it.\<close>

definition format_one :: "bool \<Rightarrow> mem_device \<Rightarrow> mem_device outcome" where
  "format_one oc dev = (case format_store oc mem_dev options_new [dev] of (r, devs) \<Rightarrow> bind_o r (\<lambda>_. Ok (hd devs)))"

text \<open>The input cut or padded with zeros to \<open>len\<close> bytes.\<close>

definition pad_input :: "nat \<Rightarrow> bytes \<Rightarrow> bytes outcome" where
  "pad_input len data = (let n = min (length data) len in
     bind_o (slice_range 0 n data) (\<lambda>src. copy_into 0 src (replicate len 0)))"

text \<open>\<^verbatim>\<open>for i in is { let _ = dev.write_block(i, &block); }\<close>\<close>

fun fill_blocks :: "bytes \<Rightarrow> u32 list \<Rightarrow> (mem_device, unit) io" where
  "fill_blocks block [] = return_io ()"
| "fill_blocks block (i # is) = bind_io (ignore_io (d_write_block mem_dev i block)) (\<lambda>_. fill_blocks block is)"

definition blocks_from :: "nat \<Rightarrow> u32 \<Rightarrow> u32 list" where
  "blocks_from a block_count = map word_of_nat [a..<unat block_count]"

subsection \<open>fuzz_storage_pipeline\<close>

definition pipeline_BLOCK_SIZE :: u32 where "pipeline_BLOCK_SIZE = 64"
definition pipeline_BLOCK_COUNT :: u32 where "pipeline_BLOCK_COUNT = 8"
definition pipeline_STORAGE_SIZE :: nat where
  "pipeline_STORAGE_SIZE = unat (pipeline_BLOCK_SIZE * pipeline_BLOCK_COUNT)"

text \<open>The keys \<^verbatim>\<open>hello\<close>, \<^verbatim>\<open>bigkey\<close> and \<^verbatim>\<open>power\<close>.\<close>

definition fuzz_storage_pipeline :: "bool \<Rightarrow> bytes \<Rightarrow> unit outcome" where
  "fuzz_storage_pipeline oc data =
     bind_o (pad_input pipeline_STORAGE_SIZE data) (\<lambda>storage.
     ok_or_return (mem_from_bytes pipeline_BLOCK_SIZE storage) (\<lambda>dev.
     ok_or_return (open_store oc mem_dev [dev] options_new) (\<lambda>s. fst (
       bind_io (ignore_io (store_recover oc mem_dev)) (\<lambda>_.
       bind_io (ignore_io (store_build_index oc mem_dev)) (\<lambda>_.
       bind_io (ignore_io (store_get oc mem_dev [0x68, 0x65, 0x6C, 0x6C, 0x6F])) (\<lambda>_.
       bind_io (ignore_io (store_get oc mem_dev [0x62, 0x69, 0x67, 0x6B, 0x65, 0x79])) (\<lambda>_.
       ignore_io (store_get oc mem_dev [0x70, 0x6F, 0x77, 0x65, 0x72]))))) s))))"

subsection \<open>fuzz_put_get_delete\<close>

definition put_get_BLOCK_SIZE :: u32 where "put_get_BLOCK_SIZE = 128"
definition put_get_BLOCK_COUNT :: u32 where "put_get_BLOCK_COUNT = 64"

text \<open>The calls on the open store, for a store with the operations \<open>getf\<close>, \<open>putf\<close> and \<open>delf\<close>.\<close>

definition put_get_delete ::
    "(bytes \<Rightarrow> ('s, bytes) io) \<Rightarrow> (bytes \<Rightarrow> bytes \<Rightarrow> ('s, unit) io) \<Rightarrow> (bytes \<Rightarrow> ('s, unit) io) \<Rightarrow>
     bytes \<Rightarrow> bytes \<Rightarrow> ('s, unit) io" where
  "put_get_delete getf putf delf key val =
     match_io (putf key val)
       (\<lambda>_. match_io (getf key)
         (\<lambda>got. if got \<noteq> val then panic_io
           else
           bind_io (match_io (putf key val)
             (\<lambda>_. match_io (getf key)
               (\<lambda>got2. if got2 \<noteq> val then panic_io else return_io ())
               (\<lambda>e. panic_io))
             (\<lambda>e. if e = StorageFull then return_io () else panic_io)) (\<lambda>_.
           match_io (delf key)
             (\<lambda>_. match_io (getf key)
               (\<lambda>_. panic_io)
               (\<lambda>e. if e = KeyNotFound then return_io () else panic_io))
             (\<lambda>e. panic_io)))
         (\<lambda>e. panic_io))
       (\<lambda>e. if e = KeyTooLong \<or> e = StorageFull then return_io () else panic_io)"

definition fuzz_put_get_delete :: "bool \<Rightarrow> bytes \<Rightarrow> bytes \<Rightarrow> unit outcome" where
  "fuzz_put_get_delete oc key val =
     ok_or_return (format_one oc (mem_new put_get_BLOCK_SIZE put_get_BLOCK_COUNT)) (\<lambda>dev.
     ok_or_return (open_store oc mem_dev [dev] options_new) (\<lambda>s. fst (
       match_io (store_build_index oc mem_dev)
         (\<lambda>_. put_get_delete (store_get oc mem_dev) (store_put oc mem_dev) (store_delete oc mem_dev) key val)
         (\<lambda>e. return_io ()) s)))"

subsection \<open>fuzz_raw_block\<close>

definition raw_BLOCK_SIZE :: u32 where "raw_BLOCK_SIZE = 128"
definition raw_BLOCK_COUNT :: u32 where "raw_BLOCK_COUNT = 16"

text \<open>The key \<^verbatim>\<open>any-key\<close>.\<close>

definition any_key :: bytes where
  "any_key = [0x61, 0x6E, 0x79, 0x2D, 0x6B, 0x65, 0x79]"

definition raw_path1 :: "bool \<Rightarrow> bytes \<Rightarrow> mem_device \<Rightarrow> unit outcome" where
  "raw_path1 oc block dev =
     (case bind_io (ignore_io (d_write_block mem_dev 1 block)) (\<lambda>_.
           bind_io (fill_blocks block (blocks_from 2 raw_BLOCK_COUNT)) (\<lambda>_.
           ignore_io (verify_and_read_record oc mem_dev 1))) dev of
        (r, dev) \<Rightarrow> bind_o r (\<lambda>_.
          ok_or_return (open_store oc mem_dev [dev] options_new) (\<lambda>s. fst (
            bind_io (ignore_io (store_build_index oc mem_dev)) (\<lambda>_.
            ignore_io (store_get oc mem_dev any_key)) s))))"

definition raw_path2 :: "bool \<Rightarrow> bytes \<Rightarrow> mem_device \<Rightarrow> unit outcome" where
  "raw_path2 oc block dev =
     (case bind_io (ignore_io (d_write_block mem_dev 1 block)) (\<lambda>_.
           fill_blocks block (blocks_from 2 raw_BLOCK_COUNT)) dev of
        (r, dev) \<Rightarrow> bind_o r (\<lambda>_.
          ok_or_return (open_store oc mem_dev [dev] options_new) (\<lambda>s. fst (
            bind_io (ignore_io (store_recover oc mem_dev)) (\<lambda>_.
            bind_io (ignore_io (store_build_index oc mem_dev)) (\<lambda>_.
            ignore_io (store_get oc mem_dev any_key))) s))))"

definition raw_path3 :: "bool \<Rightarrow> bytes \<Rightarrow> bytes \<Rightarrow> mem_device \<Rightarrow> unit outcome" where
  "raw_path3 oc desc_block chunk_block dev = fst (
     bind_io (ignore_io (d_write_block mem_dev 1 desc_block)) (\<lambda>_.
     bind_io (ignore_io (d_write_block mem_dev 2 chunk_block)) (\<lambda>_.
     ignore_io (verify_and_read_record oc mem_dev 1))) dev)"

text \<open>The descriptor block of the third path: the input after its first byte.\<close>

definition raw_desc_block :: "nat \<Rightarrow> bytes \<Rightarrow> bytes outcome" where
  "raw_desc_block n data =
     bind_o (set_byte 0 BLOCK_TYPE_RECORD_DESCRIPTOR (replicate (unat raw_BLOCK_SIZE) 0)) (\<lambda>desc_block.
     if 1 < n then
       (let end_off = min n (unat raw_BLOCK_SIZE) in
        bind_o (slice_range 1 end_off data) (\<lambda>src. copy_into 1 src desc_block))
     else Ok desc_block)"

definition fuzz_raw_block :: "bool \<Rightarrow> bytes \<Rightarrow> unit outcome" where
  "fuzz_raw_block oc data =
     bind_o (pad_input (unat raw_BLOCK_SIZE) data) (\<lambda>block.
     let n = min (length data) (unat raw_BLOCK_SIZE) in
     ok_or_return (format_one oc (mem_new raw_BLOCK_SIZE raw_BLOCK_COUNT)) (\<lambda>dev.
     bind_o (raw_path1 oc block dev) (\<lambda>_.
     ok_or_return (format_one oc (mem_new raw_BLOCK_SIZE raw_BLOCK_COUNT)) (\<lambda>dev.
     bind_o (raw_path2 oc block dev) (\<lambda>_.
     bind_o (set_byte 0 BLOCK_TYPE_VALUE_CHUNK block) (\<lambda>chunk_block.
     bind_o (raw_desc_block n data) (\<lambda>desc_block.
     ok_or_return (format_one oc (mem_new raw_BLOCK_SIZE raw_BLOCK_COUNT)) (\<lambda>dev.
     raw_path3 oc desc_block chunk_block dev))))))))"

subsection \<open>fuzz_crc_valid_descriptor\<close>

definition descriptor_BLOCK_SIZE :: u32 where "descriptor_BLOCK_SIZE = 128"
definition descriptor_BLOCK_COUNT :: u32 where "descriptor_BLOCK_COUNT = 16"

record descriptor_fields =
  df_key_size :: u16
  df_generation :: u32
  df_total_size :: u32
  df_first_payload_size :: u32
  df_chunk_count :: u32
  df_next_chunk :: u32
  df_flags :: u32
  df_user_flags :: u32

definition build_crc_valid_descriptor :: "bool \<Rightarrow> descriptor_fields \<Rightarrow> bytes outcome" where
  "build_crc_valid_descriptor oc fld =
     bind_o (set_byte 0 BLOCK_TYPE_RECORD_DESCRIPTOR (replicate (unat descriptor_BLOCK_SIZE) 0)) (\<lambda>buf.
     bind_o (set_byte 1 (ucast RECORD_DESCRIPTOR_HEADER_SIZE) buf) (\<lambda>buf.
     bind_o (copy_into 2 (u16_to_le (df_key_size fld)) buf) (\<lambda>buf.
     bind_o (copy_into 4 (u32_to_le (df_generation fld)) buf) (\<lambda>buf.
     bind_o (copy_into 8 (u32_to_le (df_total_size fld)) buf) (\<lambda>buf.
     bind_o (copy_into 12 (u32_to_le (df_first_payload_size fld)) buf) (\<lambda>buf.
     bind_o (copy_into 16 (u32_to_le (df_chunk_count fld)) buf) (\<lambda>buf.
     bind_o (copy_into 20 (u32_to_le (df_next_chunk fld)) buf) (\<lambda>buf.
     bind_o (copy_into 24 (u32_to_le (df_flags fld)) buf) (\<lambda>buf.
     bind_o (copy_into 28 (u32_to_le (df_user_flags fld)) buf) (\<lambda>buf.
     write_block_crc oc buf))))))))))"

text \<open>The key \<^verbatim>\<open>key\<close>.\<close>

definition fuzz_crc_valid_descriptor :: "bool \<Rightarrow> descriptor_fields \<Rightarrow> unit outcome" where
  "fuzz_crc_valid_descriptor oc fld =
     bind_o (build_crc_valid_descriptor oc fld) (\<lambda>desc_buf.
     ok_or_return (format_one oc (mem_new descriptor_BLOCK_SIZE descriptor_BLOCK_COUNT)) (\<lambda>dev.
     case bind_io (fill_blocks desc_buf (blocks_from 1 descriptor_BLOCK_COUNT)) (\<lambda>_.
          ignore_io (verify_and_read_record oc mem_dev 1)) dev of
       (r, dev) \<Rightarrow> bind_o r (\<lambda>_.
         ok_or_return (open_store oc mem_dev [dev] options_new) (\<lambda>s. fst (
           bind_io (ignore_io (store_build_index oc mem_dev)) (\<lambda>_.
           ignore_io (store_get oc mem_dev [0x6B, 0x65, 0x79])) s)))))"

subsection \<open>fuzz_crc_valid_chunk\<close>

definition chunk_BLOCK_SIZE :: u32 where "chunk_BLOCK_SIZE = 128"
definition chunk_BLOCK_COUNT :: u32 where "chunk_BLOCK_COUNT = 16"

record chunk_fields =
  cf_owner_descriptor :: u32
  cf_chunk_index :: u32
  cf_payload_size :: u32
  cf_next_chunk :: u32
  cf_flags :: u16

definition build_crc_valid_chunk :: "bool \<Rightarrow> chunk_fields \<Rightarrow> bytes outcome" where
  "build_crc_valid_chunk oc fld =
     bind_o (set_byte 0 BLOCK_TYPE_VALUE_CHUNK (replicate (unat chunk_BLOCK_SIZE) 0)) (\<lambda>buf.
     bind_o (set_byte 1 (ucast VALUE_CHUNK_HEADER_SIZE) buf) (\<lambda>buf.
     bind_o (copy_into 2 (u16_to_le (cf_flags fld)) buf) (\<lambda>buf.
     bind_o (copy_into 4 (u32_to_le (cf_owner_descriptor fld)) buf) (\<lambda>buf.
     bind_o (copy_into 8 (u32_to_le (cf_chunk_index fld)) buf) (\<lambda>buf.
     bind_o (copy_into 12 (u32_to_le (cf_payload_size fld)) buf) (\<lambda>buf.
     bind_o (copy_into 16 (u32_to_le (cf_next_chunk fld)) buf) (\<lambda>buf.
     write_block_crc oc buf)))))))"

definition build_descriptor_pointing_to :: "bool \<Rightarrow> u32 \<Rightarrow> u32 \<Rightarrow> bytes outcome" where
  "build_descriptor_pointing_to oc block2 first_payload_cap =
     bind_o (set_byte 0 BLOCK_TYPE_RECORD_DESCRIPTOR (replicate (unat chunk_BLOCK_SIZE) 0)) (\<lambda>buf.
     bind_o (set_byte 1 (ucast RECORD_DESCRIPTOR_HEADER_SIZE) buf) (\<lambda>buf.
     bind_o (copy_into 2 (u16_to_le 1) buf) (\<lambda>buf.
     bind_o (copy_into 4 (u32_to_le 1) buf) (\<lambda>buf.
     bind_o (u32_add oc first_payload_cap 1) (\<lambda>total.
     bind_o (copy_into 8 (u32_to_le total) buf) (\<lambda>buf.
     bind_o (copy_into 12 (u32_to_le first_payload_cap) buf) (\<lambda>buf.
     bind_o (copy_into 16 (u32_to_le 2) buf) (\<lambda>buf.
     bind_o (copy_into 20 (u32_to_le block2) buf) (\<lambda>buf.
     bind_o (copy_into 24 (u32_to_le 0) buf) (\<lambda>buf.
     bind_o (copy_into 28 (u32_to_le 0) buf) (\<lambda>buf.
     bind_o (set_byte (unat RECORD_DESCRIPTOR_HEADER_SIZE) 0x6B buf) (\<lambda>buf.
     write_block_crc oc buf))))))))))))"

definition fuzz_crc_valid_chunk :: "bool \<Rightarrow> chunk_fields \<Rightarrow> unit outcome" where
  "fuzz_crc_valid_chunk oc fld =
     bind_o (build_crc_valid_chunk oc fld) (\<lambda>chunk_buf.
     bind_o (bind_o (bind_o (u32_sub oc chunk_BLOCK_SIZE RECORD_DESCRIPTOR_HEADER_SIZE)
       (\<lambda>a. u32_sub oc a 1)) (\<lambda>a. u32_sub oc a BLOCK_CRC_SIZE)) (\<lambda>first_payload_cap.
     bind_o (build_descriptor_pointing_to oc 2 first_payload_cap) (\<lambda>desc_buf.
     ok_or_return (format_one oc (mem_new chunk_BLOCK_SIZE chunk_BLOCK_COUNT)) (\<lambda>dev.
     case bind_io (ignore_io (d_write_block mem_dev 1 desc_buf)) (\<lambda>_.
          bind_io (ignore_io (d_write_block mem_dev 2 chunk_buf)) (\<lambda>_.
          bind_io (fill_blocks chunk_buf (blocks_from 3 chunk_BLOCK_COUNT)) (\<lambda>_.
          ignore_io (verify_and_read_record oc mem_dev 1)))) dev of
       (r, dev) \<Rightarrow> bind_o r (\<lambda>_.
         ok_or_return (open_store oc mem_dev [dev] options_new) (\<lambda>s. fst (
           bind_io (ignore_io (store_build_index oc mem_dev)) (\<lambda>_.
           ignore_io (store_get oc mem_dev [0x6B])) s)))))))"

section \<open>No target panics\<close>

lemma triple_ignore:
  "triple P m (\<lambda>_. Q) (\<lambda>_. Q) \<Longrightarrow> triple P (ignore_io m) (\<lambda>_. Q) E"
  by (fastforce simp: triple_def ignore_io_def split: prod.splits outcome.splits)

lemma triple_match:
  assumes "triple P m Q1 E1" and "\<And>x. triple (Q1 x) (f x) Q E" and "\<And>e. triple (E1 e) (h e) Q E"
  shows "triple P (match_io m f h) Q E"
  unfolding triple_def
proof (intro allI impI)
  fix s
  assume "P s"
  with assms(1) show "case match_io m f h s of (Ok x, s') \<Rightarrow> Q x s' | (Err e, s') \<Rightarrow> E e s' | (Panic, s') \<Rightarrow> False"
    by (cases rule: triple_cases)
      (use assms(2,3) in \<open>auto simp: match_io_def triple_def\<close>)
qed

lemma triple_vacuous: "triple (\<lambda>_. False) m Q E"
  by (simp add: triple_def)

context kv_contract
begin

lemma put_get_delete_safe:
  assumes legal: "legal k v" and n: "n + 2 < 2 ^ 32"
  shows "triple (holds n m) (put_get_delete getf putf delf k v) (\<lambda>_ _. True) (\<lambda>_ _. False)"
proof -
  let ?T = "\<lambda>_ _. True" and ?F = "\<lambda>_ _. False"
  let ?m = "m(key_str k \<mapsto> v)"
  have get: "triple (holds n' ?m) (getf k) (\<lambda>x s. x = v \<and> holds n' ?m s) ?F" for n'
    by (rule triple_conseq [OF get_law]) auto
  have last: "triple (holds n' (m'(key_str k := None)))
      (match_io (getf k) (\<lambda>_. panic_io) (\<lambda>e. if e = KeyNotFound then return_io () else panic_io)) ?T ?F" for n' m'
    by (rule triple_match [OF get_law]) (auto simp: triple_def)
  have del: "triple (holds (n + 2) ?m)
      (match_io (delf k) (\<lambda>_. match_io (getf k) (\<lambda>_. panic_io)
          (\<lambda>e. if e = KeyNotFound then return_io () else panic_io)) (\<lambda>e. panic_io)) ?T ?F"
    by (rule triple_match [OF delete_law], rule triple_pre [OF last [of _ ?m]]) (auto simp: triple_def)
  have check: "triple (holds (n + 2) ?m)
      (match_io (getf k) (\<lambda>got2. if got2 \<noteq> v then panic_io else return_io ()) (\<lambda>e. panic_io))
      (\<lambda>_. holds (n + 2) ?m) ?F"
    by (rule triple_match [OF get]) (auto simp: triple_def)
  have put2: "triple (holds (n + 1) ?m) (putf k v) (\<lambda>_. holds (n + 2) ?m)
      (\<lambda>e s. (e = KeyTooLong \<and> long k \<or> e = StorageFull \<and> \<not> long k) \<and> holds (n + 1) ?m s)"
    by (rule triple_conseq [OF put_law [OF legal]]) (use n in auto)
  have update: "triple (\<lambda>s. \<not> long k \<and> holds (n + 1) ?m s)
      (match_io (putf k v)
        (\<lambda>_. match_io (getf k) (\<lambda>got2. if got2 \<noteq> v then panic_io else return_io ()) (\<lambda>e. panic_io))
        (\<lambda>e. if e = StorageFull then return_io () else panic_io)) (\<lambda>_. holds (n + 2) ?m) ?F"
    if short: "\<not> long k"
    by (rule triple_pre, rule triple_match [OF put2 check])
      (use short in \<open>auto simp: triple_def intro: holds_mono [of "n + 1"]\<close>)
  have first: "triple (\<lambda>s. \<not> long k \<and> holds (n + 1) ?m s) (getf k)
      (\<lambda>x s. x = v \<and> \<not> long k \<and> holds (n + 1) ?m s) ?F"
    by (cases "long k") (use get [of "n + 1"] in \<open>auto simp: triple_vacuous\<close>)
  have rest: "triple (\<lambda>s. x = v \<and> \<not> long k \<and> holds (n + 1) ?m s)
     (if x \<noteq> v then panic_io
      else bind_io (match_io (putf k v)
          (\<lambda>_. match_io (getf k) (\<lambda>got2. if got2 \<noteq> v then panic_io else return_io ()) (\<lambda>e. panic_io))
          (\<lambda>e. if e = StorageFull then return_io () else panic_io)) (\<lambda>_.
        match_io (delf k) (\<lambda>_. match_io (getf k) (\<lambda>_. panic_io)
          (\<lambda>e. if e = KeyNotFound then return_io () else panic_io)) (\<lambda>e. panic_io))) ?T ?F" for x
    by (cases "x = v \<and> \<not> long k")
      (use triple_bind [OF update del] in \<open>auto simp: triple_vacuous\<close>)
  show ?thesis
    unfolding put_get_delete_def
    by (rule triple_match [OF put_law [OF legal]], use n in simp, rule triple_match [OF first rest])
      (auto simp: triple_def)
qed

end

subsection \<open>Memory devices with arbitrary content\<close>

definition mem_sized :: "u32 \<Rightarrow> u32 \<Rightarrow> mem_device \<Rightarrow> bool" where
  "mem_sized bs bc d \<longleftrightarrow> (\<exists>B. mem_at bs bc B d)"

lemma triple_sized:
  assumes "\<And>B. triple (mem_at bs bc B) m (\<lambda>_ d. \<exists>B'. mem_at bs bc B' d) (\<lambda>_ d. \<exists>B'. mem_at bs bc B' d)"
  shows "triple (mem_sized bs bc) (ignore_io m) (\<lambda>_. mem_sized bs bc) E"
proof (rule triple_ignore)
  show "triple (mem_sized bs bc) m (\<lambda>_. mem_sized bs bc) (\<lambda>_. mem_sized bs bc)"
    unfolding mem_sized_def [abs_def] by (rule triple_ex) (rule assms)
qed

lemma write_sized:
  assumes "i < bc" and "length buf = unat bs"
  shows "triple (mem_sized bs bc) (ignore_io (d_write_block mem_dev i buf)) (\<lambda>_. mem_sized bs bc) E"
  by (rule triple_sized, rule triple_conseq [OF mem.dev_write [OF assms]]) auto

lemma fill_sized:
  assumes "\<forall>i \<in> set is. i < bc" and "length buf = unat bs"
  shows "triple (mem_sized bs bc) (fill_blocks buf is) (\<lambda>_. mem_sized bs bc) E"
  using assms(1)
proof (induction "is")
  case (Cons i "is")
  have "i < bc" using Cons.prems by simp
  from triple_bind [OF write_sized [OF this assms(2)]] Cons show ?case by simp
qed (simp add: triple_def)

lemma verify_sized:
  assumes "36 \<le> unat bs" and "i < bc"
  shows "triple (mem_sized bs bc) (ignore_io (verify_and_read_record oc mem_dev i)) (\<lambda>_. mem_sized bs bc) E"
  by (rule triple_sized, rule triple_conseq [OF mem.verify_and_read_record_spec [OF assms]]) auto

lemma format_one_sized:
  assumes "mem_sized bs bc d" and "32 \<le> unat bs" and "0 < bc"
  shows "\<exists>d'. format_one oc d = Ok d' \<and> mem_sized bs bc d'"
proof -
  from assms(1) obtain B where B: "list_all2 (mem_at bs bc) [B] [d]" by (auto simp: mem_sized_def)
  have "\<exists>ds. format_store oc mem_dev options_new [d] = (Ok (), ds) \<and> list_all2 (mem_at bs bc)
      (map (\<lambda>(i, B). B[0 := header_block bs (header_for bs bc options_new i)]) (List.enumerate 0 [B])) ds"
    by (rule rmem.format_media [OF B]) (use assms in \<open>simp_all add: options_new_def\<close>)
  then show ?thesis by (auto simp: format_one_def mem_sized_def list_all2_Cons1)
qed

definition opened_sized :: "u32 \<Rightarrow> u32 \<Rightarrow> mem_device store \<Rightarrow> bool" where
  "opened_sized bs bc s \<longleftrightarrow> (\<exists>B. store_media (mem_at bs bc) options_new [B] s)"

definition indexed_sized :: "u32 \<Rightarrow> u32 \<Rightarrow> mem_device store \<Rightarrow> bool" where
  "indexed_sized bs bc s \<longleftrightarrow> (\<exists>B. store_ok (mem_at bs bc) bs bc options_new [B] s)"

lemma open_sized:
  assumes "mem_sized bs bc d" and "0 < bc" and "\<And>s. opened_sized bs bc s \<Longrightarrow> f s = Ok ()"
  shows "ok_or_return (open_store oc mem_dev [d] options_new) f = Ok ()"
proof -
  from assms(1) obtain B where B: "list_all2 (medium_at mem_at) [(bs, bc, B)] [d]"
    by (auto simp: mem_sized_def medium_at_def)
  have "case open_store oc mem_dev [d] options_new of
      Ok s \<Rightarrow> open_error None [(bs, bc, B)] = None \<and>
        list_all2 (opened_at mem_at) [(bs, bc, B)] (st_replicas s) \<and> st_opts s = options_new
    | Err e \<Rightarrow> False \<or> open_error None [(bs, bc, B)] = Some e
    | Panic \<Rightarrow> False"
    by (rule mem.open_store_spec [OF B]) (use assms(2) in auto)
  then show ?thesis
    using assms(3)
    by (cases "open_store oc mem_dev [d] options_new")
      (auto simp: ok_or_return_def opened_sized_def store_media_def list_all2_Cons1 opened_at_def rep_at_def)
qed

lemma build_sized:
  assumes "36 \<le> unat bs"
  shows "triple (opened_sized bs bc) (ignore_io (store_build_index oc mem_dev)) (\<lambda>_. indexed_sized bs bc) E"
proof (rule triple_ignore)
  show "triple (opened_sized bs bc) (store_build_index oc mem_dev)
      (\<lambda>_. indexed_sized bs bc) (\<lambda>_. indexed_sized bs bc)"
    unfolding opened_sized_def [abs_def]
    by (rule triple_ex, rule triple_conseq [OF mem.store_build_index_spec [OF assms]])
      (auto simp: indexed_sized_def)
qed

lemma recover_sized:
  assumes "36 \<le> unat bs"
  shows "triple (opened_sized bs bc) (ignore_io (store_recover oc mem_dev)) (\<lambda>_. opened_sized bs bc) E"
proof (rule triple_ignore)
  show "triple (opened_sized bs bc) (store_recover oc mem_dev)
      (\<lambda>_. opened_sized bs bc) (\<lambda>_. opened_sized bs bc)"
    unfolding opened_sized_def [abs_def]
    by (rule triple_ex, rule triple_conseq [OF mem.store_recover_spec [OF assms]]) auto
qed

lemma get_sized:
  assumes "36 \<le> unat bs"
  shows "triple (indexed_sized bs bc) (ignore_io (store_get oc mem_dev key)) (\<lambda>_. indexed_sized bs bc) E"
proof (rule triple_ignore)
  show "triple (indexed_sized bs bc) (store_get oc mem_dev key)
      (\<lambda>_. indexed_sized bs bc) (\<lambda>_. indexed_sized bs bc)"
    unfolding indexed_sized_def [abs_def]
    by (rule triple_ex, rule triple_conseq [OF mem.store_get_spec [OF assms]]) auto
qed

lemma triple_run:
  assumes "triple P m (\<lambda>_. Q) (\<lambda>_ _. False)" and "P s"
  shows "\<exists>s'. m s = (Ok (), s') \<and> Q s'"
  using assms by (cases rule: triple_cases) auto

lemma pad_input_Ok: "\<exists>b. pad_input len data = Ok b \<and> length b = len"
  by (auto simp: pad_input_def slice_range_def copy_into_def Let_def)

lemma sized_new: "mem_sized bs bc (mem_new bs bc)"
  using mem_at_new unfolding mem_sized_def by blast

lemma concat_chunks: "concat (map (\<lambda>i. take m (drop (i * m) xs)) [0..<n]) = take (n * m) xs"
proof (induction n)
  case (Suc n)
  then show ?case using take_add [of "n * m" m xs] by (simp add: add.commute [of m])
qed simp

lemma sized_from_bytes:
  assumes "length data = unat bs * unat bc" and "0 < unat bs"
  shows "mem_from_bytes bs data = Ok \<lparr>mem_block_size = bs, mem_block_count = bc, mem_data = data\<rparr> \<and>
    mem_sized bs bc \<lparr>mem_block_size = bs, mem_block_count = bc, mem_data = data\<rparr>"
proof
  have "bs \<noteq> 0" using assms(2) by auto
  moreover have "unat bs dvd length data" "length data div unat bs = unat bc" using assms by simp_all
  ultimately show "mem_from_bytes bs data = Ok \<lparr>mem_block_size = bs, mem_block_count = bc, mem_data = data\<rparr>"
    unfolding mem_from_bytes_def by simp
  let ?B = "map (\<lambda>i. take (unat bs) (drop (i * unat bs) data)) [0..<unat bc]"
  have len: "length b = unat bs" if "b \<in> set ?B" for b
  proof -
    from that obtain i where i: "b = take (unat bs) (drop (i * unat bs) data)" "i < unat bc" by auto
    have "(i + 1) * unat bs \<le> unat bc * unat bs" using i(2) by (intro mult_le_mono1) simp
    also have "\<dots> = length data" using assms(1) by (simp only: mult.commute)
    finally have "i * unat bs + unat bs \<le> length data" by simp
    then show ?thesis unfolding i(1) by simp
  qed
  have "concat ?B = data"
    unfolding concat_chunks using assms(1) by (intro take_all) (simp add: mult.commute)
  then have "mem_at bs bc ?B \<lparr>mem_block_size = bs, mem_block_count = bc, mem_data = data\<rparr>"
    unfolding mem_at_def by (intro conjI ballI len) simp_all
  then show "mem_sized bs bc \<lparr>mem_block_size = bs, mem_block_count = bc, mem_data = data\<rparr>"
    unfolding mem_sized_def by (rule exI)
qed

lemma ok_or_return_Ok: "m = Ok x \<Longrightarrow> ok_or_return m f = f x"
  by (simp add: ok_or_return_def)

lemma blocks_from_less: "i \<in> set (blocks_from a bc) \<Longrightarrow> i < bc"
proof -
  assume "i \<in> set (blocks_from a bc)"
  then obtain k where "i = word_of_nat k" "k < unat bc" by (auto simp: blocks_from_def)
  moreover have "k < 2 ^ 32" using \<open>k < unat bc\<close> unat_u32_less [of bc] by simp
  ultimately show ?thesis by (simp add: word_less_nat_alt unat_of_nat_u32)
qed

text \<open>The calls on the opened store that the targets share.\<close>

lemma index_and_get:
  assumes "36 \<le> unat bs" and "opened_sized bs bc s"
  shows "fst (bind_io (ignore_io (store_build_index oc mem_dev)) (\<lambda>_. ignore_io (store_get oc mem_dev key)) s) = Ok ()"
proof -
  have "triple (opened_sized bs bc)
      (bind_io (ignore_io (store_build_index oc mem_dev)) (\<lambda>_. ignore_io (store_get oc mem_dev key)))
      (\<lambda>_. indexed_sized bs bc) (\<lambda>_ _. False)"
    by (rule triple_bind [OF build_sized [OF assms(1)] get_sized [OF assms(1)]])
  from triple_run [OF this assms(2)] show ?thesis by auto
qed

lemma recover_and_get:
  assumes "36 \<le> unat bs" and "opened_sized bs bc s"
    and "triple (indexed_sized bs bc) m (\<lambda>_. indexed_sized bs bc) (\<lambda>_ _. False)"
  shows "fst (bind_io (ignore_io (store_recover oc mem_dev)) (\<lambda>_.
      bind_io (ignore_io (store_build_index oc mem_dev)) (\<lambda>_. m)) s) = Ok ()"
proof -
  have "triple (opened_sized bs bc) (bind_io (ignore_io (store_recover oc mem_dev)) (\<lambda>_.
      bind_io (ignore_io (store_build_index oc mem_dev)) (\<lambda>_. m))) (\<lambda>_. indexed_sized bs bc) (\<lambda>_ _. False)"
    by (rule triple_bind [OF recover_sized [OF assms(1)]], rule triple_bind [OF build_sized [OF assms(1)]])
      (rule assms(3))
  from triple_run [OF this assms(2)] show ?thesis by auto
qed

subsection \<open>The targets\<close>

text \<open>
  Property C30: \<^verbatim>\<open>fuzz_storage_pipeline\<close> ends without a panic on every input. Opening, recovering,
  indexing and reading a storage with arbitrary content never panics.
\<close>

theorem fuzz_storage_pipeline_safe: "fuzz_storage_pipeline oc data = Ok ()"
proof -
  let ?bs = pipeline_BLOCK_SIZE and ?bc = pipeline_BLOCK_COUNT
  have geo: "36 \<le> unat ?bs" "0 < ?bc" "0 < unat ?bs" "pipeline_STORAGE_SIZE = unat ?bs * unat ?bc"
    by (simp_all add: pipeline_BLOCK_SIZE_def pipeline_BLOCK_COUNT_def pipeline_STORAGE_SIZE_def)
  obtain st where st: "pad_input pipeline_STORAGE_SIZE data = Ok st" "length st = unat ?bs * unat ?bc"
    using pad_input_Ok [of pipeline_STORAGE_SIZE data] geo(4) by auto
  note dev = sized_from_bytes [OF st(2) geo(3)]
  have get: "triple (indexed_sized ?bs ?bc) (ignore_io (store_get oc mem_dev k)) (\<lambda>_. indexed_sized ?bs ?bc) E" for k E
    by (rule get_sized [OF geo(1)])
  show ?thesis
    unfolding fuzz_storage_pipeline_def st(1) bind_o.simps ok_or_return_Ok [OF conjunct1 [OF dev]]
    by (rule open_sized [OF conjunct2 [OF dev] geo(2)], erule recover_and_get [OF geo(1)],
        rule triple_bind [OF get], rule triple_bind [OF get], rule get)
qed

lemma raw_geometry: "36 \<le> unat raw_BLOCK_SIZE" "32 \<le> unat raw_BLOCK_SIZE" "0 < raw_BLOCK_COUNT"
    "1 < raw_BLOCK_COUNT" "2 < raw_BLOCK_COUNT"
  by (simp_all add: raw_BLOCK_SIZE_def raw_BLOCK_COUNT_def)

lemma raw_fill:
  assumes "length block = unat raw_BLOCK_SIZE"
  shows "triple (mem_sized raw_BLOCK_SIZE raw_BLOCK_COUNT) (fill_blocks block (blocks_from a raw_BLOCK_COUNT))
    (\<lambda>_. mem_sized raw_BLOCK_SIZE raw_BLOCK_COUNT) E"
  by (rule fill_sized) (use assms in \<open>auto dest: blocks_from_less\<close>)

lemma raw_path1_safe:
  assumes "length block = unat raw_BLOCK_SIZE" and "mem_sized raw_BLOCK_SIZE raw_BLOCK_COUNT dev"
  shows "raw_path1 oc block dev = Ok ()"
proof -
  let ?P = "mem_sized raw_BLOCK_SIZE raw_BLOCK_COUNT"
  have "triple ?P (bind_io (ignore_io (d_write_block mem_dev 1 block)) (\<lambda>_.
      bind_io (fill_blocks block (blocks_from 2 raw_BLOCK_COUNT)) (\<lambda>_.
      ignore_io (verify_and_read_record oc mem_dev 1)))) (\<lambda>_. ?P) (\<lambda>_ _. False)"
    using raw_geometry(1,4) assms(1)
    by (intro triple_bind [OF write_sized] triple_bind [OF raw_fill] verify_sized)
  from triple_run [OF this assms(2)] show ?thesis
    using open_sized [OF _ raw_geometry(3) index_and_get [OF raw_geometry(1)]]
    unfolding raw_path1_def by fastforce
qed

lemma raw_path2_safe:
  assumes "length block = unat raw_BLOCK_SIZE" and "mem_sized raw_BLOCK_SIZE raw_BLOCK_COUNT dev"
  shows "raw_path2 oc block dev = Ok ()"
proof -
  let ?P = "mem_sized raw_BLOCK_SIZE raw_BLOCK_COUNT"
  have "triple ?P (bind_io (ignore_io (d_write_block mem_dev 1 block)) (\<lambda>_.
      fill_blocks block (blocks_from 2 raw_BLOCK_COUNT))) (\<lambda>_. ?P) (\<lambda>_ _. False)"
    using raw_geometry(4) assms(1) by (intro triple_bind [OF write_sized] raw_fill)
  from triple_run [OF this assms(2)] show ?thesis
    using open_sized [OF _ raw_geometry(3) recover_and_get [OF raw_geometry(1) _ get_sized [OF raw_geometry(1)]]]
    unfolding raw_path2_def by fastforce
qed

lemma raw_path3_safe:
  assumes "length desc = unat raw_BLOCK_SIZE" and "length chunk = unat raw_BLOCK_SIZE"
    and "mem_sized raw_BLOCK_SIZE raw_BLOCK_COUNT dev"
  shows "raw_path3 oc desc chunk dev = Ok ()"
proof -
  let ?P = "mem_sized raw_BLOCK_SIZE raw_BLOCK_COUNT"
  have "triple ?P (bind_io (ignore_io (d_write_block mem_dev 1 desc)) (\<lambda>_.
      bind_io (ignore_io (d_write_block mem_dev 2 chunk)) (\<lambda>_.
      ignore_io (verify_and_read_record oc mem_dev 1)))) (\<lambda>_. ?P) (\<lambda>_ _. False)"
    using raw_geometry assms(1,2) by (intro triple_bind [OF write_sized] verify_sized)
  from triple_run [OF this assms(3)] show ?thesis unfolding raw_path3_def by auto
qed

lemma raw_desc_block_Ok:
  "\<exists>b. raw_desc_block (min (length data) (unat raw_BLOCK_SIZE)) data = Ok b \<and> length b = unat raw_BLOCK_SIZE"
  by (auto simp: raw_desc_block_def set_byte_def slice_range_def copy_into_def raw_BLOCK_SIZE_def Let_def)

text \<open>
  Property C32: \<^verbatim>\<open>fuzz_raw_block\<close> ends without a panic on every input, on each of its three paths.
\<close>

theorem fuzz_raw_block_safe: "fuzz_raw_block oc data = Ok ()"
proof -
  let ?bs = raw_BLOCK_SIZE and ?bc = raw_BLOCK_COUNT
  obtain block where block: "pad_input (unat ?bs) data = Ok block" "length block = unat ?bs"
    using pad_input_Ok by blast
  obtain desc where desc: "raw_desc_block (min (length data) (unat ?bs)) data = Ok desc" "length desc = unat ?bs"
    using raw_desc_block_Ok by blast
  obtain dev where dev: "format_one oc (mem_new ?bs ?bc) = Ok dev" "mem_sized ?bs ?bc dev"
    using format_one_sized [OF sized_new raw_geometry(2,3)] by blast
  have chunk: "set_byte 0 BLOCK_TYPE_VALUE_CHUNK block = Ok (block[0 := BLOCK_TYPE_VALUE_CHUNK])"
    using block(2) raw_geometry(1) by (simp add: set_byte_def)
  show ?thesis
    using raw_path1_safe [OF block(2) dev(2)] raw_path2_safe [OF block(2) dev(2)]
      raw_path3_safe [OF desc(2) _ dev(2), of "block[0 := BLOCK_TYPE_VALUE_CHUNK]"]
    by (simp add: fuzz_raw_block_def block dev desc chunk ok_or_return_Ok Let_def)
qed

lemma build_crc_valid_descriptor_Ok: "\<exists>b. build_crc_valid_descriptor oc fld = Ok b \<and> length b = 128"
  by (simp add: build_crc_valid_descriptor_def descriptor_BLOCK_SIZE_def set_byte_def copy_into_def write_block_crc_Ok)

lemma build_crc_valid_chunk_Ok: "\<exists>b. build_crc_valid_chunk oc fld = Ok b \<and> length b = 128"
  by (simp add: build_crc_valid_chunk_def chunk_BLOCK_SIZE_def set_byte_def copy_into_def write_block_crc_Ok)

lemma build_descriptor_pointing_to_Ok:
  "unat cap + 1 < 2 ^ 32 \<Longrightarrow> \<exists>b. build_descriptor_pointing_to oc c cap = Ok b \<and> length b = 128"
  by (simp add: build_descriptor_pointing_to_def chunk_BLOCK_SIZE_def set_byte_def copy_into_def
      write_block_crc_Ok u32_add_Ok layout_simps)

text \<open>
  Property C33: \<^verbatim>\<open>fuzz_crc_valid_descriptor\<close> ends without a panic for all field values: a descriptor
  with a valid CRC and extreme sizes, counts or pointers is rejected or read, never followed out of
  bounds.
\<close>

theorem fuzz_crc_valid_descriptor_safe: "fuzz_crc_valid_descriptor oc fld = Ok ()"
proof -
  let ?bs = descriptor_BLOCK_SIZE and ?bc = descriptor_BLOCK_COUNT
  have geo: "36 \<le> unat ?bs" "32 \<le> unat ?bs" "0 < ?bc" "1 < ?bc" "unat ?bs = 128"
    by (simp_all add: descriptor_BLOCK_SIZE_def descriptor_BLOCK_COUNT_def)
  obtain buf where buf: "build_crc_valid_descriptor oc fld = Ok buf" "length buf = unat ?bs"
    using build_crc_valid_descriptor_Ok geo(5) by metis
  obtain dev where dev: "format_one oc (mem_new ?bs ?bc) = Ok dev" "mem_sized ?bs ?bc dev"
    using format_one_sized [OF sized_new geo(2,3)] by blast
  have "triple (mem_sized ?bs ?bc) (bind_io (fill_blocks buf (blocks_from 1 ?bc)) (\<lambda>_.
      ignore_io (verify_and_read_record oc mem_dev 1))) (\<lambda>_. mem_sized ?bs ?bc) (\<lambda>_ _. False)"
    using geo(1,4) buf(2) by (intro triple_bind [OF fill_sized] verify_sized) (auto dest: blocks_from_less)
  from triple_run [OF this dev(2)] show ?thesis
    using open_sized [OF _ geo(3) index_and_get [OF geo(1)]]
    unfolding fuzz_crc_valid_descriptor_def buf(1) bind_o.simps ok_or_return_Ok [OF dev(1)] by fastforce
qed

text \<open>
  Property C34: \<^verbatim>\<open>fuzz_crc_valid_chunk\<close> ends without a panic for all field values of the chunks that a
  valid descriptor points to.
\<close>

theorem fuzz_crc_valid_chunk_safe: "fuzz_crc_valid_chunk oc fld = Ok ()"
proof -
  let ?bs = chunk_BLOCK_SIZE and ?bc = chunk_BLOCK_COUNT
  have geo: "36 \<le> unat ?bs" "32 \<le> unat ?bs" "0 < ?bc" "1 < ?bc" "2 < ?bc" "unat ?bs = 128"
    by (simp_all add: chunk_BLOCK_SIZE_def chunk_BLOCK_COUNT_def)
  obtain buf where buf: "build_crc_valid_chunk oc fld = Ok buf" "length buf = unat ?bs"
    using build_crc_valid_chunk_Ok geo(6) by metis
  have cap: "bind_o (bind_o (u32_sub oc ?bs RECORD_DESCRIPTOR_HEADER_SIZE) (\<lambda>a. u32_sub oc a 1))
      (\<lambda>a. u32_sub oc a BLOCK_CRC_SIZE) = Ok 91"
    by (simp add: u32_sub_def chunk_BLOCK_SIZE_def layout_simps)
  obtain desc where desc: "build_descriptor_pointing_to oc 2 91 = Ok desc" "length desc = unat ?bs"
    using build_descriptor_pointing_to_Ok [of 91 oc 2] geo(6) by auto
  obtain dev where dev: "format_one oc (mem_new ?bs ?bc) = Ok dev" "mem_sized ?bs ?bc dev"
    using format_one_sized [OF sized_new geo(2,3)] by blast
  have "triple (mem_sized ?bs ?bc) (bind_io (ignore_io (d_write_block mem_dev 1 desc)) (\<lambda>_.
      bind_io (ignore_io (d_write_block mem_dev 2 buf)) (\<lambda>_.
      bind_io (fill_blocks buf (blocks_from 3 ?bc)) (\<lambda>_.
      ignore_io (verify_and_read_record oc mem_dev 1))))) (\<lambda>_. mem_sized ?bs ?bc) (\<lambda>_ _. False)"
    using geo(1,4,5) buf(2) desc(2)
    by (intro triple_bind [OF write_sized] triple_bind [OF fill_sized] verify_sized) (auto dest: blocks_from_less)
  from triple_run [OF this dev(2)] show ?thesis
    using open_sized [OF _ geo(3) index_and_get [OF geo(1)]]
    unfolding fuzz_crc_valid_chunk_def buf(1) cap desc(1) bind_o.simps ok_or_return_Ok [OF dev(1)] by fastforce
qed

text \<open>
  Property C31: \<^verbatim>\<open>fuzz_put_get_delete\<close> ends without a panic for every key and every value of less than
  4 GiB: a put is refused only with \<^verbatim>\<open>KeyTooLong\<close> or \<^verbatim>\<open>StorageFull\<close>, a value that was put is read back
  unchanged before and after an update, and a deleted key is not found.
\<close>

theorem fuzz_put_get_delete_safe:
  assumes "length key < 2 ^ 32" and "length val < 2 ^ 32"
  shows "fuzz_put_get_delete oc key val = Ok ()"
proof -
  let ?bs = put_get_BLOCK_SIZE and ?bc = put_get_BLOCK_COUNT
  let ?B = "replicate (unat ?bc) (replicate (unat ?bs) (0 :: u8))"
  have geo: "36 \<le> unat ?bs" "0 < ?bc" "unat ?bs = 128"
    by (simp_all add: put_get_BLOCK_SIZE_def put_get_BLOCK_COUNT_def)
  have at: "list_all2 (mem_at ?bs ?bc) [?B] [mem_new ?bs ?bc]" using mem_at_new by simp
  have zero: "\<not> live_block (replicate (unat ?bs) 0)"
    using geo(3) by (simp add: live_block_def)
  have "\<exists>devs s s'. format_store oc mem_dev options_new [mem_new ?bs ?bc] = (Ok (), devs) \<and>
      open_store oc mem_dev devs options_new = Ok s \<and> store_build_index oc mem_dev s = (Ok (), s') \<and>
      store_holds mem_at ?bs 0 Map.empty s'"
    by (rule rmem.format_open_fresh [OF at])
      (use geo zero in \<open>auto simp: options_new_def free_byte_def\<close>)
  then obtain devs s s' where run: "format_store oc mem_dev options_new [mem_new ?bs ?bc] = (Ok (), devs)"
      "open_store oc mem_dev devs options_new = Ok s" "store_build_index oc mem_dev s = (Ok (), s')"
    and h: "store_holds mem_at ?bs 0 Map.empty s'" by blast
  have "length devs = 1"
    using run(1) length_iter_mut [of "\<lambda>i _. format_device oc mem_dev options_new i" 0 "()" "[mem_new ?bs ?bc]"]
    by (simp add: format_store_def)
  then have one: "format_one oc (mem_new ?bs ?bc) = Ok (hd devs)" "devs = [hd devs]"
    using run(1) by (auto simp: format_one_def length_Suc_conv)
  have "legal_put ?bs key val"
    using assms geo(3) by (auto simp: legal_put_def key_too_long_def)
  from triple_run [OF rmem.kv.put_get_delete_safe [OF this, of 0] h] run(3)
  have "fst (match_io (store_build_index oc mem_dev)
      (\<lambda>_. put_get_delete (store_get oc mem_dev) (store_put oc mem_dev) (store_delete oc mem_dev) key val)
      (\<lambda>e. return_io ()) s) = Ok ()"
    by (simp add: match_io_def) (metis fst_conv)
  with run(2) one show ?thesis
    by (simp add: fuzz_put_get_delete_def ok_or_return_Ok)
qed

theorem fuzz_put_get_delete_safe_witness:
  "length [0x6B :: u8] < 2 ^ 32 \<and> length [1 :: u8, 2, 3] < 2 ^ 32 \<and> fuzz_put_get_delete True [0x6B] [1, 2, 3] = Ok ()"
  using fuzz_put_get_delete_safe [of "[0x6B]" "[1, 2, 3]" True] by simp

end
