(* ===== verification/Spec2Isabelle.thy ===== *)
theory Spec2Isabelle
  imports Ekv_Limits Ekv_Bounds Ekv_Fuzz
begin

text \<open>
  A verification of \<^verbatim>\<open>embedkv\<close>, a key-value store on raw blocks: the library under \<^verbatim>\<open>rust/src\<close> and the fuzz
  targets under \<^verbatim>\<open>rust/fuzz/fuzz_targets\<close>.

  The program. A storage is one or more block devices of the same geometry, the replicas. Block 0 of
  each holds a storage header; a record is a descriptor block (header, key, start of the value) and a
  chain of chunk blocks with the rest of the value; every block ends in a CRC-32. A put writes the
  record, with a generation above the existing ones, into free blocks of every replica, flushes, and
  then erases the old record; a get reads the record of the highest generation on any replica; a
  delete erases the record everywhere. The index of a replica is in memory only: \<^verbatim>\<open>build_index\<close> rebuilds
  it by a scan, and \<^verbatim>\<open>recover\<close> erases every block that belongs to no latest record.

  How the code is modelled. A Rust function is a HOL function of the same name, methods with a prefix
  for their type. \<^verbatim>\<open>u8\<close>, \<^verbatim>\<open>u16\<close> and \<^verbatim>\<open>u32\<close> are words, \<^verbatim>\<open>usize\<close> and \<^verbatim>\<open>u64\<close> natural numbers (a 64-bit
  target), slices and vectors lists. A fallible function returns an \<open>outcome\<close>: \<open>Ok\<close> a value, \<open>Err\<close> an error
  of \<^verbatim>\<open>error.rs\<close>, or \<open>Panic\<close> (slice bounds, failed \<^verbatim>\<open>unwrap\<close>, overflow); code with a \<^verbatim>\<open>&mut\<close> argument is a
  computation \<open>io\<close> on that state. The parameter \<open>oc\<close> is the build profile: with overflow checks arithmetic
  panics, without them it wraps; theorems hold for both unless they fix it. Loops are structural
  recursion over the list of blocks or replicas they visit. The two loops that follow chains of blocks
  on the medium, in \<^verbatim>\<open>verify_and_read_record\<close> and \<^verbatim>\<open>free_record\<close>, are general recursion whose termination
  is proved from the set of visited blocks. No function needs fuel.

  The theories, from the bottom, and what they show:

  \<^item> \<open>Ekv_Error\<close> is \<^verbatim>\<open>error.rs\<close>. \<open>Ekv_Prelude\<close> has outcomes, computations, Hoare triples that exclude
    panics, checked arithmetic, slices and little-endian fields.
  \<^item> \<open>Ekv_Format\<close>, \<open>Ekv_Crc\<close>, \<open>Ekv_Block\<close> are \<^verbatim>\<open>format.rs\<close>, \<^verbatim>\<open>crc.rs\<close> and \<^verbatim>\<open>block.rs\<close>: the table-driven
    checksum is the bit-serial one and detects every change of one byte; headers round-trip; the
    classification of a block is total.
  \<^item> \<open>Ekv_Device\<close> is \<^verbatim>\<open>device.rs\<close>: the trait \<^verbatim>\<open>BlockDevice\<close> as a record of operations, \<^verbatim>\<open>MemDevice\<close>, and
    \<^verbatim>\<open>FileDevice\<close> over a file whose system calls follow a schedule of faults, where a failing write may
    transfer any prefix. The locale \<open>device_contract\<close> says what the rest of the crate relies on; both
    devices are shown to satisfy it (\<open>mem\<close>, \<open>disk\<close>), a file without faults as a reliable device (\<open>rfile\<close>).
  \<^item> \<open>Ekv_Utf8\<close> is the lossy UTF-8 decoding of keys, \<open>Ekv_Index\<close> is \<^verbatim>\<open>index.rs\<close> over the locale
    \<open>keyed_records\<close>, a table that keeps the newest record per key.
  \<^item> \<open>Ekv_Record\<close> is \<^verbatim>\<open>record.rs\<close>: \<open>complete\<close> says what a record on the medium is, and
    \<^verbatim>\<open>verify_and_read_record\<close> accepts exactly those. \<open>Ekv_Medium\<close> has the theory of media: records share no
    blocks, and \<open>latest\<close> is the record per key that a scan finds. \<open>Ekv_Encode\<close> has the blocks that a put
    writes and why they are a complete record; \<open>Ekv_Bounds\<close> the number of reads and of blocks.
  \<^item> \<open>Ekv_Replica\<close> and \<open>Ekv_Store\<close> are \<^verbatim>\<open>store.rs\<close>: the per-replica operations, then \<^verbatim>\<open>format\<close>, \<^verbatim>\<open>open\<close> and the
    methods of \<^verbatim>\<open>Store\<close>. \<open>Ekv_Replica_Proofs\<close>, \<open>Ekv_Scan\<close>, \<open>Ekv_Write\<close>, \<open>Ekv_Put\<close>, \<open>Ekv_Store_Proofs\<close> and
    \<open>Ekv_Lifecycle\<close> prove a Hoare triple for each operation, over any device that satisfies the
    contract: its effect on the list of blocks of every replica, on success and on every error.
  \<^item> \<open>Ekv_Lockstep\<close>, \<open>Ekv_Kv\<close>, \<open>Ekv_Session\<close>, \<open>Ekv_Space\<close>: replicas stay in lockstep, and the store on reliable
    devices satisfies the contract \<open>kv_contract\<close> of a map, whose clients see a trace of the map's state
    machine \<open>kv_step\<close>; sessions of format, open, recover and index keep the map; a put succeeds exactly
    if there is room.
  \<^item> \<open>Ekv_Crash\<close>: puts, deletes and recoveries that fail at any system call, on any replica. After a
    restart the store reads as the old map or as the new one. The one assumption on the checksum is
    \<open>tears_detected\<close>: it notices the torn blocks of the put at hand. (A CRC cannot notice all torn
    blocks.) Reads skip failing replicas and no others. \<open>Ekv_Machine\<close>: the store as a state machine and its invariant.
  \<^item> \<open>Ekv_Limits\<close>: runs that show where the guarantees end. \<open>Ekv_Examples\<close>: small media and stores on which
    theorems are instantiated.
  \<^item> \<open>Ekv_Fuzz\<close> models the five fuzz targets and shows that none of them panics, for any input.

  This theory has the properties of the store as a whole.

  Conditions. The theorems about \<^verbatim>\<open>put\<close> assume a block size of at least 36, a free pattern that the code
  recognises as free (0 or 255), keys below \<open>2 ^ 16\<close> and values below \<open>2 ^ 32\<close> bytes, and generations below
  \<open>2 ^ 32\<close>; \<open>Ekv_Limits\<close> shows what happens at some of these limits. The crash theorems treat a failed
  system call as the loss of power: what the call left is what the next session finds, and writes
  reach the file in order.

  Not modelled. \<^verbatim>\<open>lib.rs\<close> has module declarations and re-exports only. The macro \<^verbatim>\<open>fuzz_target\<close> and the
  derived decoding of fuzz inputs are outside the sources: a target is a function of the decoded input.
  The text of operating system errors and the order in which a hash set yields its elements are
  parameters. Derived Debug formatting is used by no code.
\<close>

section \<open>The store is a map\<close>

text \<open>
  Property C1: a store on any number of freshly formatted \<^verbatim>\<open>MemDevice\<close> replicas is a map from keys to
  values. Formatting, opening and indexing succeed, and every sequence of \<^verbatim>\<open>put\<close>, \<^verbatim>\<open>get\<close> and \<^verbatim>\<open>delete\<close> calls
  gets replies that the map's state machine allows from the empty map: \<^verbatim>\<open>get\<close> returns the value of
  the last successful put, a delete removes the key, a refused put changes nothing, and no call panics.
\<close>

theorem fresh_store_refines_map:
  assumes "36 \<le> unat bs" and "0 < bc" and "0 < r" and "unat (op_replica_id op) + r \<le> 2 ^ 32"
    and "free_byte (op_free_pattern op')" and "\<forall>c \<in> set cs. legal_call bs c" and "length cs < 2 ^ 32"
  shows "\<exists>devs s s' rs s'' m. format_store oc mem_dev op (replicate r (mem_new bs bc)) = (Ok (), devs) \<and>
    open_store oc mem_dev devs op' = Ok s \<and> store_build_index oc mem_dev s = (Ok (), s') \<and>
    kv_calls (store_get oc mem_dev) (store_put oc mem_dev) (store_delete oc mem_dev) cs s' = (rs, s'') \<and>
    kv_trace (key_too_long bs) Map.empty cs rs m \<and> length rs = length cs \<and> Panicked \<notin> set rs"
proof -
  have id: "unat (op_replica_id op) + length (replicate r (mem_new bs bc)) \<le> 2 ^ 32" using assms(4) by simp
  from rmem.blank_start [OF assms(1) blank_mem [OF assms(3,2)] id assms(5), of oc] obtain devs s s' where
    start: "format_store oc mem_dev op (replicate r (mem_new bs bc)) = (Ok (), devs)"
      "open_store oc mem_dev devs op' = Ok s" "store_build_index oc mem_dev s = (Ok (), s')"
    and holds: "store_holds mem_at bs 0 Map.empty s'" by blast
  have legal: "legal_put bs k v" if "Put k v \<in> set cs" for k v using assms(6) that by fastforce
  have "0 + length cs < 2 ^ 32" using assms(7) by simp
  from rmem.kv.calls_refine [OF holds legal this, of oc] obtain rs s'' m where
    run: "kv_calls (store_get oc mem_dev) (store_put oc mem_dev) (store_delete oc mem_dev) cs s' = (rs, s'')"
      "kv_trace (key_too_long bs) Map.empty cs rs m" by blast
  from start run kv_trace_no_panic [OF run(2)] show ?thesis by blast
qed

theorem fresh_store_refines_map_witness:
  "\<exists>devs s s' r1 r2 r3 s''. format_store True mem_dev options_new (replicate 2 (mem_new 64 4)) = (Ok (), devs) \<and>
    open_store True mem_dev devs options_new = Ok s \<and> store_build_index True mem_dev s = (Ok (), s') \<and>
    kv_calls (store_get True mem_dev) (store_put True mem_dev) (store_delete True mem_dev)
      [Put [1] [7], Delete [1], Get [1]] s' = ([r1, r2, r3], s'') \<and> r3 = Failed KeyNotFound"
proof -
  have "\<exists>devs s s' rs s'' m. format_store True mem_dev options_new (replicate 2 (mem_new 64 4)) = (Ok (), devs) \<and>
    open_store True mem_dev devs options_new = Ok s \<and> store_build_index True mem_dev s = (Ok (), s') \<and>
    kv_calls (store_get True mem_dev) (store_put True mem_dev) (store_delete True mem_dev)
      [Put [1] [7], Delete [1], Get [1]] s' = (rs, s'') \<and>
    kv_trace (key_too_long 64) Map.empty [Put [1] [7], Delete [1], Get [1]] rs m \<and>
    length rs = length [Put [1] [7], Delete [1], Get [1]] \<and> Panicked \<notin> set rs"
    by (rule fresh_store_refines_map) (simp_all add: legal_put_def key_too_long_def free_byte_def options_new_def)
  then obtain devs s s' rs s'' m where run: "format_store True mem_dev options_new (replicate 2 (mem_new 64 4)) = (Ok (), devs)"
    "open_store True mem_dev devs options_new = Ok s" "store_build_index True mem_dev s = (Ok (), s')"
    "kv_calls (store_get True mem_dev) (store_put True mem_dev) (store_delete True mem_dev)
      [Put [1] [7], Delete [1], Get [1]] s' = (rs, s'')"
    and trace: "kv_trace (key_too_long 64) Map.empty [Put [1] [7], Delete [1], Get [1]] rs m" by blast
  from trace have "\<exists>r1 r2. rs = [r1, r2, Failed KeyNotFound]"
    by (auto simp: kv_step_Put kv_step_Delete kv_step_Get)
  with run show ?thesis by blast
qed



text \<open>
  Property C6: a store survives a restart. When the files of a store that holds the map \<open>m\<close> are opened
  again by \<^verbatim>\<open>FileDevice::open\<close>, the store opens and indexes without error, also with other options, and
  holds \<open>m\<close>: every key reads back its value.
\<close>

theorem store_survives_restart:
  assumes "store_holds quiet_at bs n m s" and "free_byte (op_free_pattern op)"
  shows "\<exists>devs s1 s2. map power_cycle (into_devices s) = map Ok devs \<and> open_store oc file_dev devs op = Ok s1 \<and>
    store_build_index oc file_dev s1 = (Ok (), s2) \<and> store_holds quiet_at bs n m s2 \<and> reads_as oc file_dev m s2"
proof -
  from holds_file_devices [OF assms(1)] obtain bc op' Bs devs where kv: "kv_media bs bc op' n m Bs"
    and devs: "map power_cycle (into_devices s) = map Ok devs" "list_all2 (quiet_at bs bc) Bs devs" by blast
  from kv assms(2) have "kv_media bs bc op n m Bs" by (auto simp: kv_media_raw intro: kv_raw_options)
  from rfile.open_build [OF this devs(2), of oc] devs(1) rfile.holds_reads_as show ?thesis by blast
qed

theorem store_survives_restart_witness:
  "\<exists>s devs s1 s2. map power_cycle (into_devices s) = map Ok devs \<and> open_store True file_dev devs options_new = Ok s1 \<and>
    store_build_index True file_dev s1 = (Ok (), s2) \<and> fst (store_get True file_dev [1] s2) = Ok [7]"
proof -
  have "free_byte (op_free_pattern options_new)" by (simp add: free_byte_def options_new_def)
  from store_survives_restart [OF stored_holds(1) this, of True] obtain devs s1 s2 where
    run: "map power_cycle (into_devices (file_store [] stored stored_index)) = map Ok devs"
      "open_store True file_dev devs options_new = Ok s1" "store_build_index True file_dev s1 = (Ok (), s2)"
      "reads_as True file_dev [key_str [1] \<mapsto> [7]] s2" by blast
  moreover have "fst (store_get True file_dev [1] s2) = Ok [7]" by (rule reads_asD [OF run(4)]) simp
  ultimately show ?thesis by blast
qed

section \<open>put, get and delete\<close>



text \<open>
  Property C8: a put succeeds exactly when it should. On \<^verbatim>\<open>FileDevice\<close> replicas in lockstep and without
  faults, \<^verbatim>\<open>put_flagged\<close> returns \<^verbatim>\<open>Ok\<close> if and only if the key fits into a descriptor block and as many
  blocks are free as the record needs.
\<close>

theorem put_succeeds_iff_room:
  assumes "kv_media bs bc op n m Bs" and "store_ok (quiet_at bs bc) bs bc op Bs s" and "legal_put bs k v"
    and "n + 1 < 2 ^ 32"
  shows "(\<exists>s'. store_put_flagged oc file_dev k v uflags s = (Ok (), s')) \<longleftrightarrow>
    36 + length k \<le> unat bs \<and> 1 + extra_blocks (unat bs) k v \<le> length (free_list bc (hd Bs))"
  using rfile.put_succeeds [OF assms] by (simp add: key_too_long_def has_room_def not_less)

theorem put_succeeds_iff_room_witness:
  "\<exists>s'. store_put_flagged True file_dev [1] [8] 5 (file_store [] stored stored_index) = (Ok (), s')"
  using put_succeeds_iff_room [OF stored_facts(1) stored_holds(2), of "[1]" "[8]" True 5]
  by (simp add: legal_put_def extra_blocks_def first_part_def stored_room)

text \<open>
  Property C9: what a successful put leaves on the replicas, on \<^verbatim>\<open>FileDevice\<close>s that may fail and need not
  agree. Every replica gets the new record, with the key, the value and the user flags as given and one
  and the same generation, above every generation that any replica had for the key; the latest records
  of all other keys stay, and replicas without stale records remain so.
\<close>

theorem put_reaches_every_replica:
  assumes "36 \<le> unat bs" and "Bs \<noteq> []" and "legal_put bs key val" and "free_byte (op_free_pattern op)"
    and "unat (top_generation bs bc Bs (key_str key)) + 1 < 2 ^ 32"
    and "store_ok (file_at bs bc) bs bc op Bs s" and "store_put_flagged oc file_dev key val uflags s = (Ok (), s')"
  shows "\<exists>Bs'. store_ok (file_at bs bc) bs bc op Bs' s' \<and> list_all2 (\<lambda>B B'. \<exists>r.
      latest bs bc B' = (latest bs bc B)(key_str key \<mapsto> r) \<and> cr_key r = key \<and> cr_value r = val \<and>
      rd_user_flags (cr_header r) = uflags \<and> cr_generation r = top_generation bs bc Bs (key_str key) + 1 \<and>
      (\<forall>r0. latest bs bc B (key_str key) = Some r0 \<longrightarrow> cr_generation r0 < cr_generation r) \<and>
      (tidy bs bc B \<longrightarrow> tidy bs bc B')) Bs Bs'"
proof -
  let ?free = "make_free_buf bs (op_free_pattern op)" and ?g = "top_generation bs bc Bs (key_str key) + 1"
  have sizes: "length key < 2 ^ 32" "36 + length key \<le> unat bs \<Longrightarrow> length key < 2 ^ 16" "length val < 2 ^ 32"
    using assms(3) by (auto simp: legal_put_def key_too_long_def)
  note ok = triple_Ok [OF disk.store_put_flagged_spec [OF assms(1) sizes assms(2,5,4)] assms(6,7)]
  then have fit: "fits_format (unat bs) key val" using sizes by (simp add: fits_format_def)
  have g: "unat ?g = unat (top_generation bs bc Bs (key_str key)) + 1" using assms(5) by (subst unat_u32_add) simp_all
  have newer: "cr_generation r0 < ?g" if "B \<in> set Bs" "latest bs bc B (key_str key) = Some r0" for B r0
    using top_generation_bound [OF that] g by (simp add: word_le_nat_alt word_less_nat_alt)
  have dead: "\<not> live_block ?free" using free_byte_block [OF assms(4), of bs] assms(1) free_not_live by simp
  have eff: "latest bs bc (put_medium bs bc B ?free key ?g val uflags) =
      (latest bs bc B)(key_str key \<mapsto> put_record bs bc B key ?g val uflags) \<and>
      (tidy bs bc B \<longrightarrow> tidy bs bc (put_medium bs bc B ?free key ?g val uflags))" if "B \<in> set Bs" for B
    using put_medium_effect [OF disk.store_ok_length [OF assms(6) that] fit _ newer [OF that] dead] ok that by blast
  show ?thesis
    by (rule exI [of _ "map (\<lambda>B. put_medium bs bc B ?free key ?g val uflags) Bs"])
      (use ok eff newer in \<open>fastforce simp: list_all2_map2 list_all2_same\<close>)
qed

theorem put_reaches_every_replica_witness:
  "\<exists>s s' Bs'. store_put_flagged True file_dev [1] [8] 5 s = (Ok (), s') \<and> store_ok (file_at 64 4) 64 4 options_new Bs' s' \<and>
    list_all2 (\<lambda>B B'. \<exists>r. latest 64 4 B' = (latest 64 4 B)(key_str [1] \<mapsto> r) \<and> cr_value r = [8]) [stored] Bs'"
proof -
  let ?s = "file_store [] stored stored_index"
  have legal: "legal_put 64 [1] [8]" and fp: "free_byte (op_free_pattern options_new)"
    by (simp_all add: legal_put_def free_byte_def options_new_def)
  have gen: "unat (top_generation 64 4 [stored] (key_str [1])) \<le> 1"
    using stored_facts(1) by (intro top_generation_le) (simp add: kv_media_def)
  then have gen': "unat (top_generation 64 4 [stored] (key_str [1])) + 1 < 2 ^ 32" by simp
  have room: "1 + extra_blocks (unat (64 :: u32)) [1] [8] \<le> length (free_list 4 stored)"
    by (simp add: stored_room extra_blocks_def first_part_def)
  have "\<exists>s'. store_put_flagged True file_dev [1] [8] 5 ?s = (Ok (), s')"
    using rfile.put_succeeds [OF stored_facts(1) stored_holds(2) legal, of True 5] room
    by (simp add: key_too_long_def has_room_def)
  then obtain s' where s': "store_put_flagged True file_dev [1] [8] 5 ?s = (Ok (), s')" by blast
  have "36 \<le> unat (64 :: u32)" "[stored] \<noteq> []" by simp_all
  from put_reaches_every_replica [OF this legal fp gen' stored_facts(2) s'] s' show ?thesis
    by (fastforce simp: list_all2_Cons1)
qed

text \<open>
  Property C10: a delete gives the blocks of the record back. On \<^verbatim>\<open>FileDevice\<close> replicas in lockstep and
  without faults, deleting a key that has the record \<open>r0\<close> succeeds; the store then holds the map without
  the key, and on every replica the blocks that became free are exactly the descriptor block and the
  chunk blocks of \<open>r0\<close>.
\<close>

theorem delete_frees_record:
  assumes kv: "kv_media bs bc op n m Bs" and s: "store_ok (quiet_at bs bc) bs bc op Bs s"
    and r0: "latest bs bc (hd Bs) (key_str k) = Some r0"
  shows "\<exists>s' Bs'. store_delete oc file_dev k s = (Ok (), s') \<and> store_ok (quiet_at bs bc) bs bc op Bs' s' \<and>
    kv_media bs bc op n (m(key_str k := None)) Bs' \<and>
    (\<forall>B' \<in> set Bs'. set (free_list bc B') = set (free_list bc (hd Bs)) \<union> footprint r0) \<and>
    set (free_list bc (hd Bs)) \<inter> footprint r0 = {}"
proof -
  note k = kv_media_lockstep [OF kv]
  let ?free = "make_free_buf bs (op_free_pattern op)"
  let ?Bs = "map (\<lambda>B. delete_medium bs bc B ?free (key_str k)) Bs"
  have tidy: "\<And>B. B \<in> set Bs \<Longrightarrow> tidy bs bc B" using k(6) by blast
  have free: "free_block ?free" using free_byte_block [OF k(5), of bs] k(1) by simp
  have found: "\<not> (\<forall>B \<in> set Bs. latest bs bc B (key_str k) = None)" using k(4) r0 by force
  obtain s' where s': "store_delete oc file_dev k s = (Ok (), s')" "store_ok (quiet_at bs bc) bs bc op ?Bs s'"
    by (cases rule: triple_cases [OF rfile.store_delete_spec [OF k(1,5) tidy, where oc = oc and key = k and Bs = Bs] s])
      (use found in auto)
  have "set (free_list bc (delete_medium bs bc B ?free (key_str k))) = set (free_list bc (hd Bs)) \<union> footprint r0"
    if "B \<in> set Bs" for B
    using delete_medium_free(1) [of B bc ?free bs "key_str k" r0] free that k(4,6) r0
      latest_same_data [of "hd Bs" B bs bc] free_list_same_data [of "hd Bs" B bc] by auto
  moreover have "set (free_list bc (hd Bs)) \<inter> footprint r0 = {}"
    using delete_medium_free(2) [of "hd Bs" bc ?free bs "key_str k" r0] free k(4,6) r0 by blast
  ultimately show ?thesis
    by (intro exI [of _ s'] exI [of _ ?Bs]) (use s' kv_media_delete [OF kv, of "key_str k"] in auto)
qed

theorem delete_frees_record_witness:
  "\<exists>s' Bs'. store_delete True file_dev [1] (file_store [] stored stored_index) = (Ok (), s') \<and>
    kv_media 64 4 options_new 1 ([key_str [1] \<mapsto> [7]](key_str [1] := None)) Bs'"
proof -
  have "latest 64 4 (hd [stored]) (key_str [1]) = Some (put_record 64 4 fresh [1] 1 [7] 0)"
    by (simp add: stored_facts)
  from delete_frees_record [OF stored_facts(1) stored_holds(2) this, of True] show ?thesis by blast
qed

text \<open>
  Property C11: \<^verbatim>\<open>get\<close> on \<^verbatim>\<open>MemDevice\<close> replicas that may have diverged returns the value of the complete
  record of the highest generation that any replica has for the key, the first such replica's in case
  of a tie, and \<^verbatim>\<open>KeyNotFound\<close> exactly if no replica has one. It changes nothing.
\<close>

theorem get_returns_newest:
  assumes "36 \<le> unat bs" and "store_ok (mem_at bs bc) bs bc op Bs s"
  shows "\<exists>s'. store_get oc mem_dev key s =
      (case newest cr_generation None (List.map_filter (\<lambda>B. latest bs bc B (key_str key)) Bs) of
         None \<Rightarrow> Err KeyNotFound | Some r \<Rightarrow> Ok (cr_value r), s') \<and> store_ok (mem_at bs bc) bs bc op Bs s'"
  by (rule rmem.get_newest [OF assms])

theorem get_returns_newest_witness:
  "\<exists>s s'. store_get True mem_dev [1] s = (Ok [7], s') \<and> store_ok (mem_at 64 4) 64 4 options_new [stored] s'"
proof -
  have geo: "36 \<le> unat (64 :: u32)" by simp
  from store_on_blocks [OF geo stored_facts(5), of options_new] obtain s where
    s: "store_ok (mem_at 64 4) 64 4 options_new [stored] s" by blast
  from get_returns_newest [OF geo s, of True "[1]"] show ?thesis by (auto simp: List.map_filter_simps stored_facts)
qed

text \<open>
  Property C14: \<^verbatim>\<open>get\<close> tolerates replicas that fail. On \<^verbatim>\<open>FileDevice\<close>s whose system calls may fail at any
  point, it never panics and never returns an I/O error: it answers with the newest record among the
  replicas it could read, or \<^verbatim>\<open>KeyNotFound\<close> if none of those has the key. Every replica without a fault
  ahead is read.
\<close>

theorem get_survives_faulty_replicas:
  assumes "36 \<le> unat bs" and "store_ok (file_at bs bc) bs bc op Bs s"
  shows "\<exists>xs s'. list_all2 (\<lambda>(B, r) x. x = latest bs bc B (key_str key) \<or> x = None \<and> file_faults (fd_file (rp_dev r)) \<noteq> [])
      (zip Bs (st_replicas s)) xs \<and>
    store_get oc file_dev key s = (case newest cr_generation None (List.map_filter id xs) of
         None \<Rightarrow> Err KeyNotFound | Some r \<Rightarrow> Ok (cr_value r), s') \<and> store_ok (file_at bs bc) bs bc op Bs s'"
proof -
  let ?Bqs = "zip Bs (map healthy (st_replicas s))"
  have len: "length Bs = length (st_replicas s)" using assms(2) by (auto simp: store_ok_def dest: list_all2_lengthD)
  have pre: "list_all2 (\<lambda>(B, q) r. rep_ok (file_at bs bc) bs bc B r \<and> healthy r = q) ?Bqs (st_replicas s) \<and> st_opts s = op"
    using assms(2) by (simp add: store_ok_def list_all2_conv_all_nth)
  have post: "store_ok (file_at bs bc) bs bc op Bs s'"
    if "list_all2 (\<lambda>(B, q). rep_ok (file_at bs bc) bs bc B) ?Bqs (st_replicas s') \<and> st_opts s' = op" for s'
    using that len by (simp add: store_ok_def list_all2_conv_all_nth)
  have seen: "list_all2 (\<lambda>(B, r) x. x = latest bs bc B (key_str key) \<or> x = None \<and> file_faults (fd_file (rp_dev r)) \<noteq> [])
      (zip Bs (st_replicas s)) xs"
    if "list_all2 (\<lambda>Bq x. x = latest bs bc (fst Bq) (key_str key) \<or> x = None \<and> \<not> snd Bq) ?Bqs xs" for xs
    using that len by (auto simp: list_all2_conv_all_nth healthy_def)
  show ?thesis
  proof (cases rule: triple_cases [OF store_get_healthy [OF assms(1), where oc = oc and key = key] pre])
    case (1 v s')
    then obtain xs r where "list_all2 (\<lambda>Bq x. x = latest bs bc (fst Bq) (key_str key) \<or> x = None \<and> \<not> snd Bq) ?Bqs xs"
      "newest cr_generation None (List.map_filter id xs) = Some r" "v = cr_value r" by blast
    with 1 post [of s'] seen [of xs] show ?thesis by (intro exI [of _ xs] exI [of _ s']) simp
  next
    case (2 e s')
    then obtain xs where "list_all2 (\<lambda>Bq x. x = latest bs bc (fst Bq) (key_str key) \<or> x = None \<and> \<not> snd Bq) ?Bqs xs"
      "List.map_filter id xs = []" by blast
    with 2 post [of s'] seen [of xs] show ?thesis by (intro exI [of _ xs] exI [of _ s']) simp
  qed
qed

theorem get_survives_faulty_replicas_witness:
  "\<exists>s s'. map (file_faults \<circ> fd_file \<circ> rp_dev) (st_replicas s) = [[Fine, Fails 5 0], []] \<and>
    store_get True file_dev [1] s = (Ok [7], s')"
proof -
  let ?s = "\<lparr>st_replicas = st_replicas (file_store [Fine, Fails 5 0] stored stored_index) @
    st_replicas (file_store [] stored stored_index), st_opts = options_new\<rparr>"
  have geo: "36 \<le> unat (64 :: u32)" by simp
  have "store_ok (file_at 64 4) 64 4 options_new [stored, stored] ?s"
    using stored_facts(2) [of "[Fine, Fails 5 0]"] stored_facts(2) [of "[]"] by (simp add: store_ok_def file_store_def)
  from get_survives_faulty_replicas [OF geo this, of "[1]" True] obtain s' where
    "store_get True file_dev [1] ?s = (Ok [7], s')"
    by (auto simp: file_store_def list_all2_Cons1 stored_facts List.map_filter_simps)
  then show ?thesis by (intro exI [of _ ?s] exI [of _ s']) (simp add: file_store_def)
qed

section \<open>Recovery, index, open and format\<close>

text \<open>
  Property C12: \<^verbatim>\<open>recover\<close> on \<^verbatim>\<open>MemDevice\<close> replicas with any data blocks erases exactly the garbage. It
  succeeds; the latest record of every key stays; a data block is free afterwards exactly if it belongs
  to no latest record; and a second recovery changes nothing.
\<close>

theorem recover_erases_exactly_garbage:
  assumes "36 \<le> unat bs" and "free_byte (op_free_pattern op)" and "store_media (mem_at bs bc) op Bs s"
  shows "\<exists>s' s'' Bs'. store_recover oc mem_dev s = (Ok (), s') \<and> store_media (mem_at bs bc) op Bs' s' \<and>
    list_all2 (\<lambda>B B'. latest bs bc B' = latest bs bc B \<and> tidy bs bc B' \<and> B' ! 0 = B ! 0 \<and>
      (\<forall>i. 0 < i \<longrightarrow> i < bc \<longrightarrow> (free_block (B' ! unat i) \<longleftrightarrow> (\<forall>k r. latest bs bc B k = Some r \<longrightarrow> i \<notin> footprint r)))) Bs Bs' \<and>
    store_recover oc mem_dev s' = (Ok (), s'') \<and> store_media (mem_at bs bc) op Bs' s''"
proof -
  let ?free = "make_free_buf bs (op_free_pattern op)"
  let ?f = "\<lambda>B. recover_medium bs bc B ?free"
  have free: "free_block ?free" using free_byte_block [OF assms(2), of bs] assms(1) by simp
  have len: "\<forall>B \<in> set Bs. length B = unat bc"
    using assms(3) by (fastforce simp: store_media_def mem_at_def list_all2_conv_all_nth in_set_conv_nth)
  have run: "\<exists>s'. store_recover oc mem_dev s = (Ok (), s') \<and> store_media (mem_at bs bc) op (map ?f Bs) s'"
    if "store_media (mem_at bs bc) op Bs s" for Bs s
    by (cases rule: triple_cases [OF mem.store_recover_spec [OF assms(1), where oc = oc] that]) auto
  from run [OF assms(3)] obtain s' where s': "store_recover oc mem_dev s = (Ok (), s')"
    "store_media (mem_at bs bc) op (map ?f Bs) s'" by blast
  have "?f (?f B) = ?f B" if "B \<in> set Bs" for B
    using recover_idle [of B bc ?free bs] free len that by (simp add: recover_medium_def [of bs bc "?f B"] apply_writes_def)
  then have same: "map ?f (map ?f Bs) = map ?f Bs" by simp
  from run [OF s'(2)] obtain s'' where s'': "store_recover oc mem_dev s' = (Ok (), s'')"
    "store_media (mem_at bs bc) op (map ?f Bs) s''" unfolding same by blast
  have kept: "i \<notin> kept_blocks bs bc B \<longleftrightarrow> (\<forall>k r. latest bs bc B k = Some r \<longrightarrow> i \<notin> footprint r)" if "0 < i" for B i
    using that by (auto simp: kept_blocks_def ran_def)
  have "list_all2 (\<lambda>B B'. latest bs bc B' = latest bs bc B \<and> tidy bs bc B' \<and> B' ! 0 = B ! 0 \<and>
      (\<forall>i. 0 < i \<longrightarrow> i < bc \<longrightarrow> (free_block (B' ! unat i) \<longleftrightarrow> (\<forall>k r. latest bs bc B k = Some r \<longrightarrow> i \<notin> footprint r))))
      Bs (map ?f Bs)"
    using recover_medium_effect [OF _ free, where bc = bc and bs = bs] len kept by (simp add: list_all2_map2 list_all2_same)
  with s' s'' show ?thesis by blast
qed

theorem recover_erases_exactly_garbage_witness:
  "\<exists>s s' B'. store_recover True mem_dev s = (Ok (), s') \<and> store_media (mem_at 64 4) options_new [B'] s' \<and>
    latest 64 4 B' = Map.empty \<and> free_block (B' ! 1)"
proof -
  have geo: "36 \<le> unat (64 :: u32)" and fp: "free_byte (op_free_pattern options_new)"
    by (simp_all add: free_byte_def options_new_def)
  have "blocks_sized 64 4 fresh" by (auto simp: blocks_sized_def fresh_def)
  from store_on_blocks [OF geo this, of options_new] obtain s where
    "store_ok (mem_at 64 4) 64 4 options_new [fresh] s" by blast
  then have "store_media (mem_at 64 4) options_new [fresh] s"
    by (auto simp: store_ok_def store_media_def rep_ok_def rep_at_def list_all2_Cons1)
  from recover_erases_exactly_garbage [OF geo fp this, of True] obtain s' B' where
    run: "store_recover True mem_dev s = (Ok (), s')" "store_media (mem_at 64 4) options_new [B'] s'"
    and B': "latest 64 4 B' = latest 64 4 fresh" "\<forall>i. 0 < i \<longrightarrow> i < 4 \<longrightarrow>
      (free_block (B' ! unat i) \<longleftrightarrow> (\<forall>k r. latest 64 4 fresh k = Some r \<longrightarrow> i \<notin> footprint r))"
    by (auto simp: list_all2_Cons1)
  from B'(2) [rule_format, of 1] have "free_block (B' ! 1)" by (simp add: fresh_facts)
  with run B'(1) show ?thesis by (auto simp: fresh_facts)
qed

text \<open>
  Property C13: after \<^verbatim>\<open>build_index\<close> on \<^verbatim>\<open>MemDevice\<close> replicas with any data blocks, the index of every replica
  is a proper map that has, for every key, the entry of the latest complete record on its medium, and
  no entry for any other key. The media are unchanged.
\<close>

theorem build_index_finds_latest:
  assumes "36 \<le> unat bs" and "store_media (mem_at bs bc) op Bs s"
  shows "\<exists>s'. store_build_index oc mem_dev s = (Ok (), s') \<and>
    list_all2 (\<lambda>B r. mem_at bs bc B (rp_dev r) \<and> mi_inv (rp_index r) \<and>
      (\<forall>k. mi_get (rp_index r) k = map_option entry_of (latest bs bc B k))) Bs (st_replicas s')"
proof -
  from rmem.build_run [OF assms, of oc] obtain s' where s': "store_build_index oc mem_dev s = (Ok (), s')"
    "store_ok (mem_at bs bc) bs bc op Bs s'" by blast
  then have "list_all2 (rep_ok (mem_at bs bc) bs bc) Bs (st_replicas s')" by (simp add: store_ok_def)
  then have "list_all2 (\<lambda>B r. mem_at bs bc B (rp_dev r) \<and> mi_inv (rp_index r) \<and>
      (\<forall>k. mi_get (rp_index r) k = map_option entry_of (latest bs bc B k))) Bs (st_replicas s')"
    by (rule list_all2_mono) (auto simp: rep_ok_def rep_at_def index_ok_def)
  with s'(1) show ?thesis by blast
qed

theorem build_index_finds_latest_witness:
  "\<exists>s s'. store_build_index True mem_dev s = (Ok (), s') \<and>
    list_all2 (\<lambda>B r. mem_at 64 4 B (rp_dev r) \<and> mi_inv (rp_index r) \<and>
      (\<forall>k. mi_get (rp_index r) k = map_option entry_of (latest 64 4 B k))) [stored] (st_replicas s')"
proof -
  have geo: "36 \<le> unat (64 :: u32)" by simp
  from store_on_blocks [OF geo stored_facts(5), of options_new] obtain s where
    "store_ok (mem_at 64 4) 64 4 options_new [stored] s" by blast
  then have "store_media (mem_at 64 4) options_new [stored] s"
    by (auto simp: store_ok_def store_media_def rep_ok_def rep_at_def list_all2_Cons1)
  from build_index_finds_latest [OF geo this] show ?thesis by blast
qed



text \<open>
  Property C16: what \<^verbatim>\<open>format\<close> writes, \<^verbatim>\<open>open\<close> reads back. On \<^verbatim>\<open>MemDevice\<close>s of one geometry and any content,
  formatting succeeds and changes block 0 only, and opening them then succeeds, with the header of
  replica \<open>i\<close> carrying the device's geometry, the format counter and the replica number plus \<open>i\<close>.
\<close>

theorem format_then_open:
  assumes "list_all2 (mem_at bs bc) Bs devs" and "Bs \<noteq> []" and "32 \<le> unat bs" and "0 < bc"
    and "unat (op_replica_id op) + length Bs \<le> 2 ^ 32"
  shows "\<exists>devs' s. format_store oc mem_dev op devs = (Ok (), devs') \<and> open_store oc mem_dev devs' op' = Ok s \<and>
    map rp_header (st_replicas s) = map (header_for bs bc op) [0..<length Bs] \<and>
    list_all2 (\<lambda>B d. \<exists>b. mem_at bs bc (B[0 := b]) d) Bs devs'"
proof -
  let ?hb = "\<lambda>i. header_block bs (header_for bs bc op i)"
  let ?Bs = "map (\<lambda>(i, B). B[0 := ?hb i]) (List.enumerate 0 Bs)"
  let ?ms = "map (\<lambda>B. (bs, bc, B)) ?Bs"
  from rmem.format_media [OF assms, of oc] obtain devs' where
    f: "format_store oc mem_dev op devs = (Ok (), devs')" "list_all2 (mem_at bs bc) ?Bs devs'" by blast
  have len: "length B = unat bc" if "B \<in> set Bs" for B
    using assms(1) that by (auto simp: list_all2_conv_all_nth in_set_conv_nth mem_at_def)
  have pos: "0 < unat bc" using assms(4) by (simp add: word_less_nat_alt)
  have block0: "?Bs ! i ! 0 = ?hb i" if "i < length Bs" for i
    using that len [of "Bs ! i"] pos by (simp add: nth_enumerate_eq)
  have "header_error bs bc (C ! 0) = None" if "C \<in> set ?Bs" for C
  proof -
    from that obtain i where "i < length Bs" "C = ?Bs ! i" by (auto simp: in_set_conv_nth)
    then show ?thesis using block0 header_error_formatted [OF assms(3)] by simp
  qed
  then have none: "open_error None ?ms = None" using assms(3) by (intro open_error_valid) auto
  have ms: "list_all2 (medium_at mem_at) ?ms devs'" using f(2) by (simp add: list_all2_map1 medium_at_def)
  have "case open_store oc mem_dev devs' op' of
      Ok s \<Rightarrow> open_error None ?ms = None \<and> list_all2 (opened_at mem_at) ?ms (st_replicas s) \<and> st_opts s = op'
    | Err e \<Rightarrow> False \<or> open_error None ?ms = Some e
    | Panic \<Rightarrow> False"
    by (rule mem.open_store_spec [OF ms]) (use assms(2,4) in \<open>auto simp flip: length_greater_0_conv\<close>)
  with none obtain s where s: "open_store oc mem_dev devs' op' = Ok s"
    "list_all2 (opened_at mem_at) ?ms (st_replicas s)" by (cases "open_store oc mem_dev devs' op'") simp_all
  have "map rp_header (st_replicas s) = map (header_for bs bc op) [0..<length Bs]"
  proof (rule nth_equalityI)
    show "length (map rp_header (st_replicas s)) = length (map (header_for bs bc op) [0..<length Bs])"
      using list_all2_lengthD [OF s(2)] by simp
    show "map rp_header (st_replicas s) ! i = map (header_for bs bc op) [0..<length Bs] ! i"
      if "i < length (map rp_header (st_replicas s))" for i
    proof -
      have i: "i < length Bs" using that list_all2_lengthD [OF s(2)] by simp
      then have "opened_at mem_at (?ms ! i) (st_replicas s ! i)" using list_all2_nthD [OF s(2), of i] by simp
      then have "rp_header (st_replicas s ! i) = read_storage_header (?Bs ! i ! 0)"
        using i by (simp add: opened_at_def rep_at_def)
      then show ?thesis using i that block0 [OF i] header_block_facts(3) [OF assms(3)] by simp
    qed
  qed
  moreover have "list_all2 (\<lambda>B d. \<exists>b. mem_at bs bc (B[0 := b]) d) Bs devs'"
    using f(2) by (fastforce simp: list_all2_conv_all_nth nth_enumerate_eq)
  ultimately show ?thesis using f(1) s(1) by blast
qed

theorem format_then_open_witness:
  "\<exists>devs' s. format_store True mem_dev options_new [mem_new 64 4, mem_new 64 4] = (Ok (), devs') \<and>
    open_store True mem_dev devs' options_new = Ok s \<and>
    map rp_header (st_replicas s) = [header_for 64 4 options_new 0, header_for 64 4 options_new 1]"
proof -
  let ?z = "replicate 4 (replicate 64 0) :: bytes list"
  have "mem_at 64 4 ?z (mem_new 64 4)" using mem_at_new [of 64 4] by simp
  then have devs: "list_all2 (mem_at 64 4) [?z, ?z] [mem_new 64 4, mem_new 64 4]" by simp
  have "\<exists>devs' s. format_store True mem_dev options_new [mem_new 64 4, mem_new 64 4] = (Ok (), devs') \<and>
    open_store True mem_dev devs' options_new = Ok s \<and>
    map rp_header (st_replicas s) = map (header_for 64 4 options_new) [0..<length [?z, ?z]] \<and>
    list_all2 (\<lambda>B d. \<exists>b. mem_at 64 4 (B[0 := b]) d) [?z, ?z] devs'"
    by (rule format_then_open [OF devs]) (simp_all add: options_new_def)
  then show ?thesis by (auto simp: upt_conv_Cons)
qed

section \<open>Records\<close>

text \<open>
  Property C19: the shape of every record that \<^verbatim>\<open>verify_and_read_record\<close> returns, on a \<^verbatim>\<open>FileDevice\<close> with any
  content and faults: it lies in distinct blocks of the device, the key and the value have the lengths
  that the header announces, and the value is no longer than its blocks allow.
\<close>

theorem read_record_well_formed:
  assumes "file_at bs bc B d" and "36 \<le> unat bs" and "db < bc"
    and "verify_and_read_record oc file_dev db d = (Ok (Some r), d')"
  shows "cr_descriptor_block r = db \<and> distinct (db # cr_chunk_blocks r) \<and> (\<forall>c \<in> set (cr_chunk_blocks r). c < bc) \<and>
    unat (rd_chunk_count (cr_header r)) = length (db # cr_chunk_blocks r) \<and>
    length (cr_key r) = unat (rd_key_size (cr_header r)) \<and> rd_total_size (cr_header r) = word_of_nat (length (cr_value r)) \<and>
    36 + length (cr_key r) + length (cr_value r) \<le> unat bs + length (cr_chunk_blocks r) * (unat bs - 24)"
proof -
  from triple_Ok [OF disk.verify_and_read_record_spec [OF assms(2,3)] assms(1,4)]
  have c: "complete (unat bs) B db r" by blast
  let ?b = "B ! unat db"
  from c obtain v where ch: "chain (unat bs) B db 1 (rd_next_chunk (read_descriptor_header ?b)) (cr_chunk_blocks r) v"
    and r: "cr_value r = desc_payload ?b @ v" "cr_key r = desc_key ?b" "cr_header r = read_descriptor_header ?b"
    and b: "desc_ok (unat bs) ?b" "distinct (cr_chunk_blocks r)" "cr_descriptor_block r = db"
      "unat (rd_chunk_count (read_descriptor_header ?b)) = 1 + length (cr_chunk_blocks r)"
      "rd_total_size (read_descriptor_header ?b) = word_of_nat (length (cr_value r))"
    by (auto simp: complete_def Let_def)
  have len: "length ?b = unat bs" "length B = unat bc"
    using assms(1,3) by (auto simp: file_at_def word_less_nat_alt)
  have "length v \<le> length (cr_chunk_blocks r) * (unat bs - 24)"
    using ch by (induction rule: chain.induct) (auto simp: chunk_ok_def chunk_payload_def Let_def)
  moreover have "db \<notin> set (cr_chunk_blocks r)" using chain_blocks [OF ch, of db] b(1) by (auto simp: desc_ok_def Let_def)
  moreover have "\<forall>c \<in> set (cr_chunk_blocks r). c < bc" using chain_blocks [OF ch] len(2) by (auto simp: word_less_nat_alt)
  moreover have "length (desc_payload ?b) = unat (rd_first_payload_size (read_descriptor_header ?b))"
    "length (desc_key ?b) = unat (rd_key_size (read_descriptor_header ?b))"
    "36 + unat (rd_key_size (read_descriptor_header ?b)) + unat (rd_first_payload_size (read_descriptor_header ?b)) \<le> unat bs"
    using b(1) len(1) length_desc_payload [OF b(1)] by (auto simp: desc_ok_def desc_key_def Let_def)
  ultimately show ?thesis using r b by simp
qed

theorem read_record_well_formed_witness:
  "\<exists>r d'. verify_and_read_record True file_dev 1 (file_with [] stored) = (Ok (Some r), d') \<and>
    unat (rd_chunk_count (cr_header r)) = length (1 # cr_chunk_blocks r) \<and>
    rd_total_size (cr_header r) = word_of_nat (length (cr_value r))"
proof -
  have at: "file_at 64 4 stored (file_with [] stored)"
    using stored_facts(2) [of "[]"] by (simp add: store_ok_def file_store_def rep_ok_def rep_at_def)
  have geo: "36 \<le> unat (64 :: u32)" "(1 :: u32) < 4" by simp_all
  have c: "complete (unat (64 :: u32)) stored 1 (put_record 64 4 fresh [1] 1 [7] 0)"
    using latest_Some(1) [of 64 4 stored "key_str [1]"]
    by (simp add: stored_facts put_blocks_def fresh_facts extra_blocks_def first_part_def)
  have "quiet_at 64 4 stored (file_with [] stored)" using at by (simp add: quiet_at_def)
  from rfile.verify_and_read_record_spec [OF geo, where oc = True] this
  obtain d' where run: "verify_and_read_record True file_dev 1 (file_with [] stored) = (Ok (Some (put_record 64 4 fresh [1] 1 [7] 0)), d')"
    by (cases rule: triple_cases) (use c in auto)
  from read_record_well_formed [OF at geo run] run show ?thesis by blast
qed

text \<open>
  Property C20: two records on one medium share no block. Whatever a \<^verbatim>\<open>MemDevice\<close> holds, the blocks of the
  records read from two different descriptor blocks are disjoint, so that erasing one leaves the other
  intact.
\<close>

theorem records_disjoint:
  assumes "mem_at bs bc B d" and "36 \<le> unat bs" and "db < bc" and "db' < bc" and "db \<noteq> db'"
    and "verify_and_read_record oc mem_dev db d = (Ok (Some r), d1)"
    and "verify_and_read_record oc mem_dev db' d = (Ok (Some r'), d2)"
  shows "set (cr_descriptor_block r # cr_chunk_blocks r) \<inter> set (cr_descriptor_block r' # cr_chunk_blocks r') = {}"
proof -
  have c: "complete (unat bs) B db r" "complete (unat bs) B db' r'"
    using triple_Ok [OF mem.verify_and_read_record_spec [OF assms(2,3)] assms(1,6)]
      triple_Ok [OF mem.verify_and_read_record_spec [OF assms(2,4)] assms(1,7)] by blast+
  show ?thesis using footprint_disjoint [OF c] assms(5) by (auto simp: footprint_def)
qed

theorem records_disjoint_witness:
  "\<exists>d r r' d1 d2. verify_and_read_record True mem_dev 1 d = (Ok (Some r), d1) \<and>
    verify_and_read_record True mem_dev 2 d = (Ok (Some r'), d2) \<and>
    set (cr_descriptor_block r # cr_chunk_blocks r) \<inter> set (cr_descriptor_block r' # cr_chunk_blocks r') = {}"
proof -
  let ?d = "\<lparr>mem_block_size = 64, mem_block_count = 4, mem_data = concat shadowed\<rparr>"
  have at: "mem_at 64 4 shadowed ?d"
    using blocks_sized_put [OF stored_facts(5) stored_room(4,2), of 1 0]
    by (simp add: mem_at_def shadowed_def blocks_sized_def)
  have read: "\<exists>d'. verify_and_read_record True mem_dev db ?d = (Ok (Some r), d')"
    if "complete (unat (64 :: u32)) shadowed db r" "db < 4" for db r
    by (cases rule: triple_cases [OF mem.verify_and_read_record_spec [OF _ that(2), where oc = True] at])
      (use that(1) in auto)
  from read [OF shadowed_complete(1)] read [OF shadowed_complete(2)] obtain d1 d2 r r' where
    run: "verify_and_read_record True mem_dev 1 ?d = (Ok (Some r), d1)" "verify_and_read_record True mem_dev 2 ?d = (Ok (Some r'), d2)"
    by auto
  have "set (cr_descriptor_block r # cr_chunk_blocks r) \<inter> set (cr_descriptor_block r' # cr_chunk_blocks r') = {}"
    by (rule records_disjoint [OF at _ _ _ _ run]) simp_all
  with run show ?thesis by blast
qed

section \<open>keys and iterate\<close>

lemma iterate_append:
  "iterate_loop f (xs @ ys) c = (case iterate_loop f xs c of (Ok _, c') \<Rightarrow> iterate_loop f ys c' | r \<Rightarrow> r)"
  by (induction xs arbitrary: c) (auto simp: bind_io_def split: prod.split outcome.split)



end
